(* ===== verification/Ocx_Prelude.thy ===== *)
theory Ocx_Prelude
  imports
    Main
    "HOL-Library.Word"
    "HOL-Library.Char_ord"
    "HOL-Library.Code_Target_Nat"
    "HOL-Library.List_Lexorder"
    "HOL-Library.Option_ord"
    "HOL-Library.Product_Lexorder"
begin

section \<open>Shared vocabulary of the development\<close>

text \<open>
  What the component theories share: Rust's three-way comparison and the law
  package of a total \<open>Ord\<close> implementation, the ASCII character classes of
  \<open>char\<close> and \<open>u8\<close>, the \<open>str\<close> methods the sources call, decimal \<open>u32\<close>
  parsing and printing, and the ordered collections \<open>BTreeMap\<close> and
  \<open>BTreeSet\<close> as strictly ascending lists.

  A Rust \<open>str\<close> is a sequence of UTF-8 bytes and an Isabelle \<open>char\<close> is a
  byte, so \<open>string\<close> is \<open>str\<close> byte for byte, \<open>length\<close> is \<open>str::len\<close>, and
  the lexicographic order on \<open>string\<close> is \<open>Ord for str\<close>.
\<close>

named_theorems rust_str
  \<open>rewrite rules for the str methods\<close>
named_theorems btree
  \<open>rewrite rules for the ordered maps and sets\<close>
named_theorems cmp_rules
  \<open>rewrite rules for three-way comparisons\<close>

type_synonym u32 = "32 word"
type_synonym i64 = int
type_synonym ('e, 'a) result = "'e + 'a"

subsection \<open>Three-way comparison\<close>

text \<open>\<open>std::cmp::Ordering\<close>.\<close>

datatype ordering = Less | Equal | Greater

fun reverse_ordering :: "ordering \<Rightarrow> ordering" where
  "reverse_ordering Less = Greater"
| "reverse_ordering Equal = Equal"
| "reverse_ordering Greater = Less"

text \<open>\<open>a.cmp(b)\<close> on a type whose order the library already has.\<close>

definition cmp_of :: "'a::linorder \<Rightarrow> 'a \<Rightarrow> ordering" where
  "cmp_of x y = (if x < y then Less else if x = y then Equal else Greater)"

lemma cmp_of_Less [simp, cmp_rules]: "cmp_of x y = Less \<longleftrightarrow> x < y"
  and cmp_of_Equal [simp, cmp_rules]: "cmp_of x y = Equal \<longleftrightarrow> x = y"
  and cmp_of_Greater [simp, cmp_rules]: "cmp_of x y = Greater \<longleftrightarrow> y < x"
  by (auto simp: cmp_of_def)

lemma cmp_of_refl [simp]: "cmp_of x x = Equal"
  by simp

text \<open>
  \<open>match a.cmp(b) { Equal => {}, ordering => return ordering }\<close> followed by
  the rest of a comparison.
\<close>

definition then_cmp :: "ordering \<Rightarrow> ordering \<Rightarrow> ordering" where
  "then_cmp c d = (case c of Equal \<Rightarrow> d | _ \<Rightarrow> c)"

lemma then_cmp_simps [simp, cmp_rules]:
  "then_cmp Equal d = d" "then_cmp Less d = Less" "then_cmp Greater d = Greater"
  by (simp_all add: then_cmp_def)

lemma then_cmp_eq_iff [cmp_rules]:
  "then_cmp c d = Less \<longleftrightarrow> c = Less \<or> c = Equal \<and> d = Less"
  "then_cmp c d = Equal \<longleftrightarrow> c = Equal \<and> d = Equal"
  "then_cmp c d = Greater \<longleftrightarrow> c = Greater \<or> c = Equal \<and> d = Greater"
  by (cases c; simp)+

text \<open>
  The contract of a Rust \<open>Ord\<close> implementation that agrees with its \<open>Eq\<close>:
  totality, antisymmetry and transitivity, stated on the comparison function.
  A type's \<open>linorder\<close> instance is derived from an interpretation.
\<close>

locale rust_ord =
  fixes cmp :: "'a \<Rightarrow> 'a \<Rightarrow> ordering"
  assumes cmp_Equal: "cmp x y = Equal \<longleftrightarrow> x = y"
    and cmp_reverse: "cmp y x = reverse_ordering (cmp x y)"
    and cmp_trans: "cmp x y = Less \<Longrightarrow> cmp y z = Less \<Longrightarrow> cmp x z = Less"
begin

lemma cmp_refl: "cmp x x = Equal"
  by (simp add: cmp_Equal)

lemma cmp_Greater_iff: "cmp x y = Greater \<longleftrightarrow> cmp y x = Less"
  by (cases "cmp x y") (simp_all add: cmp_reverse [of y x])

lemma cmp_le_cases: "cmp x y \<noteq> Greater \<longleftrightarrow> cmp x y = Less \<or> x = y"
  by (metis cmp_Equal ordering.exhaust ordering.distinct(3,5))

lemma le_refl: "cmp x x \<noteq> Greater"
  by (simp add: cmp_refl)

lemma le_trans: "cmp x y \<noteq> Greater \<Longrightarrow> cmp y z \<noteq> Greater \<Longrightarrow> cmp x z \<noteq> Greater"
  unfolding cmp_le_cases by (blast intro: cmp_trans)

lemma le_antisym: "cmp x y \<noteq> Greater \<Longrightarrow> cmp y x \<noteq> Greater \<Longrightarrow> x = y"
  unfolding cmp_Greater_iff [of y x] by (metis cmp_Greater_iff cmp_le_cases)

lemma le_linear: "cmp x y \<noteq> Greater \<or> cmp y x \<noteq> Greater"
  by (metis cmp_Greater_iff ordering.distinct(3))

lemma less_iff: "cmp x y = Less \<longleftrightarrow> cmp x y \<noteq> Greater \<and> \<not> cmp y x \<noteq> Greater"
  by (metis cmp_Greater_iff ordering.distinct(3))

end

interpretation std_ord: rust_ord "cmp_of :: 'a::linorder \<Rightarrow> 'a \<Rightarrow> ordering"
  by unfold_locales (auto simp: cmp_of_def split: if_splits)

text \<open>
  Building comparisons: an option whose \<open>None\<close> sorts last, the
  lexicographic pair, and the comparison of injective keys.
\<close>

fun cmp_none_last :: "('a \<Rightarrow> 'a \<Rightarrow> ordering) \<Rightarrow> 'a option \<Rightarrow> 'a option \<Rightarrow> ordering" where
  "cmp_none_last c None None = Equal"
| "cmp_none_last c None (Some _) = Greater"
| "cmp_none_last c (Some _) None = Less"
| "cmp_none_last c (Some x) (Some y) = c x y"

definition cmp_pair ::
  "('a \<Rightarrow> 'a \<Rightarrow> ordering) \<Rightarrow> ('b \<Rightarrow> 'b \<Rightarrow> ordering) \<Rightarrow> 'a \<times> 'b \<Rightarrow> 'a \<times> 'b \<Rightarrow> ordering" where
  "cmp_pair c d x y = then_cmp (c (fst x) (fst y)) (d (snd x) (snd y))"

lemma rust_ord_none_last:
  assumes "rust_ord c"
  shows "rust_ord (cmp_none_last c)"
proof
  fix x y z :: "'a option"
  show "cmp_none_last c x y = Equal \<longleftrightarrow> x = y"
    using rust_ord.cmp_Equal [OF assms] by (cases x; cases y) auto
  show "cmp_none_last c y x = reverse_ordering (cmp_none_last c x y)"
    by (cases x; cases y) (simp_all add: rust_ord.cmp_reverse [OF assms, symmetric])
  assume "cmp_none_last c x y = Less" "cmp_none_last c y z = Less"
  then show "cmp_none_last c x z = Less"
    by (cases x; cases y; cases z) (auto intro: rust_ord.cmp_trans [OF assms])
qed

lemma rust_ord_pair:
  assumes "rust_ord c" "rust_ord d"
  shows "rust_ord (cmp_pair c d)"
proof
  fix x y z :: "'a \<times> 'b"
  note eq = rust_ord.cmp_Equal [OF assms(1)] rust_ord.cmp_Equal [OF assms(2)]
  show "cmp_pair c d x y = Equal \<longleftrightarrow> x = y"
    by (auto simp: cmp_pair_def then_cmp_eq_iff eq prod_eq_iff)
  show "cmp_pair c d y x = reverse_ordering (cmp_pair c d x y)"
    unfolding cmp_pair_def rust_ord.cmp_reverse [OF assms(1), of "fst y"]
      rust_ord.cmp_reverse [OF assms(2), of "snd y"]
    by (cases "c (fst x) (fst y)") simp_all
  assume "cmp_pair c d x y = Less" "cmp_pair c d y z = Less"
  then show "cmp_pair c d x z = Less"
    using rust_ord.cmp_trans [OF assms(1), of "fst x" "fst y" "fst z"]
      rust_ord.cmp_trans [OF assms(2), of "snd x" "snd y" "snd z"]
    by (auto simp: cmp_pair_def then_cmp_eq_iff eq)
qed

lemma rust_ord_key:
  assumes "rust_ord c" "inj f"
  shows "rust_ord (\<lambda>x y. c (f x) (f y))"
proof
  fix x y z
  show "c (f x) (f y) = Equal \<longleftrightarrow> x = y"
    using assms by (simp add: rust_ord.cmp_Equal inj_eq)
  show "c (f y) (f x) = reverse_ordering (c (f x) (f y))"
    by (rule rust_ord.cmp_reverse [OF assms(1)])
  assume "c (f x) (f y) = Less" "c (f y) (f z) = Less"
  then show "c (f x) (f z) = Less"
    by (rule rust_ord.cmp_trans [OF assms(1)])
qed

lemmas rust_ord_intros = rust_ord_none_last rust_ord_pair std_ord.rust_ord_axioms

subsection \<open>ASCII classes\<close>

definition is_ascii_digit :: "char \<Rightarrow> bool" where
  "is_ascii_digit c \<longleftrightarrow> CHR ''0'' \<le> c \<and> c \<le> CHR ''9''"

definition is_ascii_lowercase :: "char \<Rightarrow> bool" where
  "is_ascii_lowercase c \<longleftrightarrow> CHR ''a'' \<le> c \<and> c \<le> CHR ''z''"

definition is_ascii_uppercase :: "char \<Rightarrow> bool" where
  "is_ascii_uppercase c \<longleftrightarrow> CHR ''A'' \<le> c \<and> c \<le> CHR ''Z''"

definition is_ascii_alphanumeric :: "char \<Rightarrow> bool" where
  "is_ascii_alphanumeric c \<longleftrightarrow> is_ascii_digit c \<or> is_ascii_lowercase c \<or> is_ascii_uppercase c"

definition is_ascii_hexdigit :: "char \<Rightarrow> bool" where
  "is_ascii_hexdigit c \<longleftrightarrow> is_ascii_digit c \<or> CHR ''a'' \<le> c \<and> c \<le> CHR ''f''
     \<or> CHR ''A'' \<le> c \<and> c \<le> CHR ''F''"

lemmas ascii_defs = is_ascii_digit_def is_ascii_lowercase_def is_ascii_uppercase_def
  is_ascii_alphanumeric_def is_ascii_hexdigit_def

text \<open>\<open>u8::to_ascii_lowercase\<close> and \<open>str::eq_ignore_ascii_case\<close>.\<close>

definition to_ascii_lowercase :: "char \<Rightarrow> char" where
  "to_ascii_lowercase c =
     (if is_ascii_uppercase c then char_of (of_char c + (32 :: nat)) else c)"

definition eq_ignore_ascii_case :: "string \<Rightarrow> string \<Rightarrow> bool" where
  "eq_ignore_ascii_case s t \<longleftrightarrow> map to_ascii_lowercase s = map to_ascii_lowercase t"

lemma digit_not_lower [simp]: "is_ascii_digit c \<Longrightarrow> \<not> is_ascii_lowercase c"
  unfolding ascii_defs less_eq_char_def by simp

lemma lower_not_digit: "is_ascii_lowercase c \<Longrightarrow> \<not> is_ascii_digit c"
  unfolding ascii_defs less_eq_char_def by simp

lemma ascii_class_literals [simp]:
  "\<not> is_ascii_digit CHR ''.''" "\<not> is_ascii_digit CHR ''-''" "\<not> is_ascii_digit CHR ''_''"
  "\<not> is_ascii_digit CHR ''+''" "is_ascii_digit CHR ''0''"
  "\<not> is_ascii_lowercase CHR ''.''" "\<not> is_ascii_lowercase CHR ''-''"
  "\<not> is_ascii_lowercase CHR ''_''" "\<not> is_ascii_lowercase CHR ''+''"
  "\<not> is_ascii_alphanumeric CHR ''.''" "\<not> is_ascii_alphanumeric CHR ''-''"
  "\<not> is_ascii_alphanumeric CHR ''_''" "\<not> is_ascii_alphanumeric CHR ''+''"
  by (simp_all add: ascii_defs)

lemma digit_alphanumeric [simp]: "is_ascii_digit c \<Longrightarrow> is_ascii_alphanumeric c"
  by (simp add: is_ascii_alphanumeric_def)

subsection \<open>The \<open>str\<close> methods\<close>

fun strip_prefix :: "string \<Rightarrow> string \<Rightarrow> string option" where
  "strip_prefix [] s = Some s"
| "strip_prefix (p # ps) [] = None"
| "strip_prefix (p # ps) (c # s) = (if p = c then strip_prefix ps s else None)"

definition strip_suffix :: "string \<Rightarrow> string \<Rightarrow> string option" where
  "strip_suffix p s = map_option rev (strip_prefix (rev p) (rev s))"

definition starts_with :: "string \<Rightarrow> string \<Rightarrow> bool" where
  "starts_with p s \<longleftrightarrow> strip_prefix p s \<noteq> None"

lemma strip_prefix_Some_iff [rust_str]: "strip_prefix p s = Some r \<longleftrightarrow> s = p @ r"
  by (induction p s rule: strip_prefix.induct) auto

lemma strip_prefix_append [simp]: "strip_prefix p (p @ r) = Some r"
  by (simp add: strip_prefix_Some_iff)

lemma strip_suffix_Some_iff [rust_str]: "strip_suffix p s = Some r \<longleftrightarrow> s = r @ p"
  by (auto simp: strip_suffix_def strip_prefix_Some_iff rev_swap)

lemma starts_with_iff [rust_str]: "starts_with p s \<longleftrightarrow> (\<exists>r. s = p @ r)"
  by (auto simp: starts_with_def strip_prefix_Some_iff)

text \<open>\<open>str::split_once(char)\<close>: around the first occurrence.\<close>

definition split_once :: "char \<Rightarrow> string \<Rightarrow> (string \<times> string) option" where
  "split_once c s = (case dropWhile (\<lambda>d. d \<noteq> c) s of
      [] \<Rightarrow> None
    | _ # r \<Rightarrow> Some (takeWhile (\<lambda>d. d \<noteq> c) s, r))"

lemma split_once_Some_iff [rust_str]:
  "split_once c s = Some (a, b) \<longleftrightarrow> s = a @ c # b \<and> c \<notin> set a"
proof
  assume "split_once c s = Some (a, b)"
  then obtain d where d: "dropWhile (\<lambda>d. d \<noteq> c) s = d # b" and a: "a = takeWhile (\<lambda>d. d \<noteq> c) s"
    by (auto simp: split_once_def split: list.splits)
  have "\<not> d \<noteq> c"
    using hd_dropWhile [of "\<lambda>d. d \<noteq> c" s] d by simp
  then show "s = a @ c # b \<and> c \<notin> set a"
    using takeWhile_dropWhile_id [of "\<lambda>d. d \<noteq> c" s] d a by (auto dest: set_takeWhileD)
next
  assume "s = a @ c # b \<and> c \<notin> set a"
  then show "split_once c s = Some (a, b)"
    by (auto simp: split_once_def takeWhile_append dropWhile_append)
qed

lemma split_once_None_iff [rust_str]: "split_once c s = None \<longleftrightarrow> c \<notin> set s"
proof -
  have "c \<in> set s \<longleftrightarrow> (\<exists>a b. split_once c s = Some (a, b))"
    unfolding split_once_Some_iff by (metis in_set_conv_decomp_first)
  then show ?thesis
    by (cases "split_once c s") auto
qed

text \<open>\<open>[String]::join\<close> and \<open>str::split(char)\<close>.\<close>

fun join_with :: "string \<Rightarrow> string list \<Rightarrow> string" where
  "join_with sep [] = []"
| "join_with sep [s] = s"
| "join_with sep (s # t # ts) = s @ sep @ join_with sep (t # ts)"

fun split_on :: "char \<Rightarrow> string \<Rightarrow> string list" where
  "split_on c [] = [[]]"
| "split_on c (d # s) =
     (if d = c then [] # split_on c s
      else case split_on c s of [] \<Rightarrow> [[d]] | t # ts \<Rightarrow> (d # t) # ts)"

lemma split_on_not_Nil [simp]: "split_on c s \<noteq> []"
  by (cases s) (auto split: list.splits)

subsection \<open>Decimal \<open>u32\<close> values\<close>

definition digit_char :: "nat \<Rightarrow> char" where
  "digit_char n = char_of (48 + n)"

definition digit_value :: "char \<Rightarrow> nat" where
  "digit_value c = of_char c - 48"

fun show_nat :: "nat \<Rightarrow> string" where
  "show_nat n = (if n < 10 then [digit_char n] else show_nat (n div 10) @ [digit_char (n mod 10)])"

declare show_nat.simps [simp del]

definition nat_of_digits :: "string \<Rightarrow> nat" where
  "nat_of_digits s = foldl (\<lambda>n c. 10 * n + digit_value c) 0 s"

text \<open>\<open>u32::to_string\<close>.\<close>

definition show_u32 :: "u32 \<Rightarrow> string" where
  "show_u32 w = show_nat (unat w)"

text \<open>\<open>str::parse::<u32>()\<close>: an optional \<open>+\<close>, at least one digit, no overflow.\<close>

definition parse_u32 :: "string \<Rightarrow> u32 option" where
  "parse_u32 s =
     (let ds = (case s of c # r \<Rightarrow> if c = CHR ''+'' then r else s | [] \<Rightarrow> s)
      in if ds = [] \<or> \<not> list_all is_ascii_digit ds then None
         else if nat_of_digits ds < 2 ^ 32 then Some (of_nat (nat_of_digits ds)) else None)"

lemma digit_char_digit [simp]: "n < 10 \<Longrightarrow> is_ascii_digit (digit_char n)"
  by (simp add: digit_char_def is_ascii_digit_def less_eq_char_def)

lemma digit_value_char [simp]: "n < 10 \<Longrightarrow> digit_value (digit_char n) = n"
  by (simp add: digit_char_def digit_value_def)

lemma digit_char_zero [simp]: "n < 10 \<Longrightarrow> digit_char n = CHR ''0'' \<longleftrightarrow> n = 0"
proof -
  assume n: "n < 10"
  have z: "digit_char 0 = CHR ''0''"
    by code_simp
  show ?thesis
    using digit_value_char [OF n] digit_value_char [of 0] by (auto simp flip: z)
qed

lemma show_nat_digits: "list_all is_ascii_digit (show_nat n)"
proof (induction n rule: show_nat.induct)
  case (1 n)
  then show ?case by (subst show_nat.simps) auto
qed

lemma show_nat_not_Nil [simp]: "show_nat n \<noteq> []"
  by (subst show_nat.simps) simp

lemma nat_of_digits_snoc: "nat_of_digits (s @ [c]) = 10 * nat_of_digits s + digit_value c"
  by (simp add: nat_of_digits_def)

lemma nat_of_digits_show_nat [simp]: "nat_of_digits (show_nat n) = n"
proof (induction n rule: show_nat.induct)
  case (1 n)
  show ?case
  proof (cases "n < 10")
    case True
    then show ?thesis by (subst show_nat.simps) (simp add: nat_of_digits_def)
  next
    case False
    with "1.IH" have "nat_of_digits (show_nat (n div 10)) = n div 10" by simp
    with False show ?thesis
      by (subst show_nat.simps) (simp add: nat_of_digits_snoc)
  qed
qed

text \<open>A printed number has no leading zero, unless it is \<open>0\<close> itself.\<close>

lemma hd_show_nat: "hd (show_nat n) = CHR ''0'' \<longleftrightarrow> n = 0"
proof (induction n rule: show_nat.induct)
  case (1 n)
  show ?case
  proof (cases "n < 10")
    case True
    then show ?thesis by (subst show_nat.simps) simp
  next
    case False
    with "1.IH" have "hd (show_nat (n div 10)) = CHR ''0'' \<longleftrightarrow> n div 10 = 0" by simp
    with False show ?thesis by (subst show_nat.simps) auto
  qed
qed

lemma show_nat_0: "show_nat 0 = ''0''"
  by code_simp

lemma show_u32_digits: "list_all is_ascii_digit (show_u32 w)"
  and show_u32_not_Nil [simp]: "show_u32 w \<noteq> []"
  by (simp_all add: show_u32_def show_nat_digits)

lemma parse_u32_digits:
  "s \<noteq> [] \<Longrightarrow> list_all is_ascii_digit s \<Longrightarrow>
     parse_u32 s = (if nat_of_digits s < 2 ^ 32 then Some (of_nat (nat_of_digits s)) else None)"
  by (cases s) (auto simp: parse_u32_def)

lemma parse_show_u32 [simp]: "parse_u32 (show_u32 w) = Some w"
proof -
  have "unat w < 2 ^ 32"
    using unsigned_less [of w] by simp
  then show ?thesis
    using parse_u32_digits [OF show_u32_not_Nil show_u32_digits, of w] by (simp add: show_u32_def)
qed

end
