(* ===== verification/Ocx_Collections.thy ===== *)
theory Ocx_Collections
  imports Ocx_Prelude
begin

section \<open>Ordered collections\<close>

text \<open>
  \<open>BTreeMap\<close> and \<open>BTreeSet\<close> of the Rust standard library. The sources use
  them for one thing beyond lookup: iteration in ascending key order. A map is
  therefore an association list with strictly ascending keys and a set a
  strictly ascending list, so that a \<open>for\<close> loop over the collection is
  recursion over the list. The interface the components rely on is the locale
  \<open>ordered_map\<close>; the association list interprets it.
\<close>

subsection \<open>The interface\<close>

locale ordered_map =
  fixes empty :: "'m"
    and insert :: "'k::linorder \<Rightarrow> 'v \<Rightarrow> 'm \<Rightarrow> 'm"
    and lookup :: "'m \<Rightarrow> 'k \<Rightarrow> 'v option"
    and keys :: "'m \<Rightarrow> 'k list"
    and invar :: "'m \<Rightarrow> bool"
  assumes lookup_empty: "lookup empty k = None"
    and lookup_insert: "invar m \<Longrightarrow> lookup (insert k v m) = (lookup m)(k \<mapsto> v)"
    and keys_dom: "invar m \<Longrightarrow> set (keys m) = dom (lookup m)"
    and keys_ascending: "invar m \<Longrightarrow> sorted_wrt (<) (keys m)"
    and invar_empty: "invar empty"
    and invar_insert: "invar m \<Longrightarrow> invar (insert k v m)"
begin

lemma invar_inserts: "invar m \<Longrightarrow> invar (foldl (\<lambda>m (k, v). insert k v m) m kvs)"
  by (induction kvs arbitrary: m) (auto simp: invar_insert)

text \<open>A run of insertions: the last write to a key is the one that is read.\<close>

lemma lookup_inserts:
  "invar m \<Longrightarrow>
     lookup (foldl (\<lambda>m (k, v). insert k v m) m kvs) = lookup m ++ map_of (rev kvs)"
proof (induction kvs rule: rev_induct)
  case Nil
  then show ?case by simp
next
  case (snoc kv kvs)
  then show ?case
    by (cases kv) (auto simp: lookup_insert invar_inserts map_add_def fun_eq_iff split: option.splits)
qed

lemma keys_inserts:
  assumes "invar m"
  shows "set (keys (foldl (\<lambda>m (k, v). insert k v m) m kvs)) = set (keys m) \<union> fst ` set kvs"
  using assms
  by (simp add: keys_dom invar_inserts lookup_inserts dom_map_of_conv_image_fst Un_commute)

end

subsection \<open>\<open>BTreeMap\<close>\<close>

type_synonym ('k, 'v) btree_map = "('k \<times> 'v) list"

fun bt_insert :: "'k::linorder \<Rightarrow> 'v \<Rightarrow> ('k, 'v) btree_map \<Rightarrow> ('k, 'v) btree_map" where
  "bt_insert k v [] = [(k, v)]"
| "bt_insert k v (e # m) =
     (case cmp_of k (fst e) of
        Less \<Rightarrow> (k, v) # e # m
      | Equal \<Rightarrow> (k, v) # m
      | Greater \<Rightarrow> e # bt_insert k v m)"

abbreviation bt_get :: "('k, 'v) btree_map \<Rightarrow> 'k \<Rightarrow> 'v option" where
  "bt_get \<equiv> map_of"

abbreviation bt_keys :: "('k, 'v) btree_map \<Rightarrow> 'k list" where
  "bt_keys m \<equiv> map fst m"

definition bt_ok :: "('k::linorder, 'v) btree_map \<Rightarrow> bool" where
  "bt_ok m \<longleftrightarrow> sorted_wrt (<) (bt_keys m)"

text \<open>\<open>entry(k).or_insert_with(|| v)\<close>: an existing binding stays.\<close>

definition bt_or_insert :: "'k::linorder \<Rightarrow> 'v \<Rightarrow> ('k, 'v) btree_map \<Rightarrow> ('k, 'v) btree_map" where
  "bt_or_insert k v m = (case bt_get m k of Some _ \<Rightarrow> m | None \<Rightarrow> bt_insert k v m)"

text \<open>\<open>iter.collect::<BTreeMap<_, _>>()\<close>: later pairs overwrite earlier ones.\<close>

definition bt_collect :: "('k::linorder \<times> 'v) list \<Rightarrow> ('k, 'v) btree_map" where
  "bt_collect kvs = foldl (\<lambda>m (k, v). bt_insert k v m) [] kvs"

lemma bt_get_insert [simp, btree]: "bt_get (bt_insert k v m) = (bt_get m)(k \<mapsto> v)"
  by (induction m) (auto simp: fun_eq_iff cmp_of_def)

lemma bt_insert_keys [simp]: "set (bt_keys (bt_insert k v m)) = insert k (set (bt_keys m))"
  by (induction m) (auto simp: cmp_of_def)

lemma bt_ok_Nil [simp]: "bt_ok []"
  by (simp add: bt_ok_def)

lemma bt_ok_Cons [simp]:
  "bt_ok (e # m) \<longleftrightarrow> (\<forall>k \<in> set (bt_keys m). fst e < k) \<and> bt_ok m"
  by (auto simp: bt_ok_def)

lemma bt_ok_insert [simp, intro]: "bt_ok m \<Longrightarrow> bt_ok (bt_insert k v m)"
proof (induction m)
  case Nil
  then show ?case by simp
next
  case (Cons e m)
  have "\<forall>x \<in> set (bt_keys (bt_insert k v m)). fst e < x" if "fst e < k"
    unfolding bt_insert_keys using Cons.prems that by auto
  with Cons show ?case
    by (auto simp: cmp_of_def intro: less_trans)
qed

lemma bt_ok_distinct: "bt_ok m \<Longrightarrow> distinct (bt_keys m)"
  by (simp add: bt_ok_def strict_sorted_iff)

lemma bt_keys_dom: "set (bt_keys m) = dom (bt_get m)"
  by (simp add: dom_map_of_conv_image_fst)

interpretation bt: ordered_map "[]" bt_insert bt_get bt_keys bt_ok
  by unfold_locales (auto simp: bt_keys_dom bt_ok_def [symmetric] simp del: set_map)

lemma bt_or_insert_get [simp, btree]:
  "bt_get (bt_or_insert k v m) = (case bt_get m k of Some _ \<Rightarrow> bt_get m | None \<Rightarrow> (bt_get m)(k \<mapsto> v))"
  by (auto simp: bt_or_insert_def split: option.splits)

lemma bt_or_insert_ok [simp, intro]: "bt_ok m \<Longrightarrow> bt_ok (bt_or_insert k v m)"
  by (auto simp: bt_or_insert_def split: option.splits)

lemma bt_or_insert_keys [simp]: "set (bt_keys (bt_or_insert k v m)) = insert k (set (bt_keys m))"
  by (auto simp: bt_or_insert_def bt_keys_dom dom_def simp del: set_map split: option.splits)

lemma bt_collect_get [btree]: "bt_get (bt_collect kvs) = map_of (rev kvs)"
  using bt.lookup_inserts [OF bt.invar_empty, of kvs] by (simp add: bt_collect_def)

lemma bt_collect_ok [simp]: "bt_ok (bt_collect kvs)"
  unfolding bt_collect_def by (rule bt.invar_inserts) simp

lemma bt_collect_keys [simp]: "set (bt_keys (bt_collect kvs)) = fst ` set kvs"
  using bt.keys_inserts [OF bt.invar_empty, of kvs] by (simp add: bt_collect_def)

text \<open>Two well-formed maps with the same bindings are the same map.\<close>

lemma bt_rebuild:
  assumes "bt_ok m"
  shows "map (\<lambda>k. (k, the (bt_get m k))) (bt_keys m) = m"
proof -
  have "(fst e, the (bt_get m (fst e))) = e" if "e \<in> set m" for e
    using bt_ok_distinct [OF assms] that by (cases e) simp
  then show ?thesis
    by (simp add: map_idI)
qed

lemma bt_ext:
  assumes "bt_ok m" "bt_ok m'" "bt_get m = bt_get m'"
  shows "m = m'"
proof -
  have "bt_keys m = bt_keys m'"
    using assms by (metis bt_keys_dom bt_ok_def strict_sorted_equal)
  then show ?thesis
    using assms bt_rebuild by metis
qed

subsection \<open>\<open>BTreeSet\<close>\<close>

type_synonym 'a btree_set = "'a list"

fun bs_insert :: "'a::linorder \<Rightarrow> 'a btree_set \<Rightarrow> 'a btree_set" where
  "bs_insert x [] = [x]"
| "bs_insert x (y # ys) =
     (case cmp_of x y of
        Less \<Rightarrow> x # y # ys
      | Equal \<Rightarrow> y # ys
      | Greater \<Rightarrow> y # bs_insert x ys)"

definition bs_collect :: "'a::linorder list \<Rightarrow> 'a btree_set" where
  "bs_collect xs = foldl (\<lambda>s x. bs_insert x s) [] xs"

abbreviation bs_ok :: "'a::linorder btree_set \<Rightarrow> bool" where
  "bs_ok \<equiv> sorted_wrt (<)"

lemma bs_insert_set [simp]: "set (bs_insert x s) = insert x (set s)"
  by (induction s) (auto simp: cmp_of_def)

lemma bs_insert_ok [simp, intro]: "bs_ok s \<Longrightarrow> bs_ok (bs_insert x s)"
  by (induction s) (auto simp: cmp_of_def intro: less_trans)

lemma bs_inserts_set: "set (foldl (\<lambda>s x. bs_insert x s) s xs) = set s \<union> set xs"
  by (induction xs arbitrary: s) auto

lemma bs_inserts_ok: "bs_ok s \<Longrightarrow> bs_ok (foldl (\<lambda>s x. bs_insert x s) s xs)"
  by (induction xs arbitrary: s) auto

lemma bs_collect_set [simp]: "set (bs_collect xs) = set xs"
  by (simp add: bs_collect_def bs_inserts_set)

lemma bs_collect_ok [simp]: "bs_ok (bs_collect xs)"
  by (simp add: bs_collect_def bs_inserts_ok)

lemma bs_ext: "bs_ok s \<Longrightarrow> bs_ok t \<Longrightarrow> set s = set t \<Longrightarrow> s = t"
  by (rule strict_sorted_equal)

lemma bs_collect_eq_iff: "bs_collect xs = bs_collect ys \<longleftrightarrow> set xs = set ys"
  by (metis bs_collect_ok bs_collect_set bs_ext)

subsection \<open>Nested loops over collections\<close>

lemma foldl_nested: "foldl (\<lambda>g x. foldl f g (h x)) g xs = foldl f g (concat (map h xs))"
  by (induction xs arbitrary: g) simp_all

lemma foldl_map: "foldl f g (map h xs) = foldl (\<lambda>g x. f g (h x)) g xs"
  by (induction xs arbitrary: g) simp_all

text \<open>The last write to a key in a loop over ascending items comes from the greatest item that writes it.\<close>

lemma last_write_ascending:
  fixes xs :: "'a::linorder list"
  assumes "sorted_wrt (<) xs"
  shows "map_of (rev (concat (map h xs))) k = Some y \<longleftrightarrow>
    (\<exists>x \<in> set xs. map_of (rev (h x)) k = Some y \<and> (\<forall>z \<in> set xs. x < z \<longrightarrow> map_of (rev (h z)) k = None))"
  using assms
proof (induction xs rule: rev_induct)
  case Nil
  then show ?case by simp
next
  case (snoc x xs)
  have below: "z < x" if "z \<in> set xs" for z
    using snoc.prems that by (simp add: sorted_wrt_append)
  have IH: "map_of (rev (concat (map h xs))) k = Some y \<longleftrightarrow>
    (\<exists>x \<in> set xs. map_of (rev (h x)) k = Some y \<and> (\<forall>z \<in> set xs. x < z \<longrightarrow> map_of (rev (h z)) k = None))"
    using snoc by (simp add: sorted_wrt_append)
  show ?case
  proof (cases "map_of (rev (h x)) k")
    case None
    then show ?thesis
      using IH below by (auto simp: map_add_def)
  next
    case (Some y')
    then show ?thesis
      using below by (auto simp: map_add_def dest: less_asym)
  qed
qed

lemma map_of_rev_distinct: "distinct (map fst xs) \<Longrightarrow> map_of (rev xs) = map_of xs"
  by (subst map_of_inject_set) (simp_all add: rev_map [symmetric])

lemma map_filter_ex: "y \<in> set (List.map_filter f xs) \<longleftrightarrow> (\<exists>x \<in> set xs. f x = Some y)"
  by (force simp: List.map_filter_def)

end
