(* ===== verification/Ocx_Regex.thy ===== *)
theory Ocx_Regex
  imports Ocx_Prelude
begin

section \<open>Anchored regular expressions with capture groups\<close>

text \<open>
  The part of the regular-expression syntax that the version pattern uses:
  character classes, sequence, alternation, repetition and numbered groups.
  \<open>rx_match r s caps\<close> says that the whole string \<open>s\<close> matches \<open>r\<close> with the
  group captures \<open>caps\<close>, in the order in which the groups close. It is the
  declarative reading of a pattern \<open>^...$\<close>; where only one capture assignment
  exists, the choice among alternatives that a matcher makes is immaterial.
\<close>

datatype rx =
    Eps
  | Cls "char \<Rightarrow> bool"
  | Seq rx rx
  | Alt rx rx
  | Star rx
  | Grp nat rx

abbreviation Chr :: "char \<Rightarrow> rx" where
  "Chr c \<equiv> Cls (\<lambda>d. d = c)"

definition Opt :: "rx \<Rightarrow> rx" where
  "Opt r = Alt r Eps"

definition Plus :: "rx \<Rightarrow> rx" where
  "Plus r = Seq r (Star r)"

inductive rx_match :: "rx \<Rightarrow> string \<Rightarrow> (nat \<times> string) list \<Rightarrow> bool" where
  Eps: "rx_match Eps [] []"
| Cls: "P c \<Longrightarrow> rx_match (Cls P) [c] []"
| Seq: "rx_match r s cs \<Longrightarrow> rx_match q t ds \<Longrightarrow> rx_match (Seq r q) (s @ t) (cs @ ds)"
| AltL: "rx_match r s cs \<Longrightarrow> rx_match (Alt r q) s cs"
| AltR: "rx_match q s cs \<Longrightarrow> rx_match (Alt r q) s cs"
| StarNil: "rx_match (Star r) [] []"
| StarCons: "rx_match r s cs \<Longrightarrow> rx_match (Star r) t ds \<Longrightarrow> rx_match (Star r) (s @ t) (cs @ ds)"
| Grp: "rx_match r s cs \<Longrightarrow> rx_match (Grp n r) s (cs @ [(n, s)])"

inductive_simps rx_match_Eps: "rx_match Eps s cs"
inductive_simps rx_match_Cls: "rx_match (Cls P) s cs"
inductive_simps rx_match_Seq: "rx_match (Seq r q) s cs"
inductive_simps rx_match_Alt: "rx_match (Alt r q) s cs"
inductive_simps rx_match_Grp: "rx_match (Grp n r) s cs"

lemma rx_match_Opt:
  "rx_match (Opt r) s cs \<longleftrightarrow> rx_match r s cs \<or> s = [] \<and> cs = []"
  by (auto simp: Opt_def rx_match_Alt rx_match_Eps)

text \<open>Repeating a character class reads a run of that class and captures nothing.\<close>

lemma rx_match_Star_Cls: "rx_match (Star (Cls P)) s cs \<longleftrightarrow> list_all P s \<and> cs = []"
proof
  have "rx_match r s cs \<Longrightarrow> r = Star (Cls P) \<Longrightarrow> list_all P s \<and> cs = []" for r
    by (induction rule: rx_match.induct) (auto simp: rx_match_Cls)
  then show "rx_match (Star (Cls P)) s cs \<Longrightarrow> list_all P s \<and> cs = []"
    by blast
next
  assume "list_all P s \<and> cs = []"
  then have "list_all P s" and "cs = []" by simp_all
  have "rx_match (Star (Cls P)) s []"
    using \<open>list_all P s\<close>
  proof (induction s)
    case Nil
    show ?case by (rule rx_match.StarNil)
  next
    case (Cons c s)
    have "rx_match (Star (Cls P)) ([c] @ s) ([] @ [])"
      using Cons by (intro rx_match.StarCons rx_match.Cls) simp_all
    then show ?case by simp
  qed
  with \<open>cs = []\<close> show "rx_match (Star (Cls P)) s cs" by simp
qed

lemma rx_match_Cls_Star:
  "rx_match (Seq (Cls P) (Star (Cls Q))) s cs \<longleftrightarrow>
     (\<exists>c t. s = c # t \<and> P c \<and> list_all Q t \<and> cs = [])"
proof
  assume "rx_match (Seq (Cls P) (Star (Cls Q))) s cs"
  then show "\<exists>c t. s = c # t \<and> P c \<and> list_all Q t \<and> cs = []"
    by (auto simp: rx_match_Seq rx_match_Cls rx_match_Star_Cls)
next
  assume "\<exists>c t. s = c # t \<and> P c \<and> list_all Q t \<and> cs = []"
  then obtain c t where "s = [c] @ t" "cs = [] @ []" "P c" "list_all Q t"
    by auto
  then show "rx_match (Seq (Cls P) (Star (Cls Q))) s cs"
    by (simp only:) (intro rx_match.Seq, simp_all add: rx_match_Cls rx_match_Star_Cls)
qed

lemma rx_match_Plus_Cls:
  "rx_match (Plus (Cls P)) s cs \<longleftrightarrow> s \<noteq> [] \<and> list_all P s \<and> cs = []"
  unfolding Plus_def rx_match_Cls_Star by (cases s) auto

lemmas rx_match_simps =
  rx_match_Cls_Star rx_match_Plus_Cls rx_match_Star_Cls rx_match_Opt
  rx_match_Eps rx_match_Cls rx_match_Alt rx_match_Grp

text \<open>\<open>Captures::get(i)\<close>: the last capture of group \<open>i\<close>, if it took part.\<close>

definition group :: "(nat \<times> string) list \<Rightarrow> nat \<Rightarrow> string option" where
  "group caps i = map_of (rev caps) i"

end
