(* ===== verification/Ocx_Version.thy ===== *)
theory Ocx_Version
  imports Ocx_Collections Ocx_Regex "HOL-Library.Monad_Syntax"
begin

section \<open>Versions\<close>

text \<open>
  \<open>crates/ocx_package/src/version.rs\<close>: the version type, its accessors, the
  parser, the printer and the order. A version is a path in a trie: a major
  number, and optionally a minor under it, a patch under that, and a build and
  a pre-release under that. The order lists a node after everything below it,
  and the default variant after every named one.

  \<open>Version\<close> is a datatype rather than a record because it carries type-class
  instances (\<open>linorder\<close>). The numbers are \<open>u32\<close>, that is 32-bit words.
\<close>

subsection \<open>The type and its accessors\<close>

type_synonym patch_rest = "string option \<times> string option"
type_synonym minor_rest = "(u32 \<times> patch_rest) option"

datatype version =
  Version (variant: "string option") (major: u32) (rest: "(u32 \<times> minor_rest) option")

definition new_major :: "u32 \<Rightarrow> version" where
  "new_major ma = Version None ma None"

definition new_minor :: "u32 \<Rightarrow> u32 \<Rightarrow> version" where
  "new_minor ma mi = Version None ma (Some (mi, None))"

definition new_patch :: "u32 \<Rightarrow> u32 \<Rightarrow> u32 \<Rightarrow> version" where
  "new_patch ma mi p = Version None ma (Some (mi, Some (p, (None, None))))"

definition new_build :: "u32 \<Rightarrow> u32 \<Rightarrow> u32 \<Rightarrow> string \<Rightarrow> version" where
  "new_build ma mi p b = Version None ma (Some (mi, Some (p, (Some b, None))))"

definition new_prerelease :: "u32 \<Rightarrow> u32 \<Rightarrow> u32 \<Rightarrow> string \<Rightarrow> version" where
  "new_prerelease ma mi p pre = Version None ma (Some (mi, Some (p, (None, Some pre))))"

definition new_prerelease_with_build :: "u32 \<Rightarrow> u32 \<Rightarrow> u32 \<Rightarrow> string \<Rightarrow> string \<Rightarrow> version" where
  "new_prerelease_with_build ma mi p pre b =
     Version None ma (Some (mi, Some (p, (Some b, Some pre))))"

definition parent :: "version \<Rightarrow> version option" where
  "parent v =
     (case rest v of
        Some (mi, r) \<Rightarrow>
          (case r of
             Some (p, (b, pre)) \<Rightarrow>
               (if b \<noteq> None then
                  Some (Version (variant v) (major v) (Some (mi, Some (p, (None, pre)))))
                else if pre \<noteq> None then
                  Some (Version (variant v) (major v) (Some (mi, Some (p, (None, None)))))
                else
                  Some (Version (variant v) (major v) (Some (mi, None))))
           | None \<Rightarrow> Some (Version (variant v) (major v) None))
      | None \<Rightarrow> None)"

definition minor :: "version \<Rightarrow> u32 option" where
  "minor v = (case rest v of Some (mi, _) \<Rightarrow> Some mi | None \<Rightarrow> None)"

definition has_minor :: "version \<Rightarrow> bool" where
  "has_minor v \<longleftrightarrow> (case rest v of Some (_, _) \<Rightarrow> True | None \<Rightarrow> False)"

definition patch :: "version \<Rightarrow> u32 option" where
  "patch v = (case rest v of Some (_, Some (p, _)) \<Rightarrow> Some p | _ \<Rightarrow> None)"

definition has_patch :: "version \<Rightarrow> bool" where
  "has_patch v \<longleftrightarrow> (case rest v of Some (_, Some (_, _)) \<Rightarrow> True | _ \<Rightarrow> False)"

definition build :: "version \<Rightarrow> string option" where
  "build v = (case rest v of Some (_, Some (_, (Some b, _))) \<Rightarrow> Some b | _ \<Rightarrow> None)"

definition has_build :: "version \<Rightarrow> bool" where
  "has_build v \<longleftrightarrow> (case rest v of Some (_, Some (_, (Some _, _))) \<Rightarrow> True | _ \<Rightarrow> False)"

definition prerelease :: "version \<Rightarrow> string option" where
  "prerelease v = (case rest v of Some (_, Some (_, (_, Some pre))) \<Rightarrow> Some pre | _ \<Rightarrow> None)"

definition has_prerelease :: "version \<Rightarrow> bool" where
  "has_prerelease v \<longleftrightarrow> (case rest v of Some (_, Some (_, (_, Some _))) \<Rightarrow> True | _ \<Rightarrow> False)"

definition is_rolling :: "version \<Rightarrow> bool" where
  "is_rolling v \<longleftrightarrow> \<not> (case rest v of Some (_, Some (_, (Some _, _))) \<Rightarrow> True | _ \<Rightarrow> False)"

definition has_variant :: "version \<Rightarrow> bool" where
  "has_variant v \<longleftrightarrow> variant v \<noteq> None"

definition with_variant :: "version \<Rightarrow> string \<Rightarrow> version" where
  "with_variant v name = Version (Some name) (major v) (rest v)"

definition without_variant :: "version \<Rightarrow> version" where
  "without_variant v = Version None (major v) (rest v)"

lemmas accessor_defs = minor_def has_minor_def patch_def has_patch_def build_def has_build_def
  prerelease_def has_prerelease_def is_rolling_def has_variant_def

lemma has_iff_get:
  "has_minor v \<longleftrightarrow> minor v \<noteq> None" "has_patch v \<longleftrightarrow> patch v \<noteq> None"
  "has_build v \<longleftrightarrow> build v \<noteq> None" "has_prerelease v \<longleftrightarrow> prerelease v \<noteq> None"
  "is_rolling v \<longleftrightarrow> \<not> has_build v"
  by (auto simp: accessor_defs split: option.splits prod.splits)

text \<open>A part never exists without its parent.\<close>

lemma part_needs_parent:
  "has_patch v \<Longrightarrow> has_minor v" "has_build v \<Longrightarrow> has_patch v" "has_prerelease v \<Longrightarrow> has_patch v"
  by (auto simp: accessor_defs split: option.splits prod.splits)

subsection \<open>Printing\<close>

definition version_to_string :: "version \<Rightarrow> string" where
  "version_to_string v =
     (case variant v of Some name \<Rightarrow> name @ ''-'' | None \<Rightarrow> [])
     @ show_u32 (major v)
     @ (case rest v of
          None \<Rightarrow> []
        | Some (mi, r) \<Rightarrow> ''.'' @ show_u32 mi
            @ (case r of
                 None \<Rightarrow> []
               | Some (p, (b, pre)) \<Rightarrow> ''.'' @ show_u32 p
                   @ (case pre of Some s \<Rightarrow> ''-'' @ s | None \<Rightarrow> [])
                   @ (case b of Some s \<Rightarrow> ''_'' @ s | None \<Rightarrow> [])))"

text \<open>\<open>Version::with_build\<close> and its errors (\<open>version/build_meta.rs\<close>).\<close>

datatype build_meta_error = NoPatch string | AlreadyPresent string

definition with_build :: "version \<Rightarrow> string \<Rightarrow> (build_meta_error, version) result" where
  "with_build v b =
     (if \<not> has_patch v then Inl (NoPatch (version_to_string v))
      else if has_build v then Inl (AlreadyPresent (version_to_string v))
      else case rest v of
             Some (mi, Some (p, (_, pre))) \<Rightarrow>
               Inr (Version (variant v) (major v) (Some (mi, Some (p, (Some b, pre)))))
           | _ \<Rightarrow> Inl (NoPatch (version_to_string v)))"

subsection \<open>Order\<close>

definition cmp_suffix :: "patch_rest \<Rightarrow> patch_rest \<Rightarrow> ordering" where
  "cmp_suffix lhs rhs =
     then_cmp
       (case (snd lhs, snd rhs) of
          (Some lhs_prerelease, Some rhs_prerelease) \<Rightarrow> cmp_of lhs_prerelease rhs_prerelease
        | (Some _, None) \<Rightarrow> Less
        | (None, Some _) \<Rightarrow> Greater
        | (None, None) \<Rightarrow> Equal)
       (case (fst lhs, fst rhs) of
          (Some lhs_build, Some rhs_build) \<Rightarrow> cmp_of lhs_build rhs_build
        | (Some _, None) \<Rightarrow> Less
        | (None, Some _) \<Rightarrow> Greater
        | (None, None) \<Rightarrow> Equal)"

definition cmp_numbers :: "version \<Rightarrow> version \<Rightarrow> ordering" where
  "cmp_numbers lhs rhs =
     then_cmp (cmp_of (major lhs) (major rhs))
       (case rest lhs of
          None \<Rightarrow> (if rest rhs \<noteq> None then Greater else Equal)
        | Some (lhs_minor, lhs_rest) \<Rightarrow>
            (case rest rhs of
               None \<Rightarrow> Less
             | Some (rhs_minor, rhs_rest) \<Rightarrow>
                 then_cmp (cmp_of lhs_minor rhs_minor)
                   (case lhs_rest of
                      None \<Rightarrow> (if patch rhs \<noteq> None then Greater else Equal)
                    | Some (lhs_patch, lhs_suffix) \<Rightarrow>
                        (case rhs_rest of
                           None \<Rightarrow> Less
                         | Some (rhs_patch, rhs_suffix) \<Rightarrow>
                             then_cmp (cmp_of lhs_patch rhs_patch)
                               (cmp_suffix lhs_suffix rhs_suffix)))))"

definition version_cmp :: "version \<Rightarrow> version \<Rightarrow> ordering" where
  "version_cmp lhs rhs =
     then_cmp
       (case (variant lhs, variant rhs) of
          (None, None) \<Rightarrow> Equal
        | (None, Some _) \<Rightarrow> Greater
        | (Some _, None) \<Rightarrow> Less
        | (Some a, Some b) \<Rightarrow> cmp_of a b)
       (cmp_numbers lhs rhs)"

text \<open>
  The comparison is the lexicographic one on a key that moves the pre-release
  before the build, with every missing part sorting last.
\<close>

definition version_key ::
  "version \<Rightarrow> string option \<times> u32 \<times> (u32 \<times> (u32 \<times> string option \<times> string option) option) option" where
  "version_key v =
     (variant v, major v,
      map_option (apsnd (map_option (apsnd (\<lambda>(b, pre). (pre, b))))) (rest v))"

definition cmp_keys ::
  "string option \<times> u32 \<times> (u32 \<times> (u32 \<times> string option \<times> string option) option) option \<Rightarrow>
   string option \<times> u32 \<times> (u32 \<times> (u32 \<times> string option \<times> string option) option) option \<Rightarrow> ordering" where
  "cmp_keys =
     cmp_pair (cmp_none_last cmp_of)
      (cmp_pair cmp_of
        (cmp_none_last (cmp_pair cmp_of
          (cmp_none_last (cmp_pair cmp_of
            (cmp_pair (cmp_none_last cmp_of) (cmp_none_last cmp_of)))))))"

lemma inj_version_key: "inj version_key"
proof (rule injI)
  fix v w
  assume "version_key v = version_key w"
  then show "v = w"
    by (cases v; cases w) (auto simp: version_key_def map_option_case split: option.splits)
qed

lemma version_cmp_keys: "version_cmp v w = cmp_keys (version_key v) (version_key w)"
  by (cases v; cases w)
    (auto simp: version_cmp_def cmp_numbers_def cmp_suffix_def cmp_keys_def cmp_pair_def
      version_key_def patch_def split: option.splits prod.splits)

interpretation version_ord: rust_ord version_cmp
proof -
  have "rust_ord cmp_keys"
    unfolding cmp_keys_def by (intro rust_ord_intros)
  then have "rust_ord (\<lambda>v w. cmp_keys (version_key v) (version_key w))"
    using inj_version_key by (rule rust_ord_key)
  then show "rust_ord version_cmp"
    by (simp add: version_cmp_keys [abs_def])
qed

instantiation version :: linorder
begin

definition less_eq_version :: "version \<Rightarrow> version \<Rightarrow> bool" where
  "less_eq_version v w \<longleftrightarrow> version_cmp v w \<noteq> Greater"

definition less_version :: "version \<Rightarrow> version \<Rightarrow> bool" where
  "less_version v w \<longleftrightarrow> version_cmp v w = Less"

instance
proof
  fix u v w :: version
  show "u < v \<longleftrightarrow> u \<le> v \<and> \<not> v \<le> u"
    unfolding less_version_def less_eq_version_def by (rule version_ord.less_iff)
  show "u \<le> u"
    unfolding less_eq_version_def by (rule version_ord.le_refl)
  show "u \<le> v \<Longrightarrow> v \<le> w \<Longrightarrow> u \<le> w"
    unfolding less_eq_version_def by (rule version_ord.le_trans)
  show "u \<le> v \<Longrightarrow> v \<le> u \<Longrightarrow> u = v"
    unfolding less_eq_version_def by (rule version_ord.le_antisym)
  show "u \<le> v \<or> v \<le> u"
    unfolding less_eq_version_def by (rule version_ord.le_linear)
qed

end

text \<open>Dropping the most specific part of a version moves it up in the order.\<close>

lemma parent_greater: "parent v = Some p \<Longrightarrow> v < p"
proof -
  assume p: "parent v = Some p"
  obtain va ma r where v: "v = Version va ma r" by (cases v)
  with p obtain mi q where r: "r = Some (mi, q)"
    by (auto simp: parent_def split: option.splits)
  show "v < p"
  proof (cases q)
    case None
    with p show ?thesis
      by (auto simp: v r parent_def less_version_def version_cmp_def cmp_numbers_def split: option.split)
  next
    case (Some x)
    obtain n b pre where x: "x = (n, b, pre)" by (cases x)
    from p show ?thesis
      by (cases b; cases pre; cases va)
        (auto simp: v r Some x parent_def less_version_def version_cmp_def cmp_numbers_def cmp_suffix_def patch_def)
  qed
qed

subsection \<open>The version pattern\<close>

text \<open>
  The pattern of \<open>Version::parse\<close>, group by group:
  \<^verbatim>\<open>^(([a-z][a-z0-9.]*)-)?(0|[1-9][0-9]*)(\.(0|[1-9][0-9]*)(\.(0|[1-9][0-9]*)
   (-([0-9a-zA-Z]+))?([_+]([0-9a-zA-Z]+))?)?)?$\<close>
\<close>

definition variant_char :: "char \<Rightarrow> bool" where
  "variant_char c \<longleftrightarrow> is_ascii_lowercase c \<or> is_ascii_digit c \<or> c = CHR ''.''"

definition nonzero_digit :: "char \<Rightarrow> bool" where
  "nonzero_digit c \<longleftrightarrow> CHR ''1'' \<le> c \<and> c \<le> CHR ''9''"

definition number_rx :: rx where
  "number_rx = Alt (Chr CHR ''0'') (Seq (Cls nonzero_digit) (Star (Cls is_ascii_digit)))"

definition variant_rx :: rx where
  "variant_rx =
     Opt (Grp 1 (Seq (Grp 2 (Seq (Cls is_ascii_lowercase) (Star (Cls variant_char)))) (Chr CHR ''-'')))"

definition prerelease_rx :: rx where
  "prerelease_rx = Opt (Grp 8 (Seq (Chr CHR ''-'') (Grp 9 (Plus (Cls is_ascii_alphanumeric)))))"

definition build_rx :: rx where
  "build_rx =
     Opt (Grp 10 (Seq (Cls (\<lambda>c. c = CHR ''_'' \<or> c = CHR ''+''))
       (Grp 11 (Plus (Cls is_ascii_alphanumeric)))))"

definition patch_rx :: rx where
  "patch_rx =
     Opt (Grp 6 (Seq (Chr CHR ''.'') (Seq (Grp 7 number_rx) (Seq prerelease_rx build_rx))))"

definition minor_rx :: rx where
  "minor_rx = Opt (Grp 4 (Seq (Chr CHR ''.'') (Seq (Grp 5 number_rx) patch_rx)))"

definition version_rx :: rx where
  "version_rx = Seq variant_rx (Seq (Grp 3 number_rx) minor_rx)"

text \<open>
  The same pattern read left to right. Every class is followed by characters
  outside it, so one pass without backtracking finds the only capture list.
\<close>

definition scan_variant :: "string \<Rightarrow> ((nat \<times> string) list \<times> string) option" where
  "scan_variant s =
     (case s of
        [] \<Rightarrow> Some ([], [])
      | c # _ \<Rightarrow>
          if is_ascii_lowercase c then
            (let name = takeWhile variant_char s
             in case dropWhile variant_char s of
                  [] \<Rightarrow> None
                | d # r \<Rightarrow>
                    if d = CHR ''-'' then Some ([(2, name), (1, name @ ''-'')], r) else None)
          else Some ([], s))"

definition scan_number :: "string \<Rightarrow> (string \<times> string) option" where
  "scan_number s =
     (case s of
        [] \<Rightarrow> None
      | c # r \<Rightarrow>
          if c = CHR ''0'' then Some (''0'', r)
          else if nonzero_digit c then
            Some (c # takeWhile is_ascii_digit r, dropWhile is_ascii_digit r)
          else None)"

definition scan_suffix ::
  "nat \<Rightarrow> nat \<Rightarrow> (char \<Rightarrow> bool) \<Rightarrow> string \<Rightarrow> ((nat \<times> string) list \<times> string) option" where
  "scan_suffix outer inner sep s =
     (case s of
        [] \<Rightarrow> Some ([], [])
      | c # r \<Rightarrow>
          if sep c then
            (let w = takeWhile is_ascii_alphanumeric r
             in if w = [] then None
                else Some ([(inner, w), (outer, c # w)], dropWhile is_ascii_alphanumeric r))
          else Some ([], s))"

definition scan_patch :: "string \<Rightarrow> (nat \<times> string) list option" where
  "scan_patch s =
     (case s of
        [] \<Rightarrow> Some []
      | c # r \<Rightarrow>
          if c = CHR ''.'' then
            do { (p, r) \<leftarrow> scan_number r;
                 (pre, r) \<leftarrow> scan_suffix 8 9 (\<lambda>c. c = CHR ''-'') r;
                 (b, r) \<leftarrow> scan_suffix 10 11 (\<lambda>c. c = CHR ''_'' \<or> c = CHR ''+'') r;
                 if r = [] then Some ([(7, p)] @ pre @ b @ [(6, s)]) else None }
          else None)"

definition scan_minor :: "string \<Rightarrow> (nat \<times> string) list option" where
  "scan_minor s =
     (case s of
        [] \<Rightarrow> Some []
      | c # r \<Rightarrow>
          if c = CHR ''.'' then
            do { (mi, r) \<leftarrow> scan_number r;
                 cs \<leftarrow> scan_patch r;
                 Some ([(5, mi)] @ cs @ [(4, s)]) }
          else None)"

definition version_captures :: "string \<Rightarrow> (nat \<times> string) list option" where
  "version_captures s =
     do { (cv, r) \<leftarrow> scan_variant s;
          (ma, r) \<leftarrow> scan_number r;
          cs \<leftarrow> scan_minor r;
          Some (cv @ [(3, ma)] @ cs) }"

subsubsection \<open>The scanner finds exactly the match of the pattern\<close>

definition is_number :: "string \<Rightarrow> bool" where
  "is_number s \<longleftrightarrow> s = ''0'' \<or> (\<exists>c t. s = c # t \<and> nonzero_digit c \<and> list_all is_ascii_digit t)"

definition stops :: "(char \<Rightarrow> bool) \<Rightarrow> string \<Rightarrow> bool" where
  "stops P s \<longleftrightarrow> (case s of [] \<Rightarrow> True | c # _ \<Rightarrow> \<not> P c)"

lemma stops_simps [simp]: "stops P []" "stops P (c # s) \<longleftrightarrow> \<not> P c"
  by (simp_all add: stops_def)

lemma nonzero_digit_digit [simp]: "nonzero_digit c \<Longrightarrow> is_ascii_digit c"
  by (auto simp: nonzero_digit_def is_ascii_digit_def less_eq_char_def)

lemma nonzero_digit_literals [simp]: "\<not> nonzero_digit CHR ''0''"
  by (simp add: nonzero_digit_def)

lemma digit_cases: "is_ascii_digit c \<Longrightarrow> c = CHR ''0'' \<or> nonzero_digit c"
proof -
  assume "is_ascii_digit c"
  then have "(48 :: nat) \<le> of_char c" "of_char c \<le> (57 :: nat)"
    by (simp_all add: is_ascii_digit_def less_eq_char_def)
  moreover have "c = CHR ''0''" if "of_char c = (48 :: nat)"
  proof -
    have "of_char c = (of_char CHR ''0'' :: nat)"
      using that by simp
    then show ?thesis by (simp only: of_char_eq_iff)
  qed
  ultimately show ?thesis
    by (cases "of_char c = (48 :: nat)") (auto simp: nonzero_digit_def less_eq_char_def)
qed

lemma takeWhile_run:
  "list_all P w \<Longrightarrow> stops P r \<Longrightarrow> takeWhile P (w @ r) = w"
  "list_all P w \<Longrightarrow> stops P r \<Longrightarrow> dropWhile P (w @ r) = r"
  by (induction w; cases r; simp)+

lemma takeWhile_all [simp]: "list_all P (takeWhile P s)"
  by (induction s) auto

lemma scan_number_match: "is_number n \<Longrightarrow> stops is_ascii_digit r \<Longrightarrow> scan_number (n @ r) = Some (n, r)"
  by (auto simp: is_number_def scan_number_def takeWhile_run)

lemma scan_number_Some: "scan_number s = Some (n, r) \<Longrightarrow> s = n @ r \<and> is_number n"
  by (auto simp: is_number_def scan_number_def split: list.splits if_splits)

lemma rx_match_number: "rx_match (Grp n number_rx) s cs \<longleftrightarrow> is_number s \<and> cs = [(n, s)]"
  by (auto simp: number_rx_def is_number_def rx_match_simps)

lemma rx_match_suffix:
  "rx_match (Opt (Grp outer (Seq (Cls sep) (Grp inner (Plus (Cls is_ascii_alphanumeric)))))) s cs \<longleftrightarrow>
     s = [] \<and> cs = [] \<or>
     (\<exists>c w. s = c # w \<and> sep c \<and> w \<noteq> [] \<and> list_all is_ascii_alphanumeric w \<and>
        cs = [(inner, w), (outer, s)])"
  unfolding rx_match_Opt rx_match_Grp rx_match_Seq [of "Cls sep"] rx_match_Cls rx_match_Plus_Cls
  by auto

lemma scan_suffix_skip: "stops sep r \<Longrightarrow> scan_suffix outer inner sep r = Some ([], r)"
  by (cases r) (auto simp: scan_suffix_def)

lemma scan_suffix_take:
  "sep c \<Longrightarrow> w \<noteq> [] \<Longrightarrow> list_all is_ascii_alphanumeric w \<Longrightarrow> stops is_ascii_alphanumeric r \<Longrightarrow>
     scan_suffix outer inner sep (c # w @ r) = Some ([(inner, w), (outer, c # w)], r)"
  by (auto simp: scan_suffix_def takeWhile_run)

lemma scan_suffix_Some:
  assumes "scan_suffix outer inner sep s = Some (cs, r)"
  shows "\<exists>t. s = t @ r \<and>
       rx_match (Opt (Grp outer (Seq (Cls sep) (Grp inner (Plus (Cls is_ascii_alphanumeric)))))) t cs"
proof (cases "\<exists>c t. s = c # t \<and> sep c")
  case True
  then obtain c t where s: "s = c # t" "sep c" by blast
  let ?w = "takeWhile is_ascii_alphanumeric t"
  from assms s have "?w \<noteq> []" "r = dropWhile is_ascii_alphanumeric t"
    "cs = [(inner, ?w), (outer, c # ?w)]"
    by (auto simp: scan_suffix_def Let_def split: if_splits)
  with s show ?thesis
    unfolding rx_match_suffix by (intro exI [of _ "c # ?w"]) simp
next
  case False
  with assms have "s = [] @ r" "cs = []"
    by (auto simp: scan_suffix_def split: list.splits if_splits)
  then show ?thesis
    unfolding rx_match_suffix by blast
qed

lemma rx_match_Chr_Seq:
  "rx_match (Seq (Chr c) r) s cs \<longleftrightarrow> (\<exists>t. s = c # t \<and> rx_match r t cs)"
  by (auto simp: rx_match_Seq rx_match_Cls) (metis append_Cons append_Nil)

lemma rx_match_number_Seq:
  "rx_match (Seq (Grp n number_rx) r) s cs \<longleftrightarrow>
     (\<exists>m t ds. s = m @ t \<and> is_number m \<and> rx_match r t ds \<and> cs = (n, m) # ds)"
proof
  assume "rx_match (Seq (Grp n number_rx) r) s cs"
  then show "\<exists>m t ds. s = m @ t \<and> is_number m \<and> rx_match r t ds \<and> cs = (n, m) # ds"
    by (auto simp: rx_match_Seq [of "Grp n number_rx"] rx_match_number)
next
  have "rx_match (Seq (Grp n number_rx) r) (m @ t) ([(n, m)] @ ds)"
    if "is_number m" "rx_match r t ds" for m t ds
    using that by (intro rx_match.Seq) (simp_all add: rx_match_number)
  moreover assume "\<exists>m t ds. s = m @ t \<and> is_number m \<and> rx_match r t ds \<and> cs = (n, m) # ds"
  ultimately show "rx_match (Seq (Grp n number_rx) r) s cs"
    by auto
qed

lemma rx_match_patch:
  "rx_match patch_rx s cs \<longleftrightarrow>
     s = [] \<and> cs = [] \<or>
     (\<exists>p a b ca cb. s = CHR ''.'' # p @ a @ b \<and> is_number p \<and> rx_match prerelease_rx a ca \<and>
        rx_match build_rx b cb \<and> cs = [(7, p)] @ ca @ cb @ [(6, s)])"
proof -
  have "rx_match (Seq prerelease_rx build_rx) t ds \<longleftrightarrow>
      (\<exists>a b ca cb. t = a @ b \<and> ds = ca @ cb \<and> rx_match prerelease_rx a ca \<and> rx_match build_rx b cb)"
    for t ds
    unfolding rx_match_Seq by blast
  then show ?thesis
    unfolding patch_rx_def rx_match_Opt rx_match_Grp rx_match_Chr_Seq rx_match_number_Seq
    by (simp only:) force
qed

lemma rx_match_minor:
  "rx_match minor_rx s cs \<longleftrightarrow>
     s = [] \<and> cs = [] \<or>
     (\<exists>m t ct. s = CHR ''.'' # m @ t \<and> is_number m \<and> rx_match patch_rx t ct \<and>
        cs = [(5, m)] @ ct @ [(4, s)])"
  unfolding minor_rx_def rx_match_Opt rx_match_Grp rx_match_Chr_Seq rx_match_number_Seq
  by auto

lemma rx_match_variant:
  "rx_match variant_rx s cs \<longleftrightarrow>
     s = [] \<and> cs = [] \<or>
     (\<exists>c t. s = c # t @ ''-'' \<and> is_ascii_lowercase c \<and> list_all variant_char t \<and>
        cs = [(2, c # t), (1, s)])"
  unfolding variant_rx_def rx_match_Opt rx_match_Grp rx_match_Cls_Star
    rx_match_Seq [of "Grp 2 _"] rx_match_Cls
  by auto

lemma scan_patch_iff: "scan_patch s = Some cs \<longleftrightarrow> rx_match patch_rx s cs"
proof
  assume "scan_patch s = Some cs"
  then show "rx_match patch_rx s cs"
    unfolding rx_match_patch prerelease_rx_def build_rx_def
    by (auto simp: scan_patch_def bind_eq_Some_conv split: list.splits if_splits
        dest!: scan_number_Some scan_suffix_Some) blast
next
  assume "rx_match patch_rx s cs"
  then consider "s = []" "cs = []"
    | p a b ca cb where "s = CHR ''.'' # p @ a @ b" "is_number p" "rx_match prerelease_rx a ca"
        "rx_match build_rx b cb" "cs = [(7, p)] @ ca @ cb @ [(6, s)]"
    unfolding rx_match_patch by blast
  then show "scan_patch s = Some cs"
  proof cases
    case 1
    then show ?thesis by (simp add: scan_patch_def)
  next
    case (2 p a b ca cb)
    have b: "scan_suffix 10 11 (\<lambda>c. c = CHR ''_'' \<or> c = CHR ''+'') b = Some (cb, [])"
      and stops_b: "stops is_ascii_alphanumeric b" "stops (\<lambda>c. c = CHR ''-'') b" "stops is_ascii_digit b"
      using 2(4) unfolding build_rx_def rx_match_suffix
      by (auto simp: scan_suffix_skip scan_suffix_take [where r = "[]", simplified])
    have a: "scan_suffix 8 9 (\<lambda>c. c = CHR ''-'') (a @ b) = Some (ca, b)"
      and stops_a: "stops is_ascii_digit (a @ b)"
      using 2(3) stops_b unfolding prerelease_rx_def rx_match_suffix
      by (auto simp: scan_suffix_skip scan_suffix_take)
    show ?thesis
      using 2 a b scan_number_match [OF 2(2) stops_a] by (simp add: scan_patch_def)
  qed
qed

lemma stops_patch: "rx_match patch_rx s cs \<Longrightarrow> stops is_ascii_digit s"
  by (auto simp: rx_match_patch)

lemma stops_minor: "rx_match minor_rx s cs \<Longrightarrow> stops is_ascii_digit s"
  by (auto simp: rx_match_minor)

lemma scan_minor_iff: "scan_minor s = Some cs \<longleftrightarrow> rx_match minor_rx s cs"
  unfolding rx_match_minor
  by (auto simp: scan_minor_def scan_patch_iff bind_eq_Some_conv scan_number_match stops_patch
      split: list.splits if_splits dest!: scan_number_Some)

lemma number_not_lower: "is_number n \<Longrightarrow> n \<noteq> [] \<and> \<not> is_ascii_lowercase (hd n)"
  unfolding is_number_def by (elim disjE exE conjE) simp_all

lemma scan_variant_match:
  assumes "rx_match variant_rx v cv" "is_number n"
  shows "scan_variant (v @ n @ r) = Some (cv, n @ r)"
proof -
  have "scan_variant (n @ r) = Some ([], n @ r)"
    using number_not_lower [OF assms(2)] by (cases n) (simp_all add: scan_variant_def)
  moreover have "scan_variant ((c # t @ ''-'') @ n @ r) = Some ([(2, c # t), (1, c # t @ ''-'')], n @ r)"
    if "is_ascii_lowercase c" "list_all variant_char t" for c t
  proof -
    have run: "list_all variant_char (c # t)" "stops variant_char (''-'' @ n @ r)"
      using that by (simp_all add: variant_char_def)
    from takeWhile_run [OF run] that(1) show ?thesis
      by (simp add: scan_variant_def variant_char_def)
  qed
  ultimately show ?thesis
    using assms(1) unfolding rx_match_variant by auto
qed

lemma scan_variant_Some:
  assumes "scan_variant s = Some (cv, r)"
  shows "\<exists>v. s = v @ r \<and> rx_match variant_rx v cv"
proof (cases "\<exists>c t. s = c # t \<and> is_ascii_lowercase c")
  case True
  then obtain c t where s: "s = c # t" and c: "is_ascii_lowercase c" by blast
  let ?name = "takeWhile variant_char t"
  from assms s c have d: "dropWhile variant_char t = CHR ''-'' # r"
    and cv: "cv = [(2, c # ?name), (1, c # ?name @ ''-'')]"
    by (auto simp: scan_variant_def variant_char_def Let_def split: list.splits if_splits)
  have "s = (c # ?name @ ''-'') @ r"
    using takeWhile_dropWhile_id [of variant_char t] d s by simp
  with c cv show ?thesis
    unfolding rx_match_variant by (intro exI [of _ "c # ?name @ ''-''"]) simp
next
  case False
  with assms have "s = [] @ r" "cv = []"
    by (auto simp: scan_variant_def split: list.splits if_splits)
  then show ?thesis
    unfolding rx_match_variant by blast
qed

lemma version_captures_match: "version_captures s = Some caps \<longleftrightarrow> rx_match version_rx s caps"
proof
  assume "version_captures s = Some caps"
  then obtain cv r ma r' cs where sc: "scan_variant s = Some (cv, r)" "scan_number r = Some (ma, r')"
    "scan_minor r' = Some cs" and caps: "caps = cv @ [(3, ma)] @ cs"
    by (auto simp: version_captures_def bind_eq_Some_conv)
  from scan_variant_Some [OF sc(1)] obtain v where v: "s = v @ r" "rx_match variant_rx v cv"
    by blast
  have "rx_match (Seq (Grp 3 number_rx) minor_rx) r ([(3, ma)] @ cs)"
    using scan_number_Some [OF sc(2)] sc(3) unfolding rx_match_number_Seq scan_minor_iff by auto
  with v caps show "rx_match version_rx s caps"
    unfolding version_rx_def by (auto intro: rx_match.Seq)
next
  assume "rx_match version_rx s caps"
  then obtain v cv n t ct where "s = v @ n @ t" "caps = cv @ [(3, n)] @ ct"
    "rx_match variant_rx v cv" "is_number n" "rx_match minor_rx t ct"
    unfolding version_rx_def rx_match_Seq [of variant_rx] rx_match_number_Seq by auto
  moreover from this have "scan_minor t = Some ct"
    by (simp add: scan_minor_iff)
  ultimately show "version_captures s = Some caps"
    by (simp add: version_captures_def scan_variant_match scan_number_match stops_minor)
qed

subsection \<open>Parsing\<close>

text \<open>
  \<open>Version::parse\<close>. Group 3 always takes part in a match
  (\<open>captures_groups\<close> below), so the \<open>expect\<close> on it never panics; the
  \<open>None\<close> branch for it is unreachable. A minor or patch number that does not
  fit \<open>u32\<close> ends the version at the level above it.
\<close>

definition parse_version :: "string \<Rightarrow> version option" where
  "parse_version s =
     (case version_captures s of
        None \<Rightarrow> None
      | Some caps \<Rightarrow>
          (let name = group caps 2
           in if name = Some ''latest'' then None
              else case Option.bind (group caps 3) parse_u32 of
                None \<Rightarrow> None
              | Some ma \<Rightarrow>
                  (case group caps 5 of
                     None \<Rightarrow> Some (Version name ma None)
                   | Some g5 \<Rightarrow>
                       if g5 = [] then Some (Version name ma None)
                       else case parse_u32 g5 of
                         None \<Rightarrow> Some (Version name ma None)
                       | Some mi \<Rightarrow>
                           (case group caps 7 of
                              None \<Rightarrow> Some (Version name ma (Some (mi, None)))
                            | Some g7 \<Rightarrow>
                                if g7 = [] then Some (Version name ma (Some (mi, None)))
                                else case parse_u32 g7 of
                                  None \<Rightarrow> Some (Version name ma (Some (mi, None)))
                                | Some p \<Rightarrow>
                                    Some (Version name ma
                                      (Some (mi, Some (p, (group caps 11, group caps 9)))))))))"

text \<open>\<open>TryFrom<&str>\<close>, which deserialization goes through.\<close>

datatype version_error = VersionInvalid string

definition version_try_from :: "string \<Rightarrow> (version_error, version) result" where
  "version_try_from s = (case parse_version s of Some v \<Rightarrow> Inr v | None \<Rightarrow> Inl (VersionInvalid s))"

text \<open>\<open>variant_names\<close>: the distinct variants of a tag listing, sorted.\<close>

definition variant_names :: "string list \<Rightarrow> string list" where
  "variant_names tags =
     bs_collect (List.map_filter variant (List.map_filter parse_version tags))"

subsubsection \<open>Well-formed versions and the round trip\<close>

definition variant_name_ok :: "string \<Rightarrow> bool" where
  "variant_name_ok n \<longleftrightarrow> (case n of [] \<Rightarrow> False | c # t \<Rightarrow> is_ascii_lowercase c \<and> list_all variant_char t)"

definition ident_ok :: "string \<Rightarrow> bool" where
  "ident_ok s \<longleftrightarrow> s \<noteq> [] \<and> list_all is_ascii_alphanumeric s"

definition version_ok :: "version \<Rightarrow> bool" where
  "version_ok v \<longleftrightarrow>
     pred_option (\<lambda>n. variant_name_ok n \<and> n \<noteq> ''latest'') (variant v) \<and>
     pred_option ident_ok (build v) \<and> pred_option ident_ok (prerelease v)"

lemma is_number_show_u32: "is_number (show_u32 w)"
proof (cases "unat w = 0")
  case True
  then show ?thesis by (simp add: show_u32_def show_nat_0 is_number_def)
next
  case False
  obtain c t where ct: "show_u32 w = c # t"
    using show_u32_not_Nil [of w] by (cases "show_u32 w") auto
  with False have "c \<noteq> CHR ''0''"
    using hd_show_nat [of "unat w"] by (auto simp: show_u32_def)
  with ct show ?thesis
    using show_u32_digits [of w] digit_cases [of c] by (simp add: is_number_def)
qed

lemma captures_groups:
  assumes "version_captures s = Some caps"
  shows "pred_option variant_name_ok (group caps 2)" "\<exists>m. group caps 3 = Some m \<and> is_number m"
    "pred_option is_number (group caps 5)" "pred_option is_number (group caps 7)"
    "pred_option ident_ok (group caps 9)" "pred_option ident_ok (group caps 11)"
proof -
  have *: "rx_match version_rx s caps"
    using assms by (simp add: version_captures_match)
  show "pred_option variant_name_ok (group caps 2)" "\<exists>m. group caps 3 = Some m \<and> is_number m"
    "pred_option is_number (group caps 5)" "pred_option is_number (group caps 7)"
    "pred_option ident_ok (group caps 9)" "pred_option ident_ok (group caps 11)"
    using *
    unfolding version_rx_def rx_match_Seq [of variant_rx] rx_match_number_Seq rx_match_variant
      rx_match_minor rx_match_patch prerelease_rx_def build_rx_def rx_match_suffix
    by (auto simp: group_def variant_name_ok_def ident_ok_def map_of_append)
qed

lemma parse_version_cases:
  assumes "parse_version s = Some v"
  obtains caps name m where "version_captures s = Some caps" "group caps 2 = name"
    "name \<noteq> Some ''latest''" "group caps 3 = Some m" "variant v = name" "parse_u32 m = Some (major v)"
    "build v = None \<or> build v = group caps 11" "prerelease v = None \<or> prerelease v = group caps 9"
proof -
  from assms obtain caps where caps: "version_captures s = Some caps"
    by (auto simp: parse_version_def split: option.splits)
  with assms that [of caps] show thesis
    by (auto simp: parse_version_def Let_def accessor_defs bind_eq_Some_conv
        split: option.splits if_splits)
qed

lemma parse_version_ok: "parse_version s = Some v \<Longrightarrow> version_ok v"
proof (elim parse_version_cases)
  fix caps name m
  assume caps: "version_captures s = Some caps" and rest: "group caps 2 = name"
    "name \<noteq> Some ''latest''" "variant v = name"
    "build v = None \<or> build v = group caps 11" "prerelease v = None \<or> prerelease v = group caps 9"
  from captures_groups(1,5,6) [OF caps] rest show "version_ok v"
    by (auto simp: version_ok_def pred_option_def)
qed

definition suffix_caps :: "nat \<Rightarrow> nat \<Rightarrow> char \<Rightarrow> string option \<Rightarrow> (nat \<times> string) list" where
  "suffix_caps outer inner sep w = (case w of None \<Rightarrow> [] | Some w \<Rightarrow> [(inner, w), (outer, sep # w)])"

lemma rx_match_suffix_string:
  assumes "pred_option ident_ok w" "sep c"
  shows "rx_match (Opt (Grp outer (Seq (Cls sep) (Grp inner (Plus (Cls is_ascii_alphanumeric))))))
     (case w of Some s \<Rightarrow> [c] @ s | None \<Rightarrow> []) (suffix_caps outer inner c w)"
  unfolding rx_match_suffix using assms
  by (cases w) (auto simp: suffix_caps_def ident_ok_def)

text \<open>The captures of a printed version, level by level.\<close>

definition patch_string :: "minor_rest \<Rightarrow> string" where
  "patch_string r = (case r of
      None \<Rightarrow> []
    | Some (p, (b, pre)) \<Rightarrow> ''.'' @ show_u32 p
        @ (case pre of Some s \<Rightarrow> ''-'' @ s | None \<Rightarrow> [])
        @ (case b of Some s \<Rightarrow> ''_'' @ s | None \<Rightarrow> []))"

definition patch_caps :: "minor_rest \<Rightarrow> (nat \<times> string) list" where
  "patch_caps r = (case r of
      None \<Rightarrow> []
    | Some (p, (b, pre)) \<Rightarrow> [(7, show_u32 p)] @ suffix_caps 8 9 CHR ''-'' pre
        @ suffix_caps 10 11 CHR ''_'' b @ [(6, patch_string r)])"

definition minor_caps :: "(u32 \<times> minor_rest) option \<Rightarrow> (nat \<times> string) list" where
  "minor_caps r = (case r of
      None \<Rightarrow> []
    | Some (mi, q) \<Rightarrow> [(5, show_u32 mi)] @ patch_caps q
        @ [(4, ''.'' @ show_u32 mi @ patch_string q)])"

definition variant_caps :: "string option \<Rightarrow> (nat \<times> string) list" where
  "variant_caps n = (case n of None \<Rightarrow> [] | Some n \<Rightarrow> [(2, n), (1, n @ ''-'')])"

lemma rx_match_patch_string:
  assumes "\<And>p b pre. r = Some (p, (b, pre)) \<Longrightarrow> pred_option ident_ok b \<and> pred_option ident_ok pre"
  shows "rx_match patch_rx (patch_string r) (patch_caps r)"
proof (cases r)
  case None
  then show ?thesis by (simp add: rx_match_patch patch_string_def patch_caps_def)
next
  case (Some q)
  obtain p b pre where q: "q = (p, (b, pre))"
    by (cases q) auto
  have "rx_match prerelease_rx (case pre of Some s \<Rightarrow> [CHR ''-''] @ s | None \<Rightarrow> [])
      (suffix_caps 8 9 CHR ''-'' pre)"
    and "rx_match build_rx (case b of Some s \<Rightarrow> [CHR ''_''] @ s | None \<Rightarrow> [])
      (suffix_caps 10 11 CHR ''_'' b)"
    unfolding prerelease_rx_def build_rx_def using assms Some q
    by (intro rx_match_suffix_string; simp)+
  with Some q show ?thesis
    unfolding rx_match_patch patch_string_def patch_caps_def
    using is_number_show_u32 [of p] by fastforce
qed

lemma rx_match_to_string:
  assumes "version_ok v"
  shows "rx_match version_rx (version_to_string v)
    (variant_caps (variant v) @ [(3, show_u32 (major v))] @ minor_caps (rest v))"
proof -
  have "rx_match variant_rx (case variant v of Some name \<Rightarrow> name @ ''-'' | None \<Rightarrow> [])
      (variant_caps (variant v))"
  proof (cases "variant v")
    case None
    then show ?thesis by (simp add: rx_match_variant variant_caps_def)
  next
    case (Some name)
    with assms show ?thesis
      by (cases name) (simp_all add: version_ok_def variant_name_ok_def rx_match_variant variant_caps_def)
  qed
  moreover have "rx_match patch_rx (patch_string q) (patch_caps q)" if "rest v = Some (mi, q)" for mi q
    by (rule rx_match_patch_string)
      (use assms that in \<open>auto simp: version_ok_def build_def prerelease_def split: option.splits\<close>)
  then have "rx_match minor_rx (case rest v of None \<Rightarrow> [] | Some (mi, q) \<Rightarrow> ''.'' @ show_u32 mi @ patch_string q)
      (minor_caps (rest v))"
    unfolding rx_match_minor using is_number_show_u32
    by (fastforce simp: minor_caps_def split: option.splits prod.splits)
  then have "rx_match (Seq (Grp 3 number_rx) minor_rx)
      (show_u32 (major v) @ (case rest v of None \<Rightarrow> [] | Some (mi, q) \<Rightarrow> ''.'' @ show_u32 mi @ patch_string q))
      ([(3, show_u32 (major v))] @ minor_caps (rest v))"
    unfolding rx_match_number_Seq using is_number_show_u32 by fastforce
  ultimately show ?thesis
    unfolding version_rx_def version_to_string_def patch_string_def by (rule rx_match.Seq)
qed

lemma group_append: "group (a @ b) i = (case group b i of None \<Rightarrow> group a i | Some x \<Rightarrow> Some x)"
  by (simp add: group_def map_add_def split: option.split)

lemma group_single: "group [] i = None" "group (c # cs) i = (case group cs i of
    None \<Rightarrow> if fst c = i then Some (snd c) else None | Some x \<Rightarrow> Some x)"
  by (cases c; simp add: group_def map_add_def split: option.split)+

lemma group_variant_caps:
  "group (variant_caps n) 2 = n" "i \<noteq> 1 \<Longrightarrow> i \<noteq> 2 \<Longrightarrow> group (variant_caps n) i = None"
  by (cases n; simp add: variant_caps_def group_single)+

lemma group_suffix_caps:
  "inner \<noteq> outer \<Longrightarrow> group (suffix_caps outer inner c w) inner = w"
  "i \<noteq> inner \<Longrightarrow> i \<noteq> outer \<Longrightarrow> group (suffix_caps outer inner c w) i = None"
  by (cases w; simp add: suffix_caps_def group_single)+

lemma group_patch_caps:
  "group (patch_caps None) i = None"
  "group (patch_caps (Some (p, (b, pre)))) 7 = Some (show_u32 p)"
  "group (patch_caps (Some (p, (b, pre)))) 9 = pre"
  "group (patch_caps (Some (p, (b, pre)))) 11 = b"
  "i < 6 \<Longrightarrow> group (patch_caps r) i = None"
  by (simp_all add: patch_caps_def group_append group_single group_suffix_caps split: option.split)

lemma group_minor_caps:
  "group (minor_caps None) i = None"
  "group (minor_caps (Some (mi, q))) 5 = Some (show_u32 mi)"
  "5 < i \<Longrightarrow> group (minor_caps (Some (mi, q))) i = group (patch_caps q) i"
  "i < 4 \<Longrightarrow> group (minor_caps r) i = None"
  by (simp_all add: minor_caps_def group_append group_single group_patch_caps split: option.split)

lemma captures_to_string:
  assumes "version_ok v"
  obtains caps where "version_captures (version_to_string v) = Some caps"
    "group caps 2 = variant v" "group caps 3 = Some (show_u32 (major v))"
    "group caps 5 = map_option show_u32 (minor v)" "group caps 7 = map_option show_u32 (patch v)"
    "group caps 9 = prerelease v" "group caps 11 = build v"
proof -
  let ?caps = "variant_caps (variant v) @ [(3, show_u32 (major v))] @ minor_caps (rest v)"
  have "version_captures (version_to_string v) = Some ?caps"
    unfolding version_captures_match by (rule rx_match_to_string [OF assms])
  moreover have "group ?caps 2 = variant v" "group ?caps 3 = Some (show_u32 (major v))"
    by (simp_all add: group_append group_single group_variant_caps group_minor_caps)
  moreover have "group ?caps i = group (minor_caps (rest v)) i" if "3 < i" for i
    using that by (simp add: group_append group_single group_variant_caps split: option.split)
  moreover have "group (minor_caps (rest v)) 5 = map_option show_u32 (minor v)
      \<and> group (minor_caps (rest v)) 7 = map_option show_u32 (patch v)
      \<and> group (minor_caps (rest v)) 9 = prerelease v \<and> group (minor_caps (rest v)) 11 = build v"
  proof (cases "rest v")
    case None
    then show ?thesis
      by (simp add: group_minor_caps minor_def patch_def prerelease_def build_def)
  next
    case (Some r)
    obtain mi q where r: "r = (mi, q)" by (cases r)
    show ?thesis
      by (cases q)
        (auto simp: Some r group_minor_caps group_patch_caps minor_def patch_def prerelease_def
          build_def split: option.split)
  qed
  ultimately show thesis
    by (intro that [of ?caps]) simp_all
qed

lemma parse_to_string:
  assumes "version_ok v"
  shows "parse_version (version_to_string v) = Some v"
proof -
  obtain caps where caps: "version_captures (version_to_string v) = Some caps"
    and groups: "group caps 2 = variant v" "group caps 3 = Some (show_u32 (major v))"
    "group caps 5 = map_option show_u32 (minor v)" "group caps 7 = map_option show_u32 (patch v)"
    "group caps 9 = prerelease v" "group caps 11 = build v"
    using captures_to_string [OF assms] .
  have "variant v \<noteq> Some ''latest''"
    using assms by (auto simp: version_ok_def)
  then show ?thesis
    unfolding parse_version_def caps
    by (cases v)
      (auto simp: groups Let_def minor_def patch_def build_def prerelease_def
        split: option.splits prod.splits)
qed

text \<open>A number that \<open>u32\<close> cannot hold ends the version above it.\<close>

lemma dotted_captures:
  assumes "is_number a" "is_number b" "is_number c"
  shows "version_captures (a @ ''.'' @ b @ ''.'' @ c)
    = Some [(3, a), (5, b), (7, c), (6, ''.'' @ c), (4, ''.'' @ b @ ''.'' @ c)]"
proof -
  have "rx_match variant_rx [] []"
    by (simp add: rx_match_variant)
  from scan_variant_match [OF this assms(1)]
  have "scan_variant (a @ ''.'' @ b @ ''.'' @ c) = Some ([], a @ ''.'' @ b @ ''.'' @ c)"
    by simp
  moreover have "scan_number (c @ []) = Some (c, [])"
    using assms(3) by (rule scan_number_match) simp
  ultimately show ?thesis
    using assms
    by (simp add: version_captures_def scan_number_match scan_minor_def scan_patch_def scan_suffix_skip)
qed

lemma number_not_Nil: "is_number n \<Longrightarrow> n \<noteq> []"
  using number_not_lower by blast

subsection \<open>Properties\<close>


text \<open>
  C5: The versions that survive printing and parsing are exactly the
  well-formed ones, and parsing only ever returns well-formed versions: every
  tag text that is a version has one canonical spelling, which parses back to
  the same version.
\<close>

theorem version_round_trip:
  "(version_ok v \<longleftrightarrow> parse_version (version_to_string v) = Some v) \<and>
   (version_ok v \<longleftrightarrow> (\<exists>s. version_try_from s = Inr v))"
proof -
  have "version_try_from s = Inr v \<longleftrightarrow> parse_version s = Some v" for s
    by (simp add: version_try_from_def split: option.split)
  then show ?thesis
    using parse_to_string parse_version_ok by blast
qed

text \<open>
  C6: \<open>Version::cmp\<close> is a total order: comparing the other way round reverses
  the verdict, only a version compares equal to itself, and the order is
  transitive. A parent (the next less specific version) is greater than the
  version it was derived from.
\<close>

theorem version_total_order:
  "version_cmp w v = reverse_ordering (version_cmp v w) \<and>
   (version_cmp v w = Equal \<longleftrightarrow> v = w) \<and>
   (version_cmp u v \<noteq> Greater \<and> version_cmp v w \<noteq> Greater \<longrightarrow> version_cmp u w \<noteq> Greater) \<and>
   pred_option (\<lambda>p. version_cmp v p = Less) (parent v)"
proof (intro conjI)
  show "pred_option (\<lambda>p. version_cmp v p = Less) (parent v)"
    using parent_greater [of v] by (cases "parent v") (auto simp: less_version_def)
  show "version_cmp w v = reverse_ordering (version_cmp v w)"
    by (rule version_ord.cmp_reverse)
qed (use version_ord.cmp_Equal version_ord.le_trans in blast)+

theorem version_total_order_witness:
  "version_cmp (new_patch 1 2 3) (new_minor 1 2) \<noteq> Greater \<and> version_cmp (new_minor 1 2) (new_major 1) \<noteq> Greater \<and>
   version_cmp (new_patch 1 2 3) (new_major 1) \<noteq> Greater"
proof -
  have "version_cmp (new_patch 1 2 3) (new_minor 1 2) \<noteq> Greater"
    "version_cmp (new_minor 1 2) (new_major 1) \<noteq> Greater"
    by code_simp+
  then show ?thesis
    using version_total_order [of "new_major 1" "new_minor 1 2" "new_patch 1 2 3"] by blast
qed

text \<open>
  C10: Parsing treats numbers that do not fit \<open>u32\<close> unevenly. A major that
  overflows makes the text no version at all, while a minor or a patch that
  overflows is dropped with everything after it: the text then parses as the
  rolling version above it.
\<close>

theorem version_overflow_truncates:
  assumes "is_number a" "is_number b" "is_number c"
  shows "parse_version (a @ ''.'' @ b @ ''.'' @ c) =
    (case (parse_u32 a, parse_u32 b, parse_u32 c) of
       (None, _) \<Rightarrow> None
     | (Some ma, None, _) \<Rightarrow> Some (new_major ma)
     | (Some ma, Some mi, None) \<Rightarrow> Some (new_minor ma mi)
     | (Some ma, Some mi, Some p) \<Rightarrow> Some (new_patch ma mi p))"
  unfolding parse_version_def dotted_captures [OF assms]
  using assms number_not_Nil
  by (simp add: group_def Let_def new_major_def new_minor_def new_patch_def split: option.split)

theorem version_overflow_truncates_witness:
  "is_number ''1'' \<and> is_number ''0'' \<and> is_number ''20260101123045'' \<and>
   parse_version (''1'' @ ''.'' @ ''0'' @ ''.'' @ ''20260101123045'') = Some (new_minor 1 0)"
proof -
  have *: "is_number ''1''" "is_number ''0''" "is_number ''20260101123045''"
    by (simp_all add: is_number_def nonzero_digit_def ascii_defs)
  have "parse_u32 ''1'' = Some 1" "parse_u32 ''0'' = Some 0" "parse_u32 ''20260101123045'' = None"
    by code_simp+
  with version_overflow_truncates [OF *] * show ?thesis
    by simp
qed

end
