(* ===== verification/Ocx_Tag.thy ===== *)
theory Ocx_Tag
  imports Ocx_Version
begin

section \<open>Digests and tags\<close>

text \<open>
  \<open>crates/ocx_oci/src/digest.rs\<close> (algorithms, digests, their text form),
  \<open>crates/ocx_oci/src/tag.rs\<close> (the tag names a registry holds that are not
  package versions) and \<open>crates/ocx_package/src/tag.rs\<close> (the classification of
  every tag). Hashing itself is not modelled: no theorem depends on what a hash
  function returns.
\<close>

subsection \<open>Digests\<close>

datatype algorithm = Sha256 | Sha384 | Sha512

definition algorithm_all :: "algorithm list" where
  "algorithm_all = [Sha256, Sha384, Sha512]"

fun algorithm_prefix :: "algorithm \<Rightarrow> string" where
  "algorithm_prefix Sha256 = ''sha256''"
| "algorithm_prefix Sha384 = ''sha384''"
| "algorithm_prefix Sha512 = ''sha512''"

fun hex_len :: "algorithm \<Rightarrow> nat" where
  "hex_len Sha256 = 64"
| "hex_len Sha384 = 96"
| "hex_len Sha512 = 128"

text \<open>
  The enum \<open>Digest\<close> has one constructor per algorithm, each holding the hex
  text; the pair form here names the same values.
\<close>

datatype digest = Digest (digest_algorithm: algorithm) (digest_hex: string)

definition digest_parts :: "digest \<Rightarrow> string \<times> string" where
  "digest_parts d = (algorithm_prefix (digest_algorithm d), digest_hex d)"

definition digest_to_string :: "digest \<Rightarrow> string" where
  "digest_to_string d = (case digest_parts d of (a, h) \<Rightarrow> a @ '':'' @ h)"

text \<open>The display forms; slicing a text that is too short panics (\<open>None\<close>).\<close>

definition digest_short_len :: nat where
  "digest_short_len = 12"

definition short_hex :: "digest \<Rightarrow> string option" where
  "short_hex d =
     (if digest_short_len \<le> length (digest_hex d) then Some (take digest_short_len (digest_hex d)) else None)"

definition to_short_string :: "digest \<Rightarrow> string option" where
  "to_short_string d =
     (case digest_parts d of (a, h) \<Rightarrow>
        if digest_short_len \<le> length h then Some (a @ '':'' @ take digest_short_len h) else None)"

datatype digest_error = DigestInvalid string

text \<open>\<open>TryFrom<&str> for Digest\<close>: the loop over the algorithms.\<close>

fun digest_try_algorithms :: "string \<Rightarrow> algorithm list \<Rightarrow> (digest_error, digest) result" where
  "digest_try_algorithms value [] = Inl (DigestInvalid value)"
| "digest_try_algorithms value (a # as) =
     (case Option.bind (strip_prefix (algorithm_prefix a) value) (strip_prefix '':'') of
        Some hex \<Rightarrow>
          (if length hex \<noteq> hex_len a \<or> \<not> list_all is_ascii_hexdigit hex
           then Inl (DigestInvalid value)
           else Inr (Digest a (map to_ascii_lowercase hex)))
      | None \<Rightarrow> digest_try_algorithms value as)"

definition digest_try_from :: "string \<Rightarrow> (digest_error, digest) result" where
  "digest_try_from value = digest_try_algorithms value algorithm_all"

text \<open>What every digest that came out of the parser satisfies.\<close>

definition is_lower_hex :: "char \<Rightarrow> bool" where
  "is_lower_hex c \<longleftrightarrow> is_ascii_hexdigit c \<and> to_ascii_lowercase c = c"

definition digest_ok :: "digest \<Rightarrow> bool" where
  "digest_ok d \<longleftrightarrow> length (digest_hex d) = hex_len (digest_algorithm d) \<and> list_all is_lower_hex (digest_hex d)"

lemma algorithm_prefix_disjoint:
  "strip_prefix (algorithm_prefix a) (algorithm_prefix b @ s) = (if a = b then Some s else None)"
  by (cases a; cases b) simp_all

lemma hexdigit_lower:
  assumes "is_ascii_hexdigit c"
  shows "is_lower_hex (to_ascii_lowercase c)"
proof (cases "is_ascii_uppercase c")
  case False
  then show ?thesis
    using assms by (simp add: is_lower_hex_def to_ascii_lowercase_def)
next
  case True
  with assms have "of_char c \<in> {65, 66, 67, 68, 69, 70 :: nat}"
    by (auto simp: ascii_defs less_eq_char_def)
  then show ?thesis
    using True
    by (auto simp: is_lower_hex_def to_ascii_lowercase_def ascii_defs less_eq_char_def)
qed

lemma lower_hex_hexdigit: "is_lower_hex c \<Longrightarrow> is_ascii_hexdigit c"
  by (simp add: is_lower_hex_def)

lemma map_lower_hex: "list_all is_lower_hex h \<Longrightarrow> map to_ascii_lowercase h = h"
  by (induction h) (auto simp: is_lower_hex_def)

lemma digest_try_algorithms_Inr:
  "digest_try_algorithms value as = Inr d \<Longrightarrow> digest_ok d"
proof (induction as)
  case Nil
  then show ?case by simp
next
  case (Cons a as)
  then show ?case
    by (auto simp: digest_ok_def list_all_length hexdigit_lower split: option.splits if_splits)
qed

lemma digest_try_from_ok: "digest_try_from s = Inr d \<Longrightarrow> digest_ok d"
  unfolding digest_try_from_def by (rule digest_try_algorithms_Inr)

lemma digest_round_trip_ok:
  assumes "digest_ok d"
  shows "digest_try_from (digest_to_string d) = Inr d"
proof -
  obtain a h where d: "d = Digest a h" by (cases d)
  have hex: "list_all is_ascii_hexdigit h"
    using assms d by (auto simp: digest_ok_def list_all_iff lower_hex_hexdigit)
  have "map to_ascii_lowercase h = h" "length h = hex_len a"
    using assms d by (simp_all add: digest_ok_def map_lower_hex)
  with hex show ?thesis
    by (cases a) (simp_all add: d digest_try_from_def algorithm_all_def digest_to_string_def digest_parts_def)
qed

subsection \<open>The tag vocabulary of a registry\<close>

definition reserved_internal_prefix :: string where
  "reserved_internal_prefix = ''__ocx''"

definition keep_tag_prefix :: string where
  "keep_tag_prefix = ''__ocx.keep.''"

datatype internal_tag =
    Description
  | PatchTag
  | Keep algorithm string
  | Unknown string

definition is_internal_namespace :: "string \<Rightarrow> bool" where
  "is_internal_namespace tag \<longleftrightarrow>
     length reserved_internal_prefix \<le> length tag \<and>
     eq_ignore_ascii_case (take (length reserved_internal_prefix) tag) reserved_internal_prefix"

fun parse_keep_algorithms :: "string \<Rightarrow> char \<Rightarrow> algorithm list \<Rightarrow> (algorithm \<times> string) option" where
  "parse_keep_algorithms value sep [] = None"
| "parse_keep_algorithms value sep (a # as) =
     (case Option.bind (strip_prefix (algorithm_prefix a) value) (strip_prefix [sep]) of
        Some hex \<Rightarrow>
          (if length hex = hex_len a \<and> list_all is_ascii_hexdigit hex then Some (a, hex)
           else parse_keep_algorithms value sep as)
      | None \<Rightarrow> parse_keep_algorithms value sep as)"

definition parse_keep :: "string \<Rightarrow> char \<Rightarrow> (algorithm \<times> string) option" where
  "parse_keep value sep = parse_keep_algorithms value sep algorithm_all"

definition internal_from_tag :: "string \<Rightarrow> internal_tag" where
  "internal_from_tag value =
     (if value = ''__ocx.desc'' then Description
      else if value = ''__ocx.patch'' then PatchTag
      else case Option.bind (strip_prefix keep_tag_prefix value) (\<lambda>body. parse_keep body CHR ''-'') of
             None \<Rightarrow> Unknown value
           | Some (a, hex) \<Rightarrow> Keep a hex)"

fun internal_to_string :: "internal_tag \<Rightarrow> string" where
  "internal_to_string Description = ''__ocx.desc''"
| "internal_to_string PatchTag = ''__ocx.patch''"
| "internal_to_string (Keep a hex) = keep_tag_prefix @ algorithm_prefix a @ ''-'' @ hex"
| "internal_to_string (Unknown tag) = tag"

definition referrer_fallback_encoded_len :: nat where
  "referrer_fallback_encoded_len = 64"

definition referrer_fallback_tag :: "digest \<Rightarrow> string" where
  "referrer_fallback_tag d =
     (case digest_parts d of (a, hex) \<Rightarrow> a @ ''-'' @ take referrer_fallback_encoded_len hex)"

definition sidecar_suffixes :: "string list" where
  "sidecar_suffixes = [''.sig'', ''.att'', ''.sbom'']"

definition sidecar_tag :: "digest \<Rightarrow> string \<Rightarrow> string" where
  "sidecar_tag subject suf = referrer_fallback_tag subject @ suf"

definition sbom_sidecar_tag :: "digest \<Rightarrow> string" where
  "sbom_sidecar_tag subject = sidecar_tag subject ''.sbom''"

text \<open>The base that \<open>is_referrer_fallback_tag\<close> takes the algorithm and the hex text from.\<close>

definition strip_sidecar :: "string \<Rightarrow> string" where
  "strip_sidecar value =
     (case strip_suffix ''.sig'' value of Some b \<Rightarrow> b
      | None \<Rightarrow> (case strip_suffix ''.att'' value of Some b \<Rightarrow> b
      | None \<Rightarrow> (case strip_suffix ''.sbom'' value of Some b \<Rightarrow> b
      | None \<Rightarrow> value)))"

definition is_referrer_fallback_tag :: "string \<Rightarrow> bool" where
  "is_referrer_fallback_tag value =
     (let base = strip_sidecar value
      in list_ex (\<lambda>a.
           case Option.bind (strip_prefix (algorithm_prefix a) base) (strip_prefix ''-'') of
             Some hex \<Rightarrow> (length hex = referrer_fallback_encoded_len \<or> length hex = hex_len a)
                 \<and> list_all is_ascii_hexdigit hex
           | None \<Rightarrow> False) algorithm_all)"

definition is_reserved_tag :: "string \<Rightarrow> bool" where
  "is_reserved_tag tag \<longleftrightarrow>
     is_internal_namespace tag \<or> parse_keep tag CHR ''.'' \<noteq> None \<or> is_referrer_fallback_tag tag"

subsection \<open>The classification of a tag\<close>

datatype tag =
    Latest
  | Internal internal_tag
  | VersionTag version
  | LegacyKeep algorithm string
  | Other string

definition tag_is_reserved :: "tag \<Rightarrow> bool" where
  "tag_is_reserved t =
     (case t of
        Internal _ \<Rightarrow> True
      | LegacyKeep _ _ \<Rightarrow> True
      | Other value \<Rightarrow> is_referrer_fallback_tag value
      | Latest \<Rightarrow> False
      | VersionTag _ \<Rightarrow> False)"

definition is_reserved_str :: "string \<Rightarrow> bool" where
  "is_reserved_str s = is_reserved_tag s"

definition tag_from :: "string \<Rightarrow> tag" where
  "tag_from value =
     (if value = ''latest'' then Latest
      else if is_internal_namespace value then Internal (internal_from_tag value)
      else case parse_version value of
             Some v \<Rightarrow> VersionTag v
           | None \<Rightarrow>
               (case parse_keep value CHR ''.'' of
                  Some (a, hex) \<Rightarrow> LegacyKeep a hex
                | None \<Rightarrow> Other value))"

definition tag_to_string :: "tag \<Rightarrow> string" where
  "tag_to_string t =
     (case t of
        Latest \<Rightarrow> ''latest''
      | Internal i \<Rightarrow> internal_to_string i
      | VersionTag v \<Rightarrow> version_to_string v
      | LegacyKeep a hex \<Rightarrow> algorithm_prefix a @ ''.'' @ hex
      | Other s \<Rightarrow> s)"

subsubsection \<open>Reserved tags are never versions\<close>

lemma parse_keep_Some:
  "parse_keep value sep = Some (a, hex) \<Longrightarrow>
     value = algorithm_prefix a @ [sep] @ hex \<and> length hex = hex_len a \<and> list_all is_ascii_hexdigit hex"
proof -
  have "parse_keep_algorithms value sep as = Some (a, hex) \<Longrightarrow> ?thesis" for as
    by (induction as)
      (auto simp: bind_eq_Some_conv strip_prefix_Some_iff split: option.splits if_splits)
  then show "parse_keep value sep = Some (a, hex) \<Longrightarrow> ?thesis"
    unfolding parse_keep_def by blast
qed

text \<open>A version that starts with a letter has a dash after its variant.\<close>

lemma not_version_without_dash:
  assumes "is_ascii_lowercase c" "CHR ''-'' \<notin> set s"
  shows "parse_version (c # s) = None"
proof -
  have "d \<noteq> CHR ''-''" if "dropWhile variant_char s = d # r" for d r
    using assms(2) that set_dropWhileD [of d variant_char s] by auto
  with assms have "scan_variant (c # s) = None"
    by (auto simp: scan_variant_def variant_char_def Let_def split: list.splits if_splits)
  then show ?thesis
    by (simp add: parse_version_def version_captures_def)
qed

lemma hexdigit_not_punctuation:
  "is_ascii_hexdigit c \<Longrightarrow> c \<noteq> CHR ''-'' \<and> c \<noteq> CHR ''.''"
  by (auto simp: ascii_defs)

lemma keep_not_version:
  assumes "parse_keep value CHR ''.'' \<noteq> None"
  shows "parse_version value = None"
proof -
  obtain a hex where split: "value = algorithm_prefix a @ [CHR ''.''] @ hex" "list_all is_ascii_hexdigit hex"
    using assms parse_keep_Some by fastforce
  then have "CHR ''-'' \<notin> set hex"
    by (auto simp: list_all_iff dest: hexdigit_not_punctuation)
  then show ?thesis
    unfolding split(1)
    by (cases a) (simp_all, (intro not_version_without_dash; simp add: is_ascii_lowercase_def)+)
qed

text \<open>A decimal number of more than ten digits overflows \<open>u32\<close>.\<close>

lemma nat_of_digits_append:
  "nat_of_digits (s @ t) = nat_of_digits s * 10 ^ length t + nat_of_digits t"
proof (induction t rule: rev_induct)
  case Nil
  then show ?case by (simp add: nat_of_digits_def)
next
  case (snoc c t)
  have "nat_of_digits ((s @ t) @ [c]) = 10 * nat_of_digits (s @ t) + digit_value c"
    by (rule nat_of_digits_snoc)
  with snoc show ?case
    by (simp add: nat_of_digits_snoc algebra_simps)
qed

lemma nat_of_digits_large:
  assumes "nonzero_digit c"
  shows "10 ^ length t \<le> nat_of_digits (c # t)"
proof -
  have "(49 :: nat) \<le> of_char c"
    using assms by (simp add: nonzero_digit_def less_eq_char_def)
  then have "1 \<le> nat_of_digits [c]"
    by (simp add: nat_of_digits_def digit_value_def)
  then have "1 * 10 ^ length t \<le> nat_of_digits [c] * 10 ^ length t"
    by (rule mult_right_mono) simp
  moreover have "nat_of_digits (c # t) = nat_of_digits [c] * 10 ^ length t + nat_of_digits t"
    using nat_of_digits_append [of "[c]" t] by simp
  ultimately show ?thesis by linarith
qed

lemma long_number_overflows:
  assumes "is_number n" "10 < length n"
  shows "parse_u32 n = None"
proof -
  have "n \<noteq> ''0''"
    using assms(2) by (intro notI) simp
  with assms(1) obtain c t where n: "n = c # t" "nonzero_digit c" "list_all is_ascii_digit t"
    unfolding is_number_def by (elim disjE exE conjE) simp_all
  have "(2 :: nat) ^ 32 \<le> 10 ^ 10"
    by simp
  also have "(10 :: nat) ^ 10 \<le> 10 ^ length t"
    using assms(2) n(1) by (intro power_increasing) simp_all
  also have "\<dots> \<le> nat_of_digits n"
    unfolding n(1) by (rule nat_of_digits_large [OF n(2)])
  finally have large: "\<not> nat_of_digits n < 2 ^ 32"
    by (simp only: not_less)
  have "n \<noteq> []" "list_all is_ascii_digit n"
    using n by simp_all
  from parse_u32_digits [OF this] show ?thesis
    by (simp only: large if_False)
qed

lemma number_digits: "is_number n \<Longrightarrow> list_all is_ascii_digit n"
  by (auto simp: is_number_def)

text \<open>A version core that begins with hex digits consumes all of them.\<close>

lemma scan_number_prefix:
  assumes "scan_number (h @ t) = Some (n, r)" "list_all is_ascii_hexdigit h" "stops is_ascii_digit t"
    "scan_minor r \<noteq> None"
  shows "n = h \<and> r = t"
proof -
  from scan_number_Some [OF assms(1)] have "h @ t = n @ r" and n: "is_number n"
    by simp_all
  then consider u where "h = n @ u" "r = u @ t" | u where "n = h @ u" "t = u @ r"
    by (auto simp: append_eq_append_conv2)
  then show ?thesis
  proof cases
    case 1
    have "u = []"
    proof (rule ccontr)
      assume "u \<noteq> []"
      then obtain c u' where "u = c # u'" by (cases u) auto
      with 1 assms(2,4) show False
        by (auto simp: scan_minor_def dest: hexdigit_not_punctuation split: if_splits)
    qed
    with 1 show ?thesis by simp
  next
    case 2
    with number_digits [OF n] assms(3) have "u = []"
      by (cases u) auto
    with 2 show ?thesis by simp
  qed
qed

definition fallback_endings :: "string list" where
  "fallback_endings = [] # sidecar_suffixes"

lemma strip_sidecar_split:
  obtains suf where "value = strip_sidecar value @ suf" "suf \<in> set fallback_endings"
proof -
  have "\<exists>suf \<in> set fallback_endings. value = strip_sidecar value @ suf"
    by (auto simp: strip_sidecar_def fallback_endings_def sidecar_suffixes_def strip_suffix_Some_iff split: option.split)
  then show thesis using that by blast
qed

lemma last_hexdigit:
  "list_all is_ascii_hexdigit h \<Longrightarrow> h \<noteq> [] \<Longrightarrow> is_ascii_hexdigit (last h)"
  by (simp add: list_all_iff)

lemma strip_suffix_hex:
  assumes "list_all is_ascii_hexdigit h" "h \<noteq> []" "t \<noteq> []" "\<not> is_ascii_hexdigit (last t)"
  shows "strip_suffix t (p @ h) = None"
proof (cases "strip_suffix t (p @ h)")
  case (Some x)
  then have "last (p @ h) = last (x @ t)"
    by (simp add: strip_suffix_Some_iff)
  with assms last_hexdigit [OF assms(1,2)] show ?thesis by simp
qed

lemma strip_sidecar_hex:
  assumes "list_all is_ascii_hexdigit h" "h \<noteq> []" "suf \<in> set fallback_endings"
  shows "strip_sidecar (p @ h @ suf) = p @ h"
proof -
  have "strip_suffix ''.sig'' (p @ h) = None" "strip_suffix ''.att'' (p @ h) = None"
    "strip_suffix ''.sbom'' (p @ h) = None"
    by (rule strip_suffix_hex [OF assms(1,2)]; simp add: ascii_defs)+
  then have "strip_sidecar (p @ h) = p @ h"
    by (simp add: strip_sidecar_def)
  moreover have "strip_sidecar ((p @ h) @ ''.sig'') = p @ h"
    by (simp add: strip_sidecar_def strip_suffix_def)
  moreover have "strip_sidecar ((p @ h) @ ''.att'') = p @ h"
    by (simp add: strip_sidecar_def strip_suffix_def)
  moreover have "strip_sidecar ((p @ h) @ ''.sbom'') = p @ h"
    by (simp add: strip_sidecar_def strip_suffix_def)
  ultimately show ?thesis
    using assms(3) unfolding fallback_endings_def sidecar_suffixes_def list.set by (elim insertE emptyE) simp_all
qed

lemma sidecar_not_minor:
  assumes "suf \<in> set fallback_endings"
  shows "stops is_ascii_digit suf" "scan_minor suf \<noteq> None \<Longrightarrow> suf = []"
  using assms
  by (auto simp: fallback_endings_def sidecar_suffixes_def scan_minor_def scan_number_def nonzero_digit_def ascii_defs)

lemma scan_variant_algorithm:
  "scan_variant (algorithm_prefix a @ CHR ''-'' # s)
     = Some ([(2, algorithm_prefix a), (1, algorithm_prefix a @ ''-'')], s)"
  by (cases a) (simp_all add: scan_variant_def variant_char_def ascii_defs)

lemma fallback_not_version:
  assumes "is_referrer_fallback_tag value"
  shows "parse_version value = None"
proof -
  obtain suf where suf: "value = strip_sidecar value @ suf" "suf \<in> set fallback_endings"
    by (rule strip_sidecar_split)
  from assms obtain a hex where base: "strip_sidecar value = algorithm_prefix a @ CHR ''-'' # hex"
    and hex: "list_all is_ascii_hexdigit hex" "length hex = 64 \<or> length hex = hex_len a"
    by (auto simp: is_referrer_fallback_tag_def list_ex_iff bind_eq_Some_conv strip_prefix_Some_iff
        referrer_fallback_encoded_len_def split: option.splits)
  have long: "10 < length hex"
    using hex(2) by (cases a) auto
  have scan: "scan_variant value = Some ([(2, algorithm_prefix a), (1, algorithm_prefix a @ ''-'')], hex @ suf)"
    by (subst suf(1), unfold base) (simp add: scan_variant_algorithm)
  show ?thesis
  proof (cases "version_captures value")
    case None
    then show ?thesis by (simp add: parse_version_def)
  next
    case (Some caps)
    with scan obtain n r cs where n: "scan_number (hex @ suf) = Some (n, r)" and r: "scan_minor r = Some cs"
      and caps: "caps = [(2, algorithm_prefix a), (1, algorithm_prefix a @ ''-'')] @ [(3, n)] @ cs"
      by (auto simp: version_captures_def bind_eq_Some_conv)
    from scan_number_prefix [OF n hex(1) sidecar_not_minor(1) [OF suf(2)]] r
    have eq: "n = hex" "r = suf" by simp_all
    with r sidecar_not_minor(2) [OF suf(2)] have "cs = []"
      by (simp add: scan_minor_def)
    then have "group caps 3 = Some hex"
      using caps eq by (simp add: group_def)
    moreover have "parse_u32 hex = None"
      using scan_number_Some [OF n] long eq by (intro long_number_overflows) simp_all
    ultimately show ?thesis
      by (simp add: parse_version_def Some Let_def)
  qed
qed

lemma reserved_verdicts_agree: "tag_is_reserved (tag_from s) = is_reserved_tag s"
proof (cases "s = ''latest'' \<or> is_internal_namespace s")
  case True
  have "\<not> is_reserved_tag ''latest''"
    by code_simp
  moreover have "is_reserved_tag s" if "is_internal_namespace s"
    using that by (simp add: is_reserved_tag_def)
  ultimately show ?thesis
    using True by (auto simp: tag_is_reserved_def tag_from_def)
next
  case False
  then show ?thesis
    using keep_not_version [of s] fallback_not_version [of s]
    by (auto simp: tag_is_reserved_def tag_from_def is_reserved_tag_def split: option.splits)
qed

lemma version_text_head:
  assumes "parse_version s = Some v"
  shows "s \<noteq> []" "is_ascii_lowercase (hd s) \<or> is_ascii_digit (hd s)"
proof -
  from assms obtain caps where "version_captures s = Some caps"
    by (auto elim: parse_version_cases)
  then obtain v' cv n t ct where s: "s = v' @ n @ t" "rx_match variant_rx v' cv" "is_number n"
    unfolding version_captures_match version_rx_def rx_match_Seq [of variant_rx] rx_match_number_Seq
    by auto
  have n: "n \<noteq> []" "is_ascii_digit (hd n)"
    using number_not_Nil [OF s(3)] number_digits [OF s(3)] by (cases n; simp)+
  then show "s \<noteq> []" by (simp add: s)
  show "is_ascii_lowercase (hd s) \<or> is_ascii_digit (hd s)"
    using s(2) n unfolding s(1) rx_match_variant by (auto simp: hd_append)
qed

lemma internal_not_version: "is_internal_namespace s \<Longrightarrow> parse_version s = None"
proof (rule ccontr)
  assume internal: "is_internal_namespace s" and "parse_version s \<noteq> None"
  then obtain v where "parse_version s = Some v" by auto
  note head = version_text_head [OF this]
  obtain c t where s: "s = c # t" using head(1) by (cases s) auto
  have "to_ascii_lowercase c = CHR ''_''"
    using internal by (simp add: s is_internal_namespace_def reserved_internal_prefix_def
        eq_ignore_ascii_case_def to_ascii_lowercase_def ascii_defs)
  then show False
    using head(2) s
    by (auto simp: to_ascii_lowercase_def ascii_defs less_eq_char_def split: if_splits)
qed

lemma internal_text_round_trip: "internal_to_string (internal_from_tag s) = s"
  using parse_keep_Some
  by (auto simp: internal_from_tag_def bind_eq_Some_conv strip_prefix_Some_iff split: option.splits)

lemma latest_not_version: "parse_version ''latest'' = None"
  by code_simp

subsection \<open>Properties\<close>

text \<open>
  C3: The two verdicts on what a tag means agree on every text: the classifier
  \<open>Tag::from\<close> followed by \<open>Tag::is_reserved\<close>, which consults the version
  grammar first, and the registry-level \<open>is_reserved_tag\<close>, which does not know
  versions. No reserved spelling (internal namespace, keep tag, referrer
  fallback tag or its sidecars) is ever read as a version.
\<close>

theorem reserved_tag_verdicts:
  "tag_is_reserved (tag_from s) = is_reserved_tag s \<and>
   (is_reserved_tag s \<longrightarrow> parse_version s = None)"
  using reserved_verdicts_agree keep_not_version fallback_not_version internal_not_version
  unfolding is_reserved_tag_def by blast

theorem reserved_tag_verdicts_witness:
  "is_reserved_tag (''sha256-'' @ replicate 64 CHR ''7'' @ ''.sig'') \<and>
   parse_version (''sha256-'' @ replicate 64 CHR ''7'' @ ''.sig'') = None"
proof -
  have "is_reserved_tag (''sha256-'' @ replicate 64 CHR ''7'' @ ''.sig'')"
    by code_simp
  with reserved_tag_verdicts show ?thesis by blast
qed

text \<open>
  C7: Classifying a tag, printing the class and classifying the text again
  gives the same class, and only a version tag may change its spelling on the
  way.
\<close>

theorem tag_classification_stable:
  "tag_from (tag_to_string (tag_from s)) = tag_from s \<and>
   ((\<exists>v. tag_from s = VersionTag v) \<or> tag_to_string (tag_from s) = s)"
proof (cases "parse_version s")
  case None
  then have "tag_to_string (tag_from s) = s"
    using parse_keep_Some internal_text_round_trip
    by (auto simp: tag_from_def tag_to_string_def split: option.splits)
  then show ?thesis by simp
next
  case (Some v)
  have printed: "parse_version (version_to_string v) = Some v"
    using parse_to_string parse_version_ok Some by blast
  have "tag_from t = VersionTag v" if "parse_version t = Some v" for t
    using that latest_not_version internal_not_version [of t] by (auto simp: tag_from_def)
  then show ?thesis
    using Some printed by (simp add: tag_to_string_def)
qed

text \<open>
  C8: A digest that the parser accepted is well formed (a supported algorithm,
  the algorithm's number of hex digits, all lower case), and every well-formed
  digest reads back from its text.
\<close>

theorem digest_round_trip:
  "(digest_ok d \<longleftrightarrow> (\<exists>s. digest_try_from s = Inr d)) \<and>
   (digest_ok d \<longleftrightarrow> digest_try_from (digest_to_string d) = Inr d)"
  using digest_try_from_ok digest_round_trip_ok by blast

text \<open>The slices of the display forms never panic on a digest the parser returned.\<close>

lemma short_forms_defined:
  assumes "digest_ok d"
  shows "short_hex d \<noteq> None" "to_short_string d \<noteq> None"
  using assms
  by (cases "digest_algorithm d";
      simp add: digest_ok_def short_hex_def to_short_string_def digest_parts_def digest_short_len_def)+

text \<open>
  C9: The tag under which the signatures of a digest are found is always a
  reserved tag, with each of the sidecar suffixes too.
\<close>

theorem sidecar_tag_reserved:
  assumes "digest_ok d" "suf \<in> set fallback_endings"
  shows "is_reserved_tag (sidecar_tag d suf)"
proof -
  obtain a h where d: "d = Digest a h" by (cases d)
  let ?hex = "take 64 h"
  have hex: "length ?hex = 64" "list_all is_ascii_hexdigit ?hex"
    using assms(1) d by (cases a; auto simp: digest_ok_def list_all_iff lower_hex_hexdigit dest: in_set_takeD)+
  have tag: "sidecar_tag d suf = algorithm_prefix a @ CHR ''-'' # ?hex @ suf"
    by (simp add: sidecar_tag_def referrer_fallback_tag_def digest_parts_def d referrer_fallback_encoded_len_def)
  have "?hex \<noteq> []"
    using hex(1) by (intro notI) simp
  from strip_sidecar_hex [OF hex(2) this assms(2), of "algorithm_prefix a @ ''-''"]
  have "strip_sidecar (sidecar_tag d suf) = algorithm_prefix a @ CHR ''-'' # ?hex"
    unfolding tag by simp
  then have "is_referrer_fallback_tag (sidecar_tag d suf)"
    using hex
    by (cases a) (simp_all add: is_referrer_fallback_tag_def algorithm_all_def referrer_fallback_encoded_len_def)
  then show ?thesis
    by (simp add: is_reserved_tag_def)
qed

theorem sidecar_tag_reserved_witness:
  "digest_ok (Digest Sha256 (replicate 64 CHR ''a'')) \<and> ''.sig'' \<in> set fallback_endings \<and>
   is_reserved_tag (sidecar_tag (Digest Sha256 (replicate 64 CHR ''a'')) ''.sig'')"
proof -
  have "digest_ok (Digest Sha256 (replicate 64 CHR ''a''))" "''.sig'' \<in> set fallback_endings"
    by code_simp+
  then show ?thesis
    using sidecar_tag_reserved by blast
qed

end
