(* ===== verification/Ocx_Reference.thy ===== *)
theory Ocx_Reference
  imports Ocx_Tag
begin

section \<open>Package references and registry locations\<close>

text \<open>
  \<open>crates/ocx_oci/src/package_ref.rs\<close>: the identifier
  \<open>registry/repository[:tag][@digest]\<close>, its grammar, parser and printer; and
  \<open>crates/ocx_oci/src/oci_identifier.rs\<close>: the physical location of a request, a
  newtype over the same data, with the strict parser for the \<open>repository\<close>
  pointer of an index root.
\<close>

subsection \<open>The identifier\<close>

record package_ref =
  pr_registry :: string
  pr_repository :: string
  pr_tag :: "string option"
  pr_digest :: "digest option"

datatype identifier_error_kind =
    IdEmpty
  | UppercaseRepository
  | RepositoryTooLong
  | DigestInvalidFormat
  | InvalidFormat
  | MissingRegistry
  | DirectoryTraversal
  | DockerHubDefault

datatype identifier_error = IdentifierError (ie_input: string) (ie_kind: identifier_error_kind)

definition ocx_sh_registry :: string where
  "ocx_sh_registry = ''ocx.sh''"

definition default_registry :: string where
  "default_registry = ocx_sh_registry"

definition max_repository_length :: nat where
  "max_repository_length = 255"

definition new_registry :: "string \<Rightarrow> string \<Rightarrow> package_ref" where
  "new_registry repository registry =
     \<lparr>pr_registry = registry, pr_repository = repository, pr_tag = None, pr_digest = None\<rparr>"

text \<open>\<open>str::replace\<close> of one character by another one.\<close>

definition normalize_tag :: "string \<Rightarrow> string" where
  "normalize_tag tag = map (\<lambda>c. if c = CHR ''+'' then CHR ''_'' else c) tag"

definition clone_with_tag :: "package_ref \<Rightarrow> string \<Rightarrow> package_ref" where
  "clone_with_tag r tag = r\<lparr>pr_tag := Some (normalize_tag tag), pr_digest := None\<rparr>"

definition clone_with_digest :: "package_ref \<Rightarrow> digest \<Rightarrow> package_ref" where
  "clone_with_digest r d = r\<lparr>pr_digest := Some d\<rparr>"

definition without_digest :: "package_ref \<Rightarrow> package_ref" where
  "without_digest r = r\<lparr>pr_digest := None\<rparr>"

definition without_tag :: "package_ref \<Rightarrow> package_ref" where
  "without_tag r = r\<lparr>pr_tag := None\<rparr>"

definition without_specifiers :: "package_ref \<Rightarrow> package_ref" where
  "without_specifiers r = r\<lparr>pr_tag := None, pr_digest := None\<rparr>"

definition ref_name :: "package_ref \<Rightarrow> string" where
  "ref_name r = last (split_on CHR ''/'' (pr_repository r))"

definition first_path_segment :: "package_ref \<Rightarrow> string" where
  "first_path_segment r = hd (split_on CHR ''/'' (pr_repository r))"

definition tag_or_latest :: "package_ref \<Rightarrow> string" where
  "tag_or_latest r = (case pr_tag r of Some t \<Rightarrow> t | None \<Rightarrow> ''latest'')"

definition is_located_at :: "package_ref \<Rightarrow> package_ref \<Rightarrow> bool" where
  "is_located_at r location \<longleftrightarrow>
     pr_registry r = pr_registry location \<and> pr_repository r = pr_repository location"

definition package_ref_to_string :: "package_ref \<Rightarrow> string" where
  "package_ref_to_string r =
     pr_registry r @ ''/'' @ pr_repository r
     @ (case pr_tag r of Some t \<Rightarrow> '':'' @ t | None \<Rightarrow> [])
     @ (case pr_digest r of Some d \<Rightarrow> ''@'' @ digest_to_string d | None \<Rightarrow> [])"

subsection \<open>The parser\<close>

text \<open>The part of an input before the first \<open>@\<close>, and of a segment before the first \<open>:\<close>.\<close>

definition name_part :: "string \<Rightarrow> string" where
  "name_part input = (case split_once CHR ''@'' input of Some (name, _) \<Rightarrow> name | None \<Rightarrow> input)"

definition dir_name :: "string \<Rightarrow> string" where
  "dir_name segment = (case split_once CHR '':'' segment of Some (name, _) \<Rightarrow> name | None \<Rightarrow> segment)"

definition validate_segments :: "string \<Rightarrow> (identifier_error, unit) result" where
  "validate_segments input =
     (if list_ex (\<lambda>segment. dir_name segment = ''.'' \<or> dir_name segment = ''..'')
           (split_on CHR ''/'' (name_part input))
      then Inl (IdentifierError input DirectoryTraversal)
      else Inr ())"

definition segment_is_host :: "string \<Rightarrow> bool" where
  "segment_is_host segment \<longleftrightarrow>
     CHR ''.'' \<in> set segment \<or> CHR '':'' \<in> set segment \<or> segment = ''localhost''"

definition has_explicit_registry :: "string \<Rightarrow> bool" where
  "has_explicit_registry input =
     (case split_once CHR ''/'' (name_part input) of
        None \<Rightarrow> False
      | Some (first, _) \<Rightarrow> segment_is_host first)"

definition is_repository_segment_byte :: "char \<Rightarrow> bool" where
  "is_repository_segment_byte c \<longleftrightarrow>
     is_ascii_lowercase c \<or> is_ascii_digit c \<or> c \<in> {CHR ''.'', CHR ''_'', CHR ''-''}"

definition repository_error_kind :: "string \<Rightarrow> identifier_error_kind option" where
  "repository_error_kind repository =
     (if list_ex is_ascii_uppercase repository then Some UppercaseRepository
      else if max_repository_length < length repository then Some RepositoryTooLong
      else if list_ex (\<lambda>segment. segment = ''.'' \<or> segment = ''..'') (split_on CHR ''/'' repository)
        then Some DirectoryTraversal
      else if list_ex (\<lambda>segment. segment = [] \<or> \<not> list_all is_repository_segment_byte segment)
                (split_on CHR ''/'' repository)
        then Some InvalidFormat
      else None)"

definition validate_repository :: "string \<Rightarrow> (identifier_error, unit) result" where
  "validate_repository repository =
     (case repository_error_kind repository of
        Some kind \<Rightarrow> Inl (IdentifierError repository kind)
      | None \<Rightarrow> Inr ())"

definition parse_digest :: "string \<Rightarrow> string \<Rightarrow> (identifier_error, digest) result" where
  "parse_digest input digest_str =
     (case digest_try_from digest_str of
        Inl _ \<Rightarrow> Inl (IdentifierError input DigestInvalidFormat)
      | Inr d \<Rightarrow> Inr d)"

text \<open>\<open>split_tag\<close>: the text up to and including the last slash, then the segment behind it.\<close>

definition last_slash :: "string \<Rightarrow> string \<times> string" where
  "last_slash name =
     (rev (dropWhile (\<lambda>c. c \<noteq> CHR ''/'') (rev name)), rev (takeWhile (\<lambda>c. c \<noteq> CHR ''/'') (rev name)))"

definition split_tag :: "string \<Rightarrow> string \<times> string option" where
  "split_tag name =
     (case last_slash name of (before, last_segment) \<Rightarrow>
        (case split_once CHR '':'' last_segment of
           Some (base, tag) \<Rightarrow> (before @ base, Some (normalize_tag tag))
         | None \<Rightarrow> (name, None)))"

definition prepend_domain :: "string \<Rightarrow> string \<Rightarrow> string" where
  "prepend_domain name domain =
     (case split_once CHR ''/'' name of
        None \<Rightarrow> domain @ ''/'' @ name
      | Some (left, _) \<Rightarrow>
          (if \<not> (CHR ''.'' \<in> set left \<or> CHR '':'' \<in> set left) \<and> left \<noteq> ''localhost''
           then domain @ ''/'' @ name else name))"

definition parse_internal :: "string \<Rightarrow> string \<Rightarrow> (identifier_error, package_ref) result" where
  "parse_internal input dflt =
     (if input = [] then Inl (IdentifierError [] IdEmpty)
      else
        case (case split_once CHR ''@'' input of
                Some (name, digest_str) \<Rightarrow>
                  (case parse_digest input digest_str of
                     Inl e \<Rightarrow> Inl e
                   | Inr d \<Rightarrow> Inr (name, Some d))
              | None \<Rightarrow> Inr (input, None)) of
          Inl e \<Rightarrow> Inl e
        | Inr (name, d) \<Rightarrow>
            (case split_tag name of (name_without_tag, tag) \<Rightarrow>
               (case split_once CHR ''/'' (prepend_domain name_without_tag dflt) of
                  None \<Rightarrow> Inl (IdentifierError input InvalidFormat)
                | Some (registry, repository) \<Rightarrow>
                    (case repository_error_kind repository of
                       Some kind \<Rightarrow> Inl (IdentifierError input kind)
                     | None \<Rightarrow> Inr \<lparr>pr_registry = registry, pr_repository = repository,
                                  pr_tag = tag, pr_digest = d\<rparr>))))"

definition parse_ref :: "string \<Rightarrow> (identifier_error, package_ref) result" where
  "parse_ref input =
     (case validate_segments input of
        Inl e \<Rightarrow> Inl e
      | Inr _ \<Rightarrow>
          (if \<not> has_explicit_registry input then Inl (IdentifierError input MissingRegistry)
           else parse_internal input default_registry))"

definition parse_with_default_registry ::
  "string \<Rightarrow> string \<Rightarrow> (identifier_error, package_ref) result" where
  "parse_with_default_registry s dflt =
     (case validate_segments s of
        Inl e \<Rightarrow> Inl e
      | Inr _ \<Rightarrow> parse_internal s dflt)"

subsection \<open>Physical locations\<close>

text \<open>
  \<open>OciIdentifier\<close> wraps the same four fields; its accessors and \<open>clone_with_*\<close>
  forward to the wrapped reference.
\<close>

type_synonym oci_identifier = package_ref

definition parse_target :: "string \<Rightarrow> string \<Rightarrow> (identifier_error, oci_identifier) result" where
  "parse_target input dflt = parse_with_default_registry input dflt"

definition parse_repository_pointer :: "string \<Rightarrow> (identifier_error, oci_identifier) result" where
  "parse_repository_pointer value =
     (let malformed = Inl (IdentifierError value InvalidFormat)
      in case strip_prefix ''oci://'' value of
           None \<Rightarrow> malformed
         | Some r \<Rightarrow>
             (case split_once CHR ''/'' r of
                None \<Rightarrow> malformed
              | Some (host, path) \<Rightarrow>
                  (if host = [] \<or> path = [] then malformed
                   else case parse_with_default_registry r host of
                          Inl _ \<Rightarrow> malformed
                        | Inr parsed \<Rightarrow>
                            (if pr_registry parsed \<noteq> host \<or> pr_repository parsed \<noteq> path
                                \<or> pr_tag parsed \<noteq> None \<or> pr_digest parsed \<noteq> None
                             then malformed else Inr parsed))))"

definition at_version_of :: "oci_identifier \<Rightarrow> package_ref \<Rightarrow> oci_identifier" where
  "at_version_of location logical =
     (let location = without_specifiers location;
          location = (case pr_tag logical of Some t \<Rightarrow> clone_with_tag location t | None \<Rightarrow> location)
      in case pr_digest logical of Some d \<Rightarrow> clone_with_digest location d | None \<Rightarrow> location)"

record pinned_oci_identifier =
  pin_identifier :: oci_identifier
  pin_digest :: digest

definition pinned_at :: "oci_identifier \<Rightarrow> digest \<Rightarrow> pinned_oci_identifier" where
  "pinned_at location d = \<lparr>pin_identifier = clone_with_digest location d, pin_digest = d\<rparr>"

definition pinned_clone_with_digest :: "pinned_oci_identifier \<Rightarrow> digest \<Rightarrow> pinned_oci_identifier" where
  "pinned_clone_with_digest p d =
     \<lparr>pin_identifier = clone_with_digest (pin_identifier p) d, pin_digest = d\<rparr>"

definition pinned_try_from :: "oci_identifier \<Rightarrow> (oci_identifier, pinned_oci_identifier) result" where
  "pinned_try_from location =
     (case pr_digest location of
        Some d \<Rightarrow> Inr \<lparr>pin_identifier = location, pin_digest = d\<rparr>
      | None \<Rightarrow> Inl location)"

text \<open>
  \<open>canonical_reference\<close>: the wire reference of a request; a missing tag and
  digest name \<open>latest\<close>.
\<close>

record native_reference =
  nr_registry :: string
  nr_repository :: string
  nr_tag :: "string option"
  nr_digest :: "string option"

definition canonical_reference :: "oci_identifier \<Rightarrow> native_reference" where
  "canonical_reference r =
     (let at = (\<lambda>t d. \<lparr>nr_registry = pr_registry r, nr_repository = pr_repository r, nr_tag = t, nr_digest = d\<rparr>)
      in case (pr_tag r, pr_digest r) of
           (Some t, Some d) \<Rightarrow> at (Some t) (Some (digest_to_string d))
         | (Some t, None) \<Rightarrow> at (Some t) None
         | (None, Some d) \<Rightarrow> at None (Some (digest_to_string d))
         | (None, None) \<Rightarrow> at (Some ''latest'') None)"

subsection \<open>The grammar of well-formed references\<close>

definition registry_ok :: "string \<Rightarrow> bool" where
  "registry_ok g \<longleftrightarrow> CHR ''/'' \<notin> set g \<and> CHR ''@'' \<notin> set g \<and> segment_is_host g
     \<and> dir_name g \<noteq> ''.'' \<and> dir_name g \<noteq> ''..''"

definition tag_ok :: "string \<Rightarrow> bool" where
  "tag_ok t \<longleftrightarrow> CHR ''/'' \<notin> set t \<and> CHR ''@'' \<notin> set t \<and> CHR ''+'' \<notin> set t"

definition ref_ok :: "package_ref \<Rightarrow> bool" where
  "ref_ok r \<longleftrightarrow> registry_ok (pr_registry r) \<and> repository_error_kind (pr_repository r) = None
     \<and> pred_option tag_ok (pr_tag r) \<and> pred_option digest_ok (pr_digest r)"

subsubsection \<open>Splitting lemmas\<close>

lemma split_on_append: "split_on c (a @ c # b) = split_on c a @ split_on c b"
  by (induction a) (auto split: list.split)

lemma split_on_single: "c \<notin> set a \<Longrightarrow> split_on c a = [a]"
  by (induction a) auto

lemma split_on_mem: "segment \<in> set (split_on c s) \<Longrightarrow> set segment \<subseteq> set s - {c}"
proof (induction s arbitrary: segment)
  case Nil
  then show ?case by simp
next
  case (Cons d s)
  obtain t ts where eq: "split_on c s = t # ts"
    by (cases "split_on c s") auto
  have IH: "set u \<subseteq> set s - {c}" if "u = t \<or> u \<in> set ts" for u
    using Cons.IH [of u] that by (simp add: eq)
  from Cons.prems show ?case
    using IH [of segment] IH [of t] by (cases "d = c") (auto simp: eq)
qed

lemma split_on_set: "set s \<subseteq> (\<Union>segment \<in> set (split_on c s). set segment) \<union> {c}"
proof (induction s)
  case (Cons d s)
  obtain t ts where "split_on c s = t # ts"
    by (cases "split_on c s") auto
  with Cons show ?case by auto
qed simp

lemma split_once_first: "c \<notin> set a \<Longrightarrow> split_once c (a @ c # b) = Some (a, b)"
  by (simp add: split_once_Some_iff)

lemma last_slash_split:
  assumes "last_slash name = (a, b)"
  shows "name = a @ b" "CHR ''/'' \<notin> set b" "a = [] \<or> last a = CHR ''/''"
proof -
  let ?P = "\<lambda>c. c \<noteq> CHR ''/''"
  have a: "a = rev (dropWhile ?P (rev name))" and b: "b = rev (takeWhile ?P (rev name))"
    using assms by (simp_all add: last_slash_def)
  show "name = a @ b"
    unfolding a b by (metis rev_append rev_rev_ident takeWhile_dropWhile_id)
  show "CHR ''/'' \<notin> set b"
    unfolding b by (auto dest: set_takeWhileD)
  have "\<not> ?P (hd (dropWhile ?P (rev name)))" if "dropWhile ?P (rev name) \<noteq> []"
    using that by (rule hd_dropWhile)
  then show "a = [] \<or> last a = CHR ''/''"
    unfolding a by (auto simp: last_rev)
qed

lemma last_slash_snoc:
  assumes "CHR ''/'' \<notin> set b" "a = [] \<or> last a = CHR ''/''"
  shows "last_slash (a @ b) = (a, b)"
proof -
  have "takeWhile (\<lambda>c. c \<noteq> CHR ''/'') (rev b @ rev a) = rev b"
    "dropWhile (\<lambda>c. c \<noteq> CHR ''/'') (rev b @ rev a) = rev a"
    using assms by (cases "rev a"; auto simp: takeWhile_append dropWhile_append last_rev [symmetric])+
  then show ?thesis
    by (simp add: last_slash_def)
qed

lemma normalize_tag_id: "CHR ''+'' \<notin> set t \<Longrightarrow> normalize_tag t = t"
  by (auto simp: normalize_tag_def intro: map_idI)

lemma normalize_tag_ok: "CHR ''/'' \<notin> set t \<Longrightarrow> CHR ''@'' \<notin> set t \<Longrightarrow> tag_ok (normalize_tag t)"
  by (auto simp: tag_ok_def normalize_tag_def split: if_splits)

lemma repository_chars:
  assumes "repository_error_kind R = None" "c \<in> set R"
  shows "c = CHR ''/'' \<or> is_repository_segment_byte c"
proof -
  from split_on_set [of R "CHR ''/''"] assms(2)
  have "c = CHR ''/'' \<or> (\<exists>segment \<in> set (split_on CHR ''/'' R). c \<in> set segment)" by blast
  with assms(1) show ?thesis
    by (auto simp: repository_error_kind_def list_ex_iff list_all_iff split: if_splits)
qed

lemma repository_punctuation:
  assumes "repository_error_kind R = None"
  shows "CHR '':'' \<notin> set R" "CHR ''@'' \<notin> set R" "R \<noteq> []"
  using repository_chars [OF assms, of "CHR '':''"] repository_chars [OF assms, of "CHR ''@''"] assms
  by (auto simp: is_repository_segment_byte_def ascii_defs repository_error_kind_def)

lemma split_on_suffix:
  assumes "c \<notin> set t"
  shows "\<exists>xs x. split_on c s = xs @ [x] \<and> split_on c (s @ t) = xs @ [x @ t]"
proof (induction s)
  case Nil
  then show ?case using assms by (simp add: split_on_single)
next
  case (Cons d s)
  then obtain xs x where "split_on c s = xs @ [x]" "split_on c (s @ t) = xs @ [x @ t]" by blast
  then show ?case
    by (cases "d = c"; cases xs) auto
qed

lemma dir_name_no_colon: "CHR '':'' \<notin> set s \<Longrightarrow> dir_name (s @ CHR '':'' # t) = s \<and> dir_name s = s"
  by (simp add: dir_name_def split_once_first split_once_None_iff [THEN iffD2] split: option.split)

lemma dir_name_tagged_segments:
  assumes "CHR '':'' \<notin> set R"
  shows "segment \<in> set (split_on CHR ''/'' R) \<Longrightarrow> dir_name segment = segment"
    and "CHR ''/'' \<notin> set t \<Longrightarrow> segment \<in> set (split_on CHR ''/'' (R @ '':'' @ t)) \<Longrightarrow>
      dir_name segment \<in> set (split_on CHR ''/'' R)"
proof -
  have colon: "CHR '':'' \<notin> set u" if "u \<in> set (split_on CHR ''/'' R)" for u
    using split_on_mem [OF that] assms by blast
  then show *: "segment \<in> set (split_on CHR ''/'' R) \<Longrightarrow> dir_name segment = segment" for segment
    using dir_name_no_colon by blast
  assume "CHR ''/'' \<notin> set t" and mem: "segment \<in> set (split_on CHR ''/'' (R @ '':'' @ t))"
  then obtain xs x where "split_on CHR ''/'' R = xs @ [x]" "split_on CHR ''/'' (R @ '':'' @ t) = xs @ [x @ '':'' @ t]"
    using split_on_suffix [of "CHR ''/''" "'':'' @ t" R] by auto
  with mem colon * show "dir_name segment \<in> set (split_on CHR ''/'' R)"
    using dir_name_no_colon by (auto simp: Un_iff)
qed

subsubsection \<open>Printing, then parsing\<close>

lemma split_tag_untagged:
  assumes "CHR '':'' \<notin> set R" "R \<noteq> []"
  shows "split_tag (g @ ''/'' @ R) = (g @ ''/'' @ R, None)"
    and "CHR ''/'' \<notin> set t \<Longrightarrow> CHR ''+'' \<notin> set t \<Longrightarrow>
      split_tag (g @ ''/'' @ R @ '':'' @ t) = (g @ ''/'' @ R, Some t)"
proof -
  obtain a b where ab: "last_slash R = (a, b)" by (cases "last_slash R")
  note R = last_slash_split [OF ab]
  have last: "g @ ''/'' @ a = [] \<or> last (g @ ''/'' @ a) = CHR ''/''"
    using R(3) by auto
  have colon: "CHR '':'' \<notin> set b"
    using assms(1) R(1) by simp
  have "last_slash ((g @ ''/'' @ a) @ b) = (g @ ''/'' @ a, b)"
    using R(2) last by (rule last_slash_snoc)
  then show "split_tag (g @ ''/'' @ R) = (g @ ''/'' @ R, None)"
    using colon unfolding R(1) by (simp add: split_tag_def split_once_None_iff [THEN iffD2])
  assume t: "CHR ''/'' \<notin> set t" "CHR ''+'' \<notin> set t"
  then have "CHR ''/'' \<notin> set (b @ CHR '':'' # t)"
    using R(2) by simp
  then have "last_slash ((g @ ''/'' @ a) @ b @ CHR '':'' # t) = (g @ ''/'' @ a, b @ CHR '':'' # t)"
    using last by (rule last_slash_snoc)
  then show "split_tag (g @ ''/'' @ R @ '':'' @ t) = (g @ ''/'' @ R, Some t)"
    using colon t unfolding R(1) by (simp add: split_tag_def split_once_first normalize_tag_id)
qed

lemma prepend_domain_host:
  "registry_ok g \<Longrightarrow> prepend_domain (g @ ''/'' @ R) d = g @ ''/'' @ R"
  by (auto simp: prepend_domain_def registry_ok_def segment_is_host_def split_once_first)

text \<open>The text before the digest of a printed reference.\<close>

definition ref_name_text :: "package_ref \<Rightarrow> string" where
  "ref_name_text r = pr_registry r @ ''/'' @ pr_repository r
     @ (case pr_tag r of Some t \<Rightarrow> '':'' @ t | None \<Rightarrow> [])"

lemma ref_name_text_split_tag:
  assumes "ref_ok r"
  shows "split_tag (ref_name_text r) = (pr_registry r @ ''/'' @ pr_repository r, pr_tag r)"
proof -
  have "repository_error_kind (pr_repository r) = None"
    using assms by (simp add: ref_ok_def)
  note R = repository_punctuation(1,3) [OF this]
  show ?thesis
  proof (cases "pr_tag r")
    case None
    then show ?thesis using split_tag_untagged(1) [OF R] by (simp add: ref_name_text_def)
  next
    case (Some t)
    with assms have "CHR ''/'' \<notin> set t" "CHR ''+'' \<notin> set t"
      by (simp_all add: ref_ok_def tag_ok_def)
    from split_tag_untagged(2) [OF R this] Some show ?thesis
      by (simp add: ref_name_text_def)
  qed
qed

lemma ref_name_text_no_at: "ref_ok r \<Longrightarrow> CHR ''@'' \<notin> set (ref_name_text r)"
  using repository_punctuation [of "pr_repository r"]
  by (cases "pr_tag r") (auto simp: ref_ok_def ref_name_text_def registry_ok_def tag_ok_def)

lemma to_string_name_text:
  "package_ref_to_string r =
     ref_name_text r @ (case pr_digest r of Some d \<Rightarrow> CHR ''@'' # digest_to_string d | None \<Rightarrow> [])"
  by (simp add: package_ref_to_string_def ref_name_text_def split: option.split)

lemma name_part_to_string: "ref_ok r \<Longrightarrow> name_part (package_ref_to_string r) = ref_name_text r"
  using ref_name_text_no_at [of r]
  by (cases "pr_digest r")
    (auto simp: to_string_name_text name_part_def split_once_first split_once_None_iff [THEN iffD2])

lemma parse_internal_to_string:
  assumes "ref_ok r"
  shows "parse_internal (package_ref_to_string r) d = Inr r"
proof -
  let ?s = "package_ref_to_string r"
  have "(case split_once CHR ''@'' ?s of
           Some (name, ds) \<Rightarrow> (case parse_digest ?s ds of Inl e \<Rightarrow> Inl e | Inr d \<Rightarrow> Inr (name, Some d))
         | None \<Rightarrow> Inr (?s, None)) = Inr (ref_name_text r, pr_digest r)"
    using ref_name_text_no_at [OF assms] assms digest_round_trip_ok
    by (cases "pr_digest r")
      (auto simp: to_string_name_text split_once_first split_once_None_iff [THEN iffD2] parse_digest_def ref_ok_def)
  moreover have "?s \<noteq> []"
    by (simp add: package_ref_to_string_def)
  moreover have "registry_ok (pr_registry r)"
    using assms by (simp add: ref_ok_def)
  moreover from this have "split_once CHR ''/'' (pr_registry r @ ''/'' @ pr_repository r) = Some (pr_registry r, pr_repository r)"
    by (simp add: registry_ok_def split_once_first)
  moreover have "repository_error_kind (pr_repository r) = None"
    using assms by (simp add: ref_ok_def)
  ultimately show ?thesis
    by (simp only: parse_internal_def ref_name_text_split_tag [OF assms] prepend_domain_host
        if_False sum.case prod.case option.case) simp
qed

lemma validate_to_string:
  assumes "ref_ok r"
  shows "validate_segments (package_ref_to_string r) = Inr ()" "has_explicit_registry (package_ref_to_string r)"
proof -
  let ?g = "pr_registry r" and ?R = "pr_repository r"
  obtain a b where ab: "last_slash ?R = (a, b)" by (cases "last_slash ?R")
  note R = last_slash_split [OF ab]
  have ok: "registry_ok ?g" "repository_error_kind ?R = None"
    using assms by (simp_all add: ref_ok_def)
  have segs: "segment \<noteq> ''.'' \<and> segment \<noteq> ''..''" if "segment \<in> set (split_on CHR ''/'' ?R)" for segment
    using ok(2) that by (auto simp: repository_error_kind_def list_ex_iff split: if_splits)
  have dirs: "dir_name segment \<noteq> ''.'' \<and> dir_name segment \<noteq> ''..''"
    if "segment \<in> set (split_on CHR ''/'' (?R @ (case pr_tag r of Some t \<Rightarrow> '':'' @ t | None \<Rightarrow> [])))" for segment
    using that segs dir_name_tagged_segments [OF repository_punctuation(1) [OF ok(2)]] assms
    by (auto simp: ref_ok_def tag_ok_def split: option.splits)
  have "split_on CHR ''/'' (ref_name_text r) =
      ?g # split_on CHR ''/'' (?R @ (case pr_tag r of Some t \<Rightarrow> '':'' @ t | None \<Rightarrow> []))"
    using ok(1) by (simp add: ref_name_text_def split_on_append split_on_single registry_ok_def)
  with dirs ok(1) show "validate_segments (package_ref_to_string r) = Inr ()"
    unfolding validate_segments_def name_part_to_string [OF assms]
    by (auto simp: list_ex_iff registry_ok_def)
  show "has_explicit_registry (package_ref_to_string r)"
    unfolding has_explicit_registry_def name_part_to_string [OF assms]
    using ok(1) by (simp add: ref_name_text_def registry_ok_def split_once_first)
qed

subsubsection \<open>What the parser returns\<close>

lemma split_tag_prefix:
  assumes "split_tag name = (nt, tag)" "CHR ''@'' \<notin> set name"
  shows "\<exists>r. name = nt @ r" "pred_option tag_ok tag" "tag = None \<Longrightarrow> nt = name"
proof -
  obtain a b where ab: "last_slash name = (a, b)" by (cases "last_slash name")
  note name = last_slash_split [OF ab]
  have tag: "tag_ok (normalize_tag t)" if "split_once CHR '':'' b = Some (base, t)" for base t
    using that name assms(2) by (intro normalize_tag_ok) (auto simp: split_once_Some_iff)
  show "\<exists>r. name = nt @ r" "pred_option tag_ok tag" "tag = None \<Longrightarrow> nt = name"
    using assms(1) ab name(1) tag
    by (auto simp: split_tag_def split_once_Some_iff split: option.splits)
qed

lemma parse_internal_cases:
  assumes "parse_internal s d = Inr r"
  obtains name nt where "name_part s = name" "CHR ''@'' \<notin> set name" "split_tag name = (nt, pr_tag r)"
    "split_once CHR ''/'' (prepend_domain nt d) = Some (pr_registry r, pr_repository r)"
    "repository_error_kind (pr_repository r) = None" "pred_option digest_ok (pr_digest r)"
    "pr_digest r = None \<Longrightarrow> name = s"
proof (cases "split_once CHR ''@'' s")
  case None
  then have "name_part s = s" "CHR ''@'' \<notin> set s"
    by (simp add: name_part_def) (rule split_once_None_iff [THEN iffD1, OF None])
  moreover obtain nt tag where "split_tag s = (nt, tag)" by (cases "split_tag s")
  ultimately show thesis
    using assms None
    by (intro that [of s nt]) (auto simp: parse_internal_def split: if_splits option.splits)
next
  case (Some x)
  obtain name ds where x: "x = (name, ds)" by (cases x)
  have "name_part s = name"
    using Some x by (simp add: name_part_def)
  moreover have "CHR ''@'' \<notin> set name"
    using Some x by (simp add: split_once_Some_iff)
  moreover obtain nt tag where "split_tag name = (nt, tag)" by (cases "split_tag name")
  ultimately show thesis
    using assms Some x
    by (intro that [of name nt])
      (auto simp: parse_internal_def parse_digest_def digest_try_from_ok
        split: if_splits option.splits sum.splits)
qed

lemma prepend_domain_cases:
  assumes "split_once CHR ''/'' (prepend_domain nt d) = Some (g, R)" "CHR ''/'' \<notin> set d"
  obtains "segment_is_host g" "nt = g @ ''/'' @ R" "CHR ''/'' \<notin> set g"
  | "g = d" "R = nt" "\<And>x y. split_once CHR ''/'' nt = Some (x, y) \<Longrightarrow> \<not> segment_is_host x"
proof (cases "split_once CHR ''/'' nt")
  case None
  with assms show thesis
    by (intro that(2)) (simp_all add: prepend_domain_def split_once_first)
next
  case (Some x)
  obtain left y where x: "x = (left, y)" by (cases x)
  have pre: "prepend_domain nt d = (if segment_is_host left then nt else d @ ''/'' @ nt)"
    using Some x by (auto simp: prepend_domain_def segment_is_host_def)
  show thesis
  proof (cases "segment_is_host left")
    case True
    with pre Some x assms(1) have "left = g" "y = R" by simp_all
    with True Some x show thesis
      by (intro that(1)) (simp_all add: split_once_Some_iff)
  next
    case False
    with pre have "split_once CHR ''/'' (prepend_domain nt d) = Some (d, nt)"
      using assms(2) by (simp add: split_once_first)
    with assms(1) False Some x show thesis
      by (intro that(2)) simp_all
  qed
qed

lemma parse_internal_ok:
  assumes "validate_segments s = Inr ()" "registry_ok d" "parse_internal s d = Inr r"
  shows "ref_ok r"
proof -
  from assms(3) obtain name nt where name: "name_part s = name" "CHR ''@'' \<notin> set name"
    and tag: "split_tag name = (nt, pr_tag r)"
    and reg: "split_once CHR ''/'' (prepend_domain nt d) = Some (pr_registry r, pr_repository r)"
    and ok: "repository_error_kind (pr_repository r) = None" "pred_option digest_ok (pr_digest r)"
    by (rule parse_internal_cases)
  obtain u where u: "name = nt @ u"
    using split_tag_prefix(1) [OF tag name(2)] by blast
  have "CHR ''/'' \<notin> set d"
    using assms(2) by (simp add: registry_ok_def)
  from reg this have "registry_ok (pr_registry r)"
  proof (cases rule: prepend_domain_cases)
    case 1
    then have "split_on CHR ''/'' name = pr_registry r # split_on CHR ''/'' (pr_repository r @ u)"
      using u by (simp add: split_on_append split_on_single)
    with assms(1) name 1 u show ?thesis
      by (auto simp: validate_segments_def registry_ok_def split: if_splits)
  next
    case 2
    with assms(2) show ?thesis by simp
  qed
  with ok split_tag_prefix(2) [OF tag name(2)] show ?thesis
    by (simp add: ref_ok_def)
qed

lemma default_registry_ok: "registry_ok default_registry"
  by code_simp

lemma parse_ref_ok: "parse_ref s = Inr r \<Longrightarrow> ref_ok r"
  by (auto simp: parse_ref_def split: sum.splits if_splits intro: parse_internal_ok default_registry_ok)

lemma parse_ref_to_string: "ref_ok r \<Longrightarrow> parse_ref (package_ref_to_string r) = Inr r"
  by (simp add: parse_ref_def validate_to_string parse_internal_to_string)

subsection \<open>Properties\<close>

text \<open>
  C13: The references that \<open>PackageRef::parse\<close> returns are exactly the well-formed
  ones, and each of them reads back from its printed form. With a host as the
  default registry the lenient parser returns well-formed references too, so
  what a user typed can always be written to a lock file and read again.
\<close>

theorem package_ref_round_trip:
  "(ref_ok r \<longleftrightarrow> (\<exists>s. parse_ref s = Inr r)) \<and>
   (ref_ok r \<longleftrightarrow> parse_ref (package_ref_to_string r) = Inr r) \<and>
   (registry_ok d \<and> parse_with_default_registry s d = Inr r \<longrightarrow> parse_ref (package_ref_to_string r) = Inr r)"
  using parse_ref_ok parse_ref_to_string parse_internal_ok
  by (auto simp: parse_with_default_registry_def split: sum.splits)

theorem package_ref_round_trip_witness:
  "registry_ok ''ghcr.io'' \<and>
   parse_with_default_registry ''acme/cmake:3.28+b1'' ''ghcr.io''
     = Inr \<lparr>pr_registry = ''ghcr.io'', pr_repository = ''acme/cmake'', pr_tag = Some ''3.28_b1'', pr_digest = None\<rparr> \<and>
   parse_ref ''ghcr.io/acme/cmake:3.28_b1''
     = Inr \<lparr>pr_registry = ''ghcr.io'', pr_repository = ''acme/cmake'', pr_tag = Some ''3.28_b1'', pr_digest = None\<rparr>"
proof -
  let ?r = "\<lparr>pr_registry = ''ghcr.io'', pr_repository = ''acme/cmake'', pr_tag = Some ''3.28_b1'', pr_digest = None\<rparr>"
  have "registry_ok ''ghcr.io''" "parse_with_default_registry ''acme/cmake:3.28+b1'' ''ghcr.io'' = Inr ?r"
    "package_ref_to_string ?r = ''ghcr.io/acme/cmake:3.28_b1''"
    by code_simp+
  with package_ref_round_trip [of ?r "''ghcr.io''" "''acme/cmake:3.28+b1''"] show ?thesis
    by metis
qed

text \<open>
  C14: The strict parser of an index root's \<open>repository\<close> pointer accepts exactly
  \<open>oci://\<close> followed by the printed form of a well-formed reference without tag
  and digest, and returns that reference: nothing can be smuggled in.
\<close>

theorem repository_pointer_exact:
  "parse_repository_pointer p = Inr r \<longleftrightarrow>
     ref_ok r \<and> pr_tag r = None \<and> pr_digest r = None \<and> p = ''oci://'' @ package_ref_to_string r"
proof
  assume "parse_repository_pointer p = Inr r"
  then obtain x g R where p: "strip_prefix ''oci://'' p = Some x" and x: "split_once CHR ''/'' x = Some (g, R)"
    and parsed: "parse_with_default_registry x g = Inr r"
    and r: "pr_registry r = g" "pr_repository r = R" "pr_tag r = None" "pr_digest r = None"
    by (auto simp: parse_repository_pointer_def Let_def split: option.splits if_splits sum.splits)
  have xs: "x = g @ ''/'' @ R" "CHR ''/'' \<notin> set g"
    using x by (simp_all add: split_once_Some_iff)
  have valid: "validate_segments x = Inr ()" and int: "parse_internal x g = Inr r"
    using parsed by (auto simp: parse_with_default_registry_def split: sum.splits)
  from int obtain name nt where name: "name_part x = name" "CHR ''@'' \<notin> set name" "name = x"
    and tag: "split_tag name = (nt, None)" and reg: "split_once CHR ''/'' (prepend_domain nt g) = Some (g, R)"
    by (rule parse_internal_cases) (use r in auto)
  have nt: "nt = x"
    using split_tag_prefix(3) [OF tag name(2)] name by simp
  have "segment_is_host g"
    using reg xs(2) by (cases rule: prepend_domain_cases) (use xs nt in auto)
  moreover have "dir_name g \<noteq> ''.'' \<and> dir_name g \<noteq> ''..''"
    using valid name xs by (auto simp: validate_segments_def split_on_append split_on_single split: if_splits)
  ultimately have "registry_ok g"
    using name xs by (auto simp: registry_ok_def)
  from parse_internal_ok [OF valid this int] p [unfolded strip_prefix_Some_iff] xs r
  show "ref_ok r \<and> pr_tag r = None \<and> pr_digest r = None \<and> p = ''oci://'' @ package_ref_to_string r"
    by (simp add: package_ref_to_string_def)
next
  assume r: "ref_ok r \<and> pr_tag r = None \<and> pr_digest r = None \<and> p = ''oci://'' @ package_ref_to_string r"
  then have p: "p = ''oci://'' @ pr_registry r @ ''/'' @ pr_repository r"
    by (simp add: package_ref_to_string_def)
  have "registry_ok (pr_registry r)" "pr_repository r \<noteq> []"
    using r repository_punctuation(3) by (auto simp: ref_ok_def)
  moreover have "pr_registry r \<noteq> []"
    using calculation(1) by (auto simp: registry_ok_def segment_is_host_def)
  moreover have "parse_with_default_registry (pr_registry r @ ''/'' @ pr_repository r) (pr_registry r) = Inr r"
    using r validate_to_string(1) [of r] parse_internal_to_string [of r]
    by (simp add: parse_with_default_registry_def package_ref_to_string_def)
  moreover have "strip_prefix ''oci://'' p = Some (pr_registry r @ ''/'' @ pr_repository r)"
    unfolding p by (rule strip_prefix_append)
  moreover have "split_once CHR ''/'' (pr_registry r @ ''/'' @ pr_repository r) = Some (pr_registry r, pr_repository r)"
    using calculation(1) by (simp add: registry_ok_def split_once_first)
  ultimately show "parse_repository_pointer p = Inr r"
    using r by (simp add: parse_repository_pointer_def)
qed

end
