(* ===== verification/Ocx_Effects.thy ===== *)
theory Ocx_Effects
  imports Ocx_Prelude
begin

section \<open>Fallible operations on an outside world\<close>

text \<open>
  An asynchronous function that returns \<open>Result\<close> and talks to a registry is a
  function of the state of the outside world \<open>'w\<close>: it either never returns
  (\<open>None\<close>) or gives a result and the state it leaves. The combinators are the
  sequencing that \<open>?\<close>, \<open>match\<close> on an awaited call, and \<open>for\<close> loops over
  awaited calls write in the sources.
\<close>

type_synonym ('w, 'e, 'a) op = "'w \<Rightarrow> (('e, 'a) result \<times> 'w) option"

definition op_return :: "'a \<Rightarrow> ('w, 'e, 'a) op" where
  "op_return a = (\<lambda>w. Some (Inr a, w))"

definition op_fail :: "'e \<Rightarrow> ('w, 'e, 'a) op" where
  "op_fail e = (\<lambda>w. Some (Inl e, w))"

definition op_lift :: "('e, 'a) result \<Rightarrow> ('w, 'e, 'a) op" where
  "op_lift r = (\<lambda>w. Some (r, w))"

text \<open>\<open>let x = m.await?;\<close>\<close>

definition op_bind :: "('w, 'e, 'a) op \<Rightarrow> ('a \<Rightarrow> ('w, 'e, 'b) op) \<Rightarrow> ('w, 'e, 'b) op" where
  "op_bind m f = (\<lambda>w.
     case m w of
       None \<Rightarrow> None
     | Some (Inl e, w') \<Rightarrow> Some (Inl e, w')
     | Some (Inr a, w') \<Rightarrow> f a w')"

text \<open>\<open>match m.await { Ok .. Err .. }\<close>: the result becomes a value.\<close>

definition op_match ::
  "('w, 'e, 'a) op \<Rightarrow> ('a \<Rightarrow> ('w, 'f, 'b) op) \<Rightarrow> ('e \<Rightarrow> ('w, 'f, 'b) op) \<Rightarrow> ('w, 'f, 'b) op" where
  "op_match m f g = (\<lambda>w.
     case m w of
       None \<Rightarrow> None
     | Some (Inl e, w') \<Rightarrow> g e w'
     | Some (Inr a, w') \<Rightarrow> f a w')"

definition op_map_err :: "('e \<Rightarrow> 'f) \<Rightarrow> ('w, 'e, 'a) op \<Rightarrow> ('w, 'f, 'a) op" where
  "op_map_err h m = op_match m op_return (\<lambda>e. op_fail (h e))"

text \<open>\<open>for x in xs { f(x).await?; }\<close>, collecting what each turn returns.\<close>

fun op_each :: "('x \<Rightarrow> ('w, 'e, 'a) op) \<Rightarrow> 'x list \<Rightarrow> ('w, 'e, 'a list) op" where
  "op_each f [] = op_return []"
| "op_each f (x # xs) = op_bind (f x) (\<lambda>a. op_bind (op_each f xs) (\<lambda>as. op_return (a # as)))"

text \<open>The same loop with a running value.\<close>

fun op_fold :: "('x \<Rightarrow> 's \<Rightarrow> ('w, 'e, 's) op) \<Rightarrow> 'x list \<Rightarrow> 's \<Rightarrow> ('w, 'e, 's) op" where
  "op_fold f [] s = op_return s"
| "op_fold f (x # xs) s = op_bind (f x s) (op_fold f xs)"

lemmas op_defs = op_return_def op_fail_def op_lift_def op_bind_def op_match_def op_map_err_def

named_theorems op_rules \<open>how each combinator continues from what its first step returned\<close>

lemma op_return_apply [op_rules]: "op_return a w = Some (Inr a, w)"
  and op_fail_apply [op_rules]: "op_fail e w = Some (Inl e, w)"
  and op_lift_apply [op_rules]: "op_lift r w = Some (r, w)"
  by (simp_all add: op_return_def op_fail_def op_lift_def)

lemma op_bind_ok [op_rules]: "m w = Some (Inr a, w') \<Longrightarrow> op_bind m f w = f a w'"
  and op_bind_err [op_rules]: "m w = Some (Inl e, w') \<Longrightarrow> op_bind m f w = Some (Inl e, w')"
  and op_bind_none [op_rules]: "m w = None \<Longrightarrow> op_bind m f w = None"
  by (simp_all add: op_bind_def)

lemma op_match_ok [op_rules]: "m w = Some (Inr a, w') \<Longrightarrow> op_match m f g w = f a w'"
  and op_match_err [op_rules]: "m w = Some (Inl e, w') \<Longrightarrow> op_match m f g w = g e w'"
  and op_match_none [op_rules]: "m w = None \<Longrightarrow> op_match m f g w = None"
  by (simp_all add: op_match_def)

lemma op_map_err_ok [op_rules]: "m w = Some (Inr a, w') \<Longrightarrow> op_map_err h m w = Some (Inr a, w')"
  and op_map_err_err [op_rules]: "m w = Some (Inl e, w') \<Longrightarrow> op_map_err h m w = Some (Inl (h e), w')"
  by (simp_all add: op_map_err_def op_match_def op_return_def op_fail_def)

lemma op_bind_Some_cases:
  assumes "op_bind m f w = Some (r, w')"
  obtains (err) e where "m w = Some (Inl e, w')" "r = Inl e"
  | (ok) a u where "m w = Some (Inr a, u)" "f a u = Some (r, w')"
  using assms by (auto simp: op_bind_def split: option.splits prod.splits sum.splits)

lemma op_match_Some_cases:
  assumes "op_match m f g w = Some (r, w')"
  obtains (err) e u where "m w = Some (Inl e, u)" "g e u = Some (r, w')"
  | (ok) a u where "m w = Some (Inr a, u)" "f a u = Some (r, w')"
  using assms by (auto simp: op_match_def split: option.splits prod.splits sum.splits)

text \<open>
  Hoare-style statement: started where \<open>P\<close> holds, \<open>m\<close> returns successfully,
  and \<open>Q\<close> holds of the value and the state it leaves. It is a claim of total
  correctness.
\<close>

definition op_ok :: "('w \<Rightarrow> bool) \<Rightarrow> ('w, 'e, 'a) op \<Rightarrow> ('a \<Rightarrow> 'w \<Rightarrow> bool) \<Rightarrow> bool" where
  "op_ok P m Q \<longleftrightarrow> (\<forall>w. P w \<longrightarrow> (\<exists>a w'. m w = Some (Inr a, w') \<and> Q a w'))"

lemma op_okD: "op_ok P m Q \<Longrightarrow> P w \<Longrightarrow> \<exists>a w'. m w = Some (Inr a, w') \<and> Q a w'"
  by (simp add: op_ok_def)

lemma op_ok_return: "(\<And>w. P w \<Longrightarrow> Q a w) \<Longrightarrow> op_ok P (op_return a) Q"
  by (simp add: op_ok_def op_return_def)

lemma op_ok_bind:
  assumes "op_ok P m Q" "\<And>a. op_ok (Q a) (f a) R"
  shows "op_ok P (op_bind m f) R"
  using assms unfolding op_ok_def by (metis op_bind_ok)

lemma op_ok_match:
  assumes "op_ok P m Q" "\<And>a. op_ok (Q a) (f a) R"
  shows "op_ok P (op_match m f g) R"
  using assms unfolding op_ok_def by (metis op_match_ok)

lemma op_ok_map_err: "op_ok P m Q \<Longrightarrow> op_ok P (op_map_err h m) Q"
  unfolding op_ok_def by (metis op_map_err_ok)

lemma op_ok_weaken:
  "op_ok P m Q \<Longrightarrow> (\<And>w. P' w \<Longrightarrow> P w) \<Longrightarrow> (\<And>a w. Q a w \<Longrightarrow> Q' a w) \<Longrightarrow> op_ok P' m Q'"
  unfolding op_ok_def by metis

lemma op_ok_fold:
  assumes "\<And>x s. x \<in> set xs \<Longrightarrow> op_ok (I s) (f x s) (\<lambda>s' w. I s' w)"
  shows "op_ok (I s) (op_fold f xs s) I"
  using assms
proof (induction xs arbitrary: s)
  case Nil
  then show ?case by (simp add: op_ok_return)
next
  case (Cons x xs)
  then show ?case
    by (auto intro!: op_ok_bind)
qed

text \<open>
  What an operation may do to the state, whatever it returns: a relation between
  the state before and after, such as that nothing visible changes.
\<close>

definition op_within :: "('w \<Rightarrow> 'w \<Rightarrow> bool) \<Rightarrow> ('w, 'e, 'a) op \<Rightarrow> bool" where
  "op_within R m \<longleftrightarrow> (\<forall>w r w'. m w = Some (r, w') \<longrightarrow> R w w')"

lemma op_withinD: "op_within R m \<Longrightarrow> m w = Some (r, w') \<Longrightarrow> R w w'"
  by (simp add: op_within_def)

lemma op_within_pure:
  assumes "reflp R"
  shows "op_within R (op_return a)" "op_within R (op_fail e)" "op_within R (op_lift r)"
  using assms by (auto simp: op_within_def op_rules reflp_def)

lemma op_within_bind:
  assumes "transp R" "op_within R m" "\<And>a. op_within R (f a)"
  shows "op_within R (op_bind m f)"
  unfolding op_within_def
proof (intro allI impI)
  fix w r w'
  assume "op_bind m f w = Some (r, w')"
  then show "R w w'"
  proof (cases rule: op_bind_Some_cases)
    case (err e)
    show ?thesis by (rule op_withinD [OF assms(2) err(1)])
  next
    case (ok a u)
    then show ?thesis using transpD [OF assms(1)] op_withinD [OF assms(2)] op_withinD [OF assms(3)] by metis
  qed
qed

lemma op_within_match:
  assumes "transp R" "op_within R m" "\<And>a. op_within R (f a)" "\<And>e. op_within R (g e)"
  shows "op_within R (op_match m f g)"
  unfolding op_within_def
proof (intro allI impI)
  fix w r w'
  assume "op_match m f g w = Some (r, w')"
  then show "R w w'"
  proof (cases rule: op_match_Some_cases)
    case (err e u)
    then show ?thesis using transpD [OF assms(1)] op_withinD [OF assms(2)] op_withinD [OF assms(4)] by metis
  next
    case (ok a u)
    then show ?thesis using transpD [OF assms(1)] op_withinD [OF assms(2)] op_withinD [OF assms(3)] by metis
  qed
qed

lemma op_within_map_err: "op_within R m \<Longrightarrow> op_within R (op_map_err h m)"
  unfolding op_within_def op_map_err_def by (auto simp: op_rules elim!: op_match_Some_cases)

lemma op_map_err_Some_cases:
  assumes "op_map_err h m w = Some (r, w')"
  obtains (err) e where "m w = Some (Inl e, w')" "r = Inl (h e)"
  | (ok) a where "m w = Some (Inr a, w')" "r = Inr a"
  using assms by (auto simp: op_map_err_def op_rules elim!: op_match_Some_cases)

lemma op_result_ok:
  assumes "case x of Some (Inr a, w) \<Rightarrow> P a w | _ \<Rightarrow> False"
  obtains a w where "x = Some (Inr a, w)" "P a w"
proof (cases x)
  case (Some y)
  obtain r w where "y = (r, w)" by (cases y)
  with Some assms that show ?thesis by (cases r) simp_all
qed (use assms in simp)

end
