(* ===== verification/Ocx_Exit.thy ===== *)
theory Ocx_Exit
  imports Ocx_Prelude
begin

section \<open>Process exit codes\<close>

text \<open>
  \<open>crates/ocx_exit/src/exit_code.rs\<close> and \<open>error_category.rs\<close>: the codes a command
  ends with, their numbers and the category each is reported under. An error
  type gives a code by \<open>classify\<close>, a function of its own component; \<open>None\<close> defers
  to the error it wraps.
\<close>

datatype error_category =
    CatUsageError | CatConfigError | CatDataError | CatAuthError | CatPermissionDenied | CatNotFound
  | CatUnavailable | CatTempFail | CatUnsupported | CatIoError | CatInternal

datatype exit_code =
    Success | Failure | UsageError | DataError | Unavailable | IoError | TempFail | PermissionDenied
  | ConfigError | NotFound | AuthError | PolicyBlocked | Unsupported

definition exit_code_all :: "exit_code list" where
  "exit_code_all =
     [Success, Failure, UsageError, DataError, Unavailable, IoError, TempFail, PermissionDenied,
      ConfigError, NotFound, AuthError, PolicyBlocked, Unsupported]"

fun exit_value :: "exit_code \<Rightarrow> 8 word" where
  "exit_value Success = 0"
| "exit_value Failure = 1"
| "exit_value UsageError = 64"
| "exit_value DataError = 65"
| "exit_value Unavailable = 69"
| "exit_value IoError = 74"
| "exit_value TempFail = 75"
| "exit_value PermissionDenied = 77"
| "exit_value ConfigError = 78"
| "exit_value NotFound = 79"
| "exit_value AuthError = 80"
| "exit_value PolicyBlocked = 81"
| "exit_value Unsupported = 82"

fun exit_category :: "exit_code \<Rightarrow> error_category" where
  "exit_category Success = CatInternal"
| "exit_category Failure = CatInternal"
| "exit_category UsageError = CatUsageError"
| "exit_category DataError = CatDataError"
| "exit_category Unavailable = CatUnavailable"
| "exit_category IoError = CatIoError"
| "exit_category TempFail = CatTempFail"
| "exit_category PermissionDenied = CatPermissionDenied"
| "exit_category ConfigError = CatConfigError"
| "exit_category NotFound = CatNotFound"
| "exit_category AuthError = CatAuthError"
| "exit_category PolicyBlocked = CatPermissionDenied"
| "exit_category Unsupported = CatUnsupported"

definition retired :: "8 word list" where
  "retired = [83, 84, 85, 86, 87]"

lemma exit_code_all_complete: "c \<in> set exit_code_all"
  by (cases c) (simp_all add: exit_code_all_def)

lemma exit_value_inj: "exit_value c = exit_value d \<longleftrightarrow> c = d"
  by (cases c; cases d) simp_all

lemma exit_value_not_retired: "exit_value c \<notin> set retired"
  by (cases c) (simp_all add: retired_def)

end
