(* ===== verification/Ocx_Client.thy ===== *)
theory Ocx_Client
  imports Ocx_Reference Ocx_Effects Ocx_Collections Ocx_Exit
begin

section \<open>The registry client\<close>

text \<open>
  \<open>crates/ocx_oci/src/client.rs\<close> (the operations on tags and manifests of one
  registry, addressed canonically) and \<open>crates/ocx_oci/src/manifest.rs\<close> (image
  index admission and platform membership).

  The registry itself, the HTTP client behind the transport trait, the JSON
  codec and the hash functions are not part of the program: they are the fields
  of the record \<open>client\<close>. The state of the registry is the type \<open>'w\<close>, a
  document body is the type \<open>'b\<close>, and a platform as the wire format names it is
  the type \<open>'p\<close>. Uploading a package's layers is an argument of the push. An
  error keeps the source's variant; of its message only the varying part is kept.
\<close>

subsection \<open>Documents\<close>

type_synonym annotations = "(string \<times> string) list"

record 'p index_entry =
  e_media_type :: string
  e_digest :: string
  e_size :: i64
  e_platform :: "'p option"
  e_artifact_type :: "string option"
  e_annotations :: "annotations option"

record 'p image_index =
  ix_schema_version :: nat
  ix_media_type :: "string option"
  ix_artifact_type :: "string option"
  ix_manifests :: "'p index_entry list"
  ix_annotations :: "annotations option"

text \<open>
  \<open>oci_client\<close>'s \<open>OciManifest\<close>. The fields of a bare image manifest are never
  read by the operations here, so only its text is kept.
\<close>

datatype 'p manifest = Image string | ImageIndex "'p image_index"

definition index_schema_version :: nat where
  "index_schema_version = 2"

definition media_type_oci_image_index :: string where
  "media_type_oci_image_index = ''application/vnd.oci.image.index.v1+json''"

definition media_type_oci_image_manifest :: string where
  "media_type_oci_image_manifest = ''application/vnd.oci.image.manifest.v1+json''"

definition media_type_package_v1 :: string where
  "media_type_package_v1 = ''application/vnd.sh.ocx.package.v1''"

definition accepted_manifest_media_types :: "string list" where
  "accepted_manifest_media_types = [media_type_oci_image_manifest, media_type_oci_image_index]"

subsubsection \<open>Admission and platform membership (\<open>manifest.rs\<close>)\<close>

datatype invalid_image_index =
    WrongSchemaVersion nat
  | EmptyMediaType nat
  | EmptyDigest nat
  | NegativeSize nat i64

fun validate_entries :: "nat \<Rightarrow> 'p index_entry list \<Rightarrow> (invalid_image_index, unit) result" where
  "validate_entries position [] = Inr ()"
| "validate_entries position (e # es) =
     (if e_media_type e = [] then Inl (EmptyMediaType position)
      else if e_digest e = [] then Inl (EmptyDigest position)
      else if e_size e < 0 then Inl (NegativeSize position (e_size e))
      else validate_entries (Suc position) es)"

definition validate_image_index :: "'p image_index \<Rightarrow> (invalid_image_index, unit) result" where
  "validate_image_index ix =
     (if ix_schema_version ix \<noteq> index_schema_version then Inl (WrongSchemaVersion (ix_schema_version ix))
      else validate_entries 0 (ix_manifests ix))"

definition has_platform :: "'p manifest \<Rightarrow> 'p \<Rightarrow> bool" where
  "has_platform m p =
     (case m of
        Image _ \<Rightarrow> False
      | ImageIndex ix \<Rightarrow> list_ex (\<lambda>e. e_platform e = Some p) (ix_manifests ix))"

definition platform_manifest_entry :: "'p manifest \<Rightarrow> 'p \<Rightarrow> 'p index_entry option" where
  "platform_manifest_entry m p =
     (case m of
        Image _ \<Rightarrow> None
      | ImageIndex ix \<Rightarrow> List.find (\<lambda>e. e_platform e = Some p) (ix_manifests ix))"

definition platform_manifest_digest :: "'p manifest \<Rightarrow> 'p \<Rightarrow> digest option" where
  "platform_manifest_digest m p =
     Option.bind (platform_manifest_entry m p)
       (\<lambda>e. case digest_try_from (e_digest e) of Inr d \<Rightarrow> Some d | Inl _ \<Rightarrow> None)"

subsection \<open>Errors, references and the client\<close>

datatype not_found_code = ManifestUnknown | NameUnknown | Unspecified

datatype manifest_presence = ManifestPresent digest | ManifestAbsent not_found_code

datatype delete_outcome = TagDeleted | TagAlreadyAbsent

datatype registry_operation = OpPull | OpPush | OpDelete

datatype traversal_limit = ReferrerDepth | ReferrersPerLeaf | BlobsPerManifest

datatype client_error =
    Authentication string
  | DigestMismatch string string
  | ShortBlobRead nat nat
  | DecompressionCapExceeded nat
  | UnexpectedManifestType
  | InvalidManifest string
  | NotAManifest string
  | InvalidImageIndex invalid_image_index
  | UnexpectedArtifactType string "string option"
  | WrongLayerCount nat
  | UnexpectedLayerMediaType string string
  | LayerSizeExceeded i64 nat
  | TraversalLimitExceeded traversal_limit nat nat string
  | ManifestNotFound string
  | RepositoryNotFound string
  | BlobNotFound pinned_oci_identifier
  | Registry string
  | UnsafeDestination string
  | UnfollowedRedirect string
  | RegistryTransient string
  | Io string string
  | Serialization string
  | InvalidEncoding string
  | DigestError digest_error
  | InternalError string
  | MirroredError string string native_reference client_error
  | ReferrersUnsupported string
  | DeleteUnsupported string nat
  | DeleteNeedsTag string
  | InvalidTag string

text \<open>
  The \<open>exit\<close> attributes: the code of each error. An internal error defers to what
  it wraps, a mirrored one has the code of the error behind the mirror.
\<close>

fun client_exit_code :: "client_error \<Rightarrow> exit_code option" where
  "client_exit_code (Authentication _) = Some AuthError"
| "client_exit_code (DigestMismatch _ _) = Some DataError"
| "client_exit_code (ShortBlobRead _ _) = Some TempFail"
| "client_exit_code (DecompressionCapExceeded _) = Some DataError"
| "client_exit_code UnexpectedManifestType = Some DataError"
| "client_exit_code (InvalidManifest _) = Some DataError"
| "client_exit_code (NotAManifest _) = Some DataError"
| "client_exit_code (InvalidImageIndex _) = Some DataError"
| "client_exit_code (UnexpectedArtifactType _ _) = Some DataError"
| "client_exit_code (WrongLayerCount _) = Some DataError"
| "client_exit_code (UnexpectedLayerMediaType _ _) = Some DataError"
| "client_exit_code (LayerSizeExceeded _ _) = Some DataError"
| "client_exit_code (TraversalLimitExceeded _ _ _ _) = Some DataError"
| "client_exit_code (ManifestNotFound _) = Some NotFound"
| "client_exit_code (RepositoryNotFound _) = Some NotFound"
| "client_exit_code (BlobNotFound _) = Some NotFound"
| "client_exit_code (Registry _) = Some Unavailable"
| "client_exit_code (UnsafeDestination _) = Some DataError"
| "client_exit_code (UnfollowedRedirect _) = Some DataError"
| "client_exit_code (RegistryTransient _) = Some TempFail"
| "client_exit_code (Io _ _) = Some IoError"
| "client_exit_code (Serialization _) = Some DataError"
| "client_exit_code (InvalidEncoding _) = Some DataError"
| "client_exit_code (DigestError _) = Some DataError"
| "client_exit_code (InternalError _) = None"
| "client_exit_code (MirroredError _ _ _ e) = client_exit_code e"
| "client_exit_code (ReferrersUnsupported _) = Some Unsupported"
| "client_exit_code (DeleteUnsupported _ _) = Some Unsupported"
| "client_exit_code (DeleteNeedsTag _) = Some UsageError"
| "client_exit_code (InvalidTag _) = Some UsageError"

text \<open>\<open>client/mirror_map.rs\<close>: a registry's mirror, looked up by host.\<close>

record parsed_mirror =
  pm_protocol :: string
  pm_host :: string
  pm_path_prefix :: string

type_synonym mirror_map = "string \<Rightarrow> parsed_mirror option"

definition rewrite_repository :: "mirror_map \<Rightarrow> string \<Rightarrow> string \<Rightarrow> (string \<times> string) option" where
  "rewrite_repository mirrors registry repository =
     (case mirrors registry of
        None \<Rightarrow> None
      | Some mirror \<Rightarrow>
          Some (pm_host mirror,
                if pm_path_prefix mirror = [] then repository
                else if repository = [] then pm_path_prefix mirror
                else pm_path_prefix mirror @ ''/'' @ repository))"

datatype read_addressing = Mirrored | Canonical

record ('w, 'b, 'p) client =
  t_ensure_auth :: "native_reference \<Rightarrow> registry_operation \<Rightarrow> ('w, client_error, unit) op"
  t_list_tags :: "native_reference \<Rightarrow> nat \<Rightarrow> string option \<Rightarrow> ('w, client_error, string list) op"
  t_fetch_manifest_digest :: "native_reference \<Rightarrow> ('w, client_error, string) op"
  t_pull_manifest_raw :: "native_reference \<Rightarrow> string list \<Rightarrow> ('w, client_error, 'b \<times> string) op"
  t_push_manifest_raw :: "native_reference \<Rightarrow> 'b \<Rightarrow> string \<Rightarrow> ('w, client_error, string) op"
  t_delete_manifest :: "native_reference \<Rightarrow> ('w, client_error, delete_outcome) op"
  t_probe_manifest :: "native_reference \<Rightarrow> ('w, client_error, manifest_presence) op"
  tag_chunk_size :: nat
  mirrors :: mirror_map
  body_len :: "'b \<Rightarrow> nat"
  from_slice :: "'b \<Rightarrow> (string, 'p manifest) result"
  to_vec :: "'p image_index \<Rightarrow> (string, 'b) result"
  hash_hex :: "algorithm \<Rightarrow> 'b \<Rightarrow> string"

text \<open>\<open>Algorithm::hash\<close>.\<close>

definition hash_body :: "('w, 'b, 'p) client \<Rightarrow> algorithm \<Rightarrow> 'b \<Rightarrow> digest" where
  "hash_body c a b = Digest a (hash_hex c a b)"

text \<open>\<open>Client::via_mirror\<close>: only failures that a mirror can have caused are wrapped.\<close>

fun mirror_blamed :: "client_error \<Rightarrow> bool" where
  "mirror_blamed (Registry _) = True"
| "mirror_blamed (RegistryTransient _) = True"
| "mirror_blamed (UnsafeDestination _) = True"
| "mirror_blamed (UnfollowedRedirect _) = True"
| "mirror_blamed (Authentication _) = True"
| "mirror_blamed (NotAManifest _) = True"
| "mirror_blamed UnexpectedManifestType = True"
| "mirror_blamed (DigestMismatch _ _) = True"
| "mirror_blamed (ShortBlobRead _ _) = True"
| "mirror_blamed (InvalidManifest _) = True"
| "mirror_blamed (InvalidImageIndex _) = True"
| "mirror_blamed (Serialization _) = True"
| "mirror_blamed _ = False"

definition via_mirror ::
  "('w, 'b, 'p) client \<Rightarrow> oci_identifier \<Rightarrow> native_reference \<Rightarrow> client_error \<Rightarrow> client_error" where
  "via_mirror c logical physical e =
     (if \<not> mirror_blamed e then e
      else case mirrors c (pr_registry logical) of
             Some mirror \<Rightarrow>
               (if pm_host mirror = nr_registry physical
                then MirroredError (pr_registry logical) (pm_host mirror) physical e else e)
           | None \<Rightarrow> e)"

definition transport_reference :: "('w, 'b, 'p) client \<Rightarrow> oci_identifier \<Rightarrow> native_reference" where
  "transport_reference c identifier =
     (case rewrite_repository (mirrors c) (pr_registry identifier) (pr_repository identifier) of
        None \<Rightarrow> canonical_reference identifier
      | Some (host, repository) \<Rightarrow>
          (let at = (\<lambda>t d. \<lparr>nr_registry = host, nr_repository = repository, nr_tag = t, nr_digest = d\<rparr>)
           in case (pr_tag identifier, pr_digest identifier) of
                (Some t, Some d) \<Rightarrow> at (Some t) (Some (digest_to_string d))
              | (Some t, None) \<Rightarrow> at (Some t) None
              | (None, Some d) \<Rightarrow> at None (Some (digest_to_string d))
              | (None, None) \<Rightarrow> at (Some ''latest'') None))"

definition read_reference ::
  "('w, 'b, 'p) client \<Rightarrow> oci_identifier \<Rightarrow> read_addressing \<Rightarrow> native_reference" where
  "read_reference c identifier addressing =
     (case addressing of
        Mirrored \<Rightarrow> transport_reference c identifier
      | Canonical \<Rightarrow> canonical_reference identifier)"

definition transport_write_reference :: "('w, 'b, 'p) client \<Rightarrow> oci_identifier \<Rightarrow> native_reference" where
  "transport_write_reference c identifier = canonical_reference identifier"

definition max_oci_tag_len :: nat where
  "max_oci_tag_len = 128"

definition max_index_document_bytes :: nat where
  "max_index_document_bytes = 32 * 1024 * 1024"

definition i64_max :: nat where
  "i64_max = 2 ^ 63 - 1"

definition is_valid_oci_tag :: "string \<Rightarrow> bool" where
  "is_valid_oci_tag tag =
     (case tag of
        [] \<Rightarrow> False
      | first # chars \<Rightarrow>
          (is_ascii_alphanumeric first \<or> first = CHR ''_'') \<and> length tag \<le> max_oci_tag_len
          \<and> list_all (\<lambda>c. is_ascii_alphanumeric c \<or> c \<in> {CHR ''.'', CHR ''_'', CHR ''-''}) chars)"

subsection \<open>Reading\<close>

definition parse_registry_manifest :: "('w, 'b, 'p) client \<Rightarrow> 'b \<Rightarrow> (client_error, 'p manifest) result" where
  "parse_registry_manifest c bytes =
     (case from_slice c bytes of
        Inl e \<Rightarrow> Inl (Serialization e)
      | Inr (Image m) \<Rightarrow> Inr (Image m)
      | Inr (ImageIndex ix) \<Rightarrow>
          (case validate_image_index ix of
             Inl e \<Rightarrow> Inl (InvalidImageIndex e)
           | Inr _ \<Rightarrow> Inr (ImageIndex ix)))"

definition verify_raw_bytes_digest :: "('w, 'b, 'p) client \<Rightarrow> 'b \<Rightarrow> digest \<Rightarrow> (client_error, unit) result" where
  "verify_raw_bytes_digest c raw_bytes claimed =
     (let recomputed = hash_body c (digest_algorithm claimed) raw_bytes
      in if recomputed \<noteq> claimed
         then Inl (DigestMismatch (digest_to_string claimed) (digest_to_string recomputed))
         else Inr ())"

definition parse_served_digest :: "string \<Rightarrow> (client_error, digest) result" where
  "parse_served_digest s = (case digest_try_from s of Inl e \<Rightarrow> Inl (DigestError e) | Inr d \<Rightarrow> Inr d)"

definition ensure_auth ::
  "('w, 'b, 'p) client \<Rightarrow> oci_identifier \<Rightarrow> registry_operation \<Rightarrow> ('w, client_error, unit) op" where
  "ensure_auth c identifier operation =
     t_ensure_auth c
       (case operation of
          OpPush \<Rightarrow> canonical_reference identifier
        | OpDelete \<Rightarrow> canonical_reference identifier
        | OpPull \<Rightarrow> transport_reference c identifier) operation"

definition fetch_manifest_raw ::
  "('w, 'b, 'p) client \<Rightarrow> native_reference \<Rightarrow> ('w, client_error, 'p manifest \<times> string) op" where
  "fetch_manifest_raw c img =
     op_bind (t_pull_manifest_raw c img accepted_manifest_media_types) (\<lambda>(data, d).
     op_bind (op_lift (parse_registry_manifest c data)) (\<lambda>m.
     op_return (m, d)))"

definition fetch_manifest_addressed ::
  "('w, 'b, 'p) client \<Rightarrow> oci_identifier \<Rightarrow> read_addressing \<Rightarrow> ('w, client_error, digest \<times> 'p manifest) op" where
  "fetch_manifest_addressed c identifier addressing =
     (let ref = read_reference c identifier addressing
      in op_bind (op_map_err (via_mirror c identifier ref) (t_ensure_auth c ref OpPull)) (\<lambda>_.
         op_bind (op_map_err (via_mirror c identifier ref) (fetch_manifest_raw c ref)) (\<lambda>(m, digest_str).
         op_bind (op_lift (parse_served_digest digest_str)) (\<lambda>d.
         op_return (d, m)))))"

definition fetch_manifest ::
  "('w, 'b, 'p) client \<Rightarrow> oci_identifier \<Rightarrow> ('w, client_error, digest \<times> 'p manifest) op" where
  "fetch_manifest c identifier = fetch_manifest_addressed c identifier Canonical"

definition fetch_manifest_digest_addressed ::
  "('w, 'b, 'p) client \<Rightarrow> oci_identifier \<Rightarrow> read_addressing \<Rightarrow> ('w, client_error, digest) op" where
  "fetch_manifest_digest_addressed c identifier addressing =
     (let ref = read_reference c identifier addressing
      in op_bind (op_map_err (via_mirror c identifier ref) (t_ensure_auth c ref OpPull)) (\<lambda>_.
         op_bind (op_map_err (via_mirror c identifier ref) (t_fetch_manifest_digest c ref)) (\<lambda>s.
         op_lift (parse_served_digest s))))"

text \<open>
  \<open>probe_manifest_digest_addressed\<close>: a HEAD; an absent manifest is \<open>None\<close>, every
  other failure an error.
\<close>

definition probe_manifest_digest_addressed ::
  "('w, 'b, 'p) client \<Rightarrow> oci_identifier \<Rightarrow> read_addressing \<Rightarrow> ('w, client_error, digest option) op" where
  "probe_manifest_digest_addressed c identifier addressing =
     (let img = read_reference c identifier addressing
      in op_bind (op_map_err (via_mirror c identifier img) (t_ensure_auth c img OpPull)) (\<lambda>_.
         op_match (t_fetch_manifest_digest c img)
           (\<lambda>digest_str.
              case digest_try_from digest_str of
                Inr d \<Rightarrow> op_return (Some d)
              | Inl _ \<Rightarrow> op_fail (InvalidManifest digest_str))
           (\<lambda>e. case e of
                  ManifestNotFound _ \<Rightarrow> op_return None
                | _ \<Rightarrow> op_fail (via_mirror c identifier img e))))"

definition fetch_manifest_raw_bytes_capped ::
  "('w, 'b, 'p) client \<Rightarrow> oci_identifier \<Rightarrow> nat \<Rightarrow> read_addressing \<Rightarrow>
   ('w, client_error, ('b \<times> digest \<times> 'p manifest) option) op" where
  "fetch_manifest_raw_bytes_capped c identifier max_bytes addressing =
     (if (case pr_tag identifier of Some t \<Rightarrow> \<not> is_valid_oci_tag t | None \<Rightarrow> False)
      then op_fail (InvalidTag (package_ref_to_string identifier))
      else let img = read_reference c identifier addressing; mirrored = via_mirror c identifier img
      in op_bind (op_map_err mirrored (t_ensure_auth c img OpPull)) (\<lambda>_.
         op_match (t_pull_manifest_raw c img accepted_manifest_media_types)
           (\<lambda>(raw_bytes, digest_str).
              if max_bytes < body_len c raw_bytes
              then op_fail (InvalidManifest ''manifest body exceeds the cap'')
              else
                op_bind (op_map_err mirrored (op_lift (parse_registry_manifest c raw_bytes))) (\<lambda>m.
                case digest_try_from digest_str of
                  Inl _ \<Rightarrow> op_fail (InvalidManifest digest_str)
                | Inr d \<Rightarrow>
                    op_bind
                      (case pr_digest identifier of
                         Some requested \<Rightarrow>
                           (if requested \<noteq> d
                            then op_fail (mirrored (DigestMismatch (digest_to_string requested) (digest_to_string d)))
                            else op_return ())
                       | None \<Rightarrow> op_return ()) (\<lambda>_.
                    op_bind (op_map_err mirrored (op_lift (verify_raw_bytes_digest c raw_bytes d))) (\<lambda>_.
                    op_return (Some (raw_bytes, d, m))))))
           (\<lambda>e. case e of
                  ManifestNotFound _ \<Rightarrow> op_return None
                | _ \<Rightarrow> op_fail (mirrored e))))"

definition fetch_manifest_raw_bytes_addressed ::
  "('w, 'b, 'p) client \<Rightarrow> oci_identifier \<Rightarrow> read_addressing \<Rightarrow>
   ('w, client_error, ('b \<times> digest \<times> 'p manifest) option) op" where
  "fetch_manifest_raw_bytes_addressed c identifier addressing =
     fetch_manifest_raw_bytes_capped c identifier max_index_document_bytes addressing"

definition fetch_manifest_raw_bytes ::
  "('w, 'b, 'p) client \<Rightarrow> oci_identifier \<Rightarrow> ('w, client_error, ('b \<times> digest \<times> 'p manifest) option) op" where
  "fetch_manifest_raw_bytes c identifier =
     fetch_manifest_raw_bytes_capped c identifier max_index_document_bytes Canonical"

subsubsection \<open>Tag listings\<close>

text \<open>
  \<open>paginate\<close>: pages are requested after the last item seen, until one is
  shorter than the page size. A registry that keeps serving full pages keeps
  the loop running, which is \<open>None\<close>.
\<close>

partial_function (option) paginate ::
  "nat \<Rightarrow> (nat \<Rightarrow> string option \<Rightarrow> ('w, client_error, string list) op) \<Rightarrow> string list \<Rightarrow>
   'w \<Rightarrow> ((client_error, string list) result \<times> 'w) option" where
  "paginate chunk_size fetch items w =
     (case fetch chunk_size (if items = [] then Some [] else Some (last items)) w of
        None \<Rightarrow> None
      | Some (Inl e, w') \<Rightarrow> Some (Inl e, w')
      | Some (Inr page, w') \<Rightarrow>
          (if length page < chunk_size then Some (Inr (items @ page), w')
           else paginate chunk_size fetch (items @ page) w'))"

definition list_tags_addressed ::
  "('w, 'b, 'p) client \<Rightarrow> oci_identifier \<Rightarrow> read_addressing \<Rightarrow> ('w, client_error, string list) op" where
  "list_tags_addressed c identifier addressing =
     (let img = read_reference c identifier addressing
      in op_bind (t_ensure_auth c img OpPull) (\<lambda>_.
         paginate (tag_chunk_size c) (t_list_tags c img) []))"

definition list_tags :: "('w, 'b, 'p) client \<Rightarrow> oci_identifier \<Rightarrow> ('w, client_error, string list) op" where
  "list_tags c identifier = list_tags_addressed c identifier Canonical"

definition list_tags_or_empty_addressed ::
  "('w, 'b, 'p) client \<Rightarrow> oci_identifier \<Rightarrow> read_addressing \<Rightarrow> ('w, client_error, string list) op" where
  "list_tags_or_empty_addressed c identifier addressing =
     op_match (list_tags_addressed c identifier addressing) op_return
       (\<lambda>e. case e of RepositoryNotFound _ \<Rightarrow> op_return [] | _ \<Rightarrow> op_fail e)"

subsection \<open>Writing\<close>

definition fresh_index :: "'p index_entry list \<Rightarrow> 'p image_index" where
  "fresh_index entries =
     \<lparr>ix_schema_version = index_schema_version, ix_media_type = Some media_type_oci_image_index,
      ix_artifact_type = None, ix_manifests = entries, ix_annotations = None\<rparr>"

definition plain_entry :: "string \<Rightarrow> i64 \<Rightarrow> 'p option \<Rightarrow> 'p index_entry" where
  "plain_entry d sz p =
     \<lparr>e_media_type = media_type_oci_image_manifest, e_digest = d, e_size = sz, e_platform = p,
      e_artifact_type = None, e_annotations = None\<rparr>"

text \<open>The change \<open>merge_platform_into_index\<close> makes to the index it read.\<close>

definition merge_entry :: "'p \<Rightarrow> string \<Rightarrow> i64 \<Rightarrow> annotations \<Rightarrow> 'p image_index \<Rightarrow> 'p image_index" where
  "merge_entry p manifest_sha256 manifest_size annotations ix =
     ix\<lparr>ix_artifact_type := (case ix_artifact_type ix of None \<Rightarrow> Some media_type_package_v1 | Some t \<Rightarrow> Some t),
        ix_manifests := filter (\<lambda>e. e_platform e \<noteq> Some p) (ix_manifests ix)
                          @ [plain_entry manifest_sha256 manifest_size (Some p)],
        ix_annotations :=
          (if annotations = [] then ix_annotations ix
           else Some (fold (\<lambda>(k, v) m. bt_insert k v m) annotations
                        (case ix_annotations ix of Some m \<Rightarrow> m | None \<Rightarrow> [])))\<rparr>"

definition push_index_body ::
  "('w, 'b, 'p) client \<Rightarrow> native_reference \<Rightarrow> 'p image_index \<Rightarrow> ('w, client_error, digest) op" where
  "push_index_body c ref ix =
     (case to_vec c ix of
        Inl e \<Rightarrow> op_fail (Serialization e)
      | Inr index_data \<Rightarrow>
          op_bind (t_push_manifest_raw c ref index_data media_type_oci_image_index) (\<lambda>_.
          op_return (hash_body c Sha256 index_data)))"

definition merge_platform_into_index ::
  "('w, 'b, 'p) client \<Rightarrow> oci_identifier \<Rightarrow> string \<Rightarrow> 'p \<Rightarrow> string \<Rightarrow> i64 \<Rightarrow> annotations \<Rightarrow>
   ('w, client_error, digest \<times> 'p image_index) op" where
  "merge_platform_into_index c source_identifier target_tag p manifest_sha256 manifest_size annotations =
     (let ref = canonical_reference (clone_with_tag source_identifier target_tag)
      in op_bind (t_ensure_auth c ref OpPush) (\<lambda>_.
         op_bind
           (op_match (t_pull_manifest_raw c ref [media_type_oci_image_manifest, media_type_oci_image_index])
              (\<lambda>(blob, digest_str).
                 op_bind (op_lift (parse_registry_manifest c blob)) (\<lambda>existing.
                 case existing of
                   Image _ \<Rightarrow>
                     (if i64_max < body_len c blob
                      then op_fail (InvalidManifest ''existing manifest blob size exceeds i64::MAX'')
                      else op_return (fresh_index [plain_entry digest_str (int (body_len c blob)) None]))
                 | ImageIndex ix \<Rightarrow> op_return ix))
              (\<lambda>e. case e of
                     ManifestNotFound _ \<Rightarrow> op_return (fresh_index [])
                   | _ \<Rightarrow> op_fail e)) (\<lambda>ix.
         let merged = merge_entry p manifest_sha256 manifest_size annotations ix
         in op_bind (push_index_body c ref merged) (\<lambda>d. op_return (d, merged)))))"

definition push_index ::
  "('w, 'b, 'p) client \<Rightarrow> oci_identifier \<Rightarrow> 'p image_index \<Rightarrow> ('w, client_error, digest) op" where
  "push_index c identifier ix =
     (let ref = canonical_reference identifier
      in op_bind (t_ensure_auth c ref OpPush) (\<lambda>_. push_index_body c ref ix))"

definition keep_tag_of :: "digest \<Rightarrow> string" where
  "keep_tag_of d = (case digest_parts d of (a, hex) \<Rightarrow> keep_tag_prefix @ a @ ''-'' @ hex)"

definition push_keep_tag ::
  "('w, 'b, 'p) client \<Rightarrow> oci_identifier \<Rightarrow> 'p manifest \<Rightarrow> 'p \<Rightarrow> ('w, client_error, string option) op" where
  "push_keep_tag c source_identifier merged p =
     (case platform_manifest_digest merged p of
        None \<Rightarrow> op_return None
      | Some d \<Rightarrow>
          (let tag = keep_tag_of d
           in if max_oci_tag_len < length tag then op_return None
              else
                op_bind (t_ensure_auth c (canonical_reference source_identifier) OpPush) (\<lambda>_.
                op_bind (t_pull_manifest_raw c
                          (canonical_reference (clone_with_digest (without_tag source_identifier) d))
                          [media_type_oci_image_manifest]) (\<lambda>(manifest_bytes, _).
                op_bind (t_push_manifest_raw c (canonical_reference (clone_with_tag source_identifier tag))
                          manifest_bytes media_type_oci_image_manifest) (\<lambda>_.
                op_return (Some tag))))))"

definition delete_tag :: "('w, 'b, 'p) client \<Rightarrow> oci_identifier \<Rightarrow> ('w, client_error, delete_outcome) op" where
  "delete_tag c identifier =
     (case (pr_tag identifier, pr_digest identifier) of
        (Some tag, None) \<Rightarrow>
          (if \<not> is_valid_oci_tag tag then op_fail (InvalidTag (package_ref_to_string identifier))
           else let img = canonical_reference identifier
                in op_bind (t_ensure_auth c img OpDelete) (\<lambda>_. t_delete_manifest c img))
      | _ \<Rightarrow> op_fail (DeleteNeedsTag (package_ref_to_string identifier)))"

definition probe_manifest_canonical ::
  "('w, 'b, 'p) client \<Rightarrow> oci_identifier \<Rightarrow> ('w, client_error, manifest_presence) op" where
  "probe_manifest_canonical c identifier =
     (case pr_tag identifier of
        Some tag \<Rightarrow>
          (if \<not> is_valid_oci_tag tag then op_fail (InvalidTag (package_ref_to_string identifier))
           else let img = canonical_reference identifier
                in op_bind (t_ensure_auth c img OpPull) (\<lambda>_. t_probe_manifest c img))
      | None \<Rightarrow>
          (let img = canonical_reference identifier
           in op_bind (t_ensure_auth c img OpPull) (\<lambda>_. t_probe_manifest c img)))"

text \<open>
  \<open>push_manifest_and_merge_tags\<close>. Building the manifest and uploading its config
  and layers (\<open>push_multi_layer_manifest\<close>) is the argument \<open>upload\<close>, which gives
  the size and digest text of the manifest it pushed.
\<close>

definition push_manifest_and_merge_tags ::
  "('w, 'b, 'p) client \<Rightarrow> oci_identifier \<Rightarrow> 'p \<Rightarrow> ('w, client_error, nat \<times> string \<times> 'l) op \<Rightarrow>
   string list \<Rightarrow> annotations \<Rightarrow> ('w, client_error, digest \<times> 'p image_index \<times> 'l) op" where
  "push_manifest_and_merge_tags c identifier p upload extra_tags annotations =
     op_bind (t_ensure_auth c (canonical_reference identifier) OpPush) (\<lambda>_.
     op_bind upload (\<lambda>(manifest_len, manifest_sha256, layer_counts).
     if i64_max < manifest_len then op_fail (InvalidManifest ''manifest size exceeds i64::MAX'')
     else let merge = (\<lambda>tag. merge_platform_into_index c identifier tag p manifest_sha256 (int manifest_len) annotations)
     in op_bind (merge (tag_or_latest identifier)) (\<lambda>(index_digest, ix).
        op_bind (op_each merge extra_tags) (\<lambda>_.
        op_return (index_digest, ix, layer_counts)))))"

subsection \<open>Image indexes as slots per platform\<close>

text \<open>
  What the users of an index rely on: the entries of a platform, and that a
  merge replaces exactly those of its own platform. The laws are the interface
  between the client and the cascade.
\<close>

locale platform_slots =
  fixes entries_for :: "'ix \<Rightarrow> 'p \<Rightarrow> 'e list"
    and entry :: "'p \<Rightarrow> 'x \<Rightarrow> 'e"
    and merge :: "'p \<Rightarrow> 'x \<Rightarrow> 'ix \<Rightarrow> 'ix"
  assumes entries_merge_same: "entries_for (merge p x ix) p = [entry p x]"
    and entries_merge_other: "q \<noteq> p \<Longrightarrow> entries_for (merge p x ix) q = entries_for ix q"
begin

lemma entries_merge: "entries_for (merge p x ix) q = (if q = p then [entry p x] else entries_for ix q)"
  by (simp add: entries_merge_same entries_merge_other)

text \<open>After a sequence of merges a platform has the entry merged for it last.\<close>

lemma entries_merges:
  "entries_for (fold (\<lambda>(p, x). merge p x) writes ix) q =
     (case map_of (rev writes) q of Some x \<Rightarrow> [entry q x] | None \<Rightarrow> entries_for ix q)"
  by (induction writes arbitrary: ix)
    (auto simp: entries_merge map_add_def split: option.split)

lemma entries_unique:
  "(\<And>q. length (entries_for ix q) \<le> 1) \<Longrightarrow> length (entries_for (merge p x ix) q) \<le> 1"
  by (simp add: entries_merge)

end

definition platform_entries :: "'p image_index \<Rightarrow> 'p \<Rightarrow> 'p index_entry list" where
  "platform_entries ix p = filter (\<lambda>e. e_platform e = Some p) (ix_manifests ix)"

interpretation slots: platform_slots platform_entries
  "\<lambda>p (sha, sz, ann). plain_entry sha sz (Some p)" "\<lambda>p (sha, sz, ann). merge_entry p sha sz ann"
proof
  fix p q :: 'a and x :: "string \<times> i64 \<times> annotations" and ix :: "'a image_index"
  obtain sha sz ann where x: "x = (sha, sz, ann)" by (cases x)
  have *: "filter (\<lambda>e. e_platform e = Some q) (filter (\<lambda>e. e_platform e \<noteq> Some p) es)
      = (if q = p then [] else filter (\<lambda>e. e_platform e = Some q) es)" for q and es :: "'a index_entry list"
    by (induction es) auto
  show "platform_entries ((case x of (sha, sz, ann) \<Rightarrow> merge_entry p sha sz ann) ix) p
      = [case x of (sha, sz, ann) \<Rightarrow> plain_entry sha sz (Some p)]"
    by (simp add: x platform_entries_def merge_entry_def plain_entry_def * [of p, simplified])
  assume "q \<noteq> p"
  then show "platform_entries ((case x of (sha, sz, ann) \<Rightarrow> merge_entry p sha sz ann) ix) q = platform_entries ix q"
    by (simp add: x platform_entries_def merge_entry_def plain_entry_def * [simplified])
qed

lemmas platform_entries_merge = slots.entries_merge [where x = "(sha, sz, ann)" for sha sz ann, simplified]

lemma has_platform_entries: "has_platform (ImageIndex ix) p \<longleftrightarrow> platform_entries ix p \<noteq> []"
  by (auto simp: has_platform_def platform_entries_def list_ex_iff filter_empty_conv)

text \<open>What \<open>validate_image_index\<close> admits, and that a merge of a proper entry keeps it.\<close>

definition entry_ok :: "'p index_entry \<Rightarrow> bool" where
  "entry_ok e \<longleftrightarrow> e_media_type e \<noteq> [] \<and> e_digest e \<noteq> [] \<and> 0 \<le> e_size e"

lemma validate_entries_ok: "validate_entries n es = Inr () \<longleftrightarrow> list_all entry_ok es"
  by (induction es arbitrary: n) (auto simp: entry_ok_def)

lemma validate_image_index_ok:
  "validate_image_index ix = Inr () \<longleftrightarrow>
     ix_schema_version ix = index_schema_version \<and> list_all entry_ok (ix_manifests ix)"
  by (auto simp: validate_image_index_def validate_entries_ok)

lemma merge_entry_valid:
  assumes "validate_image_index ix = Inr ()" "sha \<noteq> []" "0 \<le> sz"
  shows "validate_image_index (merge_entry p sha sz ann ix) = Inr ()"
  using assms
  by (auto simp: validate_image_index_ok merge_entry_def list_all_iff entry_ok_def plain_entry_def
      media_type_oci_image_manifest_def)

lemma fresh_index_valid: "validate_image_index (fresh_index []) = Inr ()"
  by (simp add: validate_image_index_ok fresh_index_def)

subsection \<open>Pagination\<close>

text \<open>
  A registry that answers a page request with the next items in ascending order,
  as the distribution specification has it, is listed completely.
\<close>

definition serves_pages ::
  "(nat \<Rightarrow> string option \<Rightarrow> ('w, client_error, string list) op) \<Rightarrow> ('w \<Rightarrow> bool) \<Rightarrow> string list \<Rightarrow> bool" where
  "serves_pages fetch I items \<longleftrightarrow>
     (\<forall>w n c. I w \<longrightarrow> (\<exists>w'. fetch n (Some c) w = Some (Inr (take n (filter (\<lambda>t. c < t) items)), w') \<and> I w'))"

lemma ascending_after:
  fixes x :: "'a::linorder"
  assumes "sorted_wrt (<) (a @ [x] @ b)"
  shows "filter (\<lambda>t. x < t) (a @ [x] @ b) = b"
proof -
  have "filter (\<lambda>t. x < t) a = []"
    using assms by (auto simp: sorted_wrt_append filter_empty_conv dest: less_asym)
  moreover have "filter (\<lambda>t. x < t) b = b"
    using assms by (auto simp: sorted_wrt_append filter_id_conv)
  ultimately show ?thesis by simp
qed

lemma paginate_within:
  fixes fetch :: "nat \<Rightarrow> string option \<Rightarrow> ('w, client_error, string list) op"
  assumes "transp R" "\<And>n cursor. op_within R (fetch n cursor)"
  shows "op_within R (paginate n fetch items)"
proof -
  have "(\<forall>n cursor. op_within R (fetch n cursor)) \<longrightarrow> R w (snd y)" if "paginate n fetch items w = Some y"
    for n items w y and fetch :: "nat \<Rightarrow> string option \<Rightarrow> ('w, client_error, string list) op"
  proof (rule paginate.raw_induct [OF _ that])
    fix self :: "nat \<Rightarrow> (nat \<Rightarrow> string option \<Rightarrow> ('w, client_error, string list) op) \<Rightarrow> string list \<Rightarrow> 'w \<Rightarrow> ((client_error, string list) result \<times> 'w) option"
      and n fetch items w y
    assume self: "\<And>n fetch items w y. self n fetch items w = Some y \<Longrightarrow> (\<forall>n cursor. op_within R (fetch n cursor)) \<longrightarrow> R w (snd y)"
      and step: "(case fetch n (if items = [] then Some [] else Some (last items)) w of
        None \<Rightarrow> None
      | Some (Inl e, w') \<Rightarrow> Some (Inl e, w')
      | Some (Inr page, w') \<Rightarrow>
          if length page < n then Some (Inr (items @ page), w') else self n fetch (items @ page) w') = Some y"
    show "(\<forall>n cursor. op_within R (fetch n cursor)) \<longrightarrow> R w (snd y)"
    proof
      assume within: "\<forall>n cursor. op_within R (fetch n cursor)"
      let ?cursor = "if items = [] then Some [] else Some (last items)"
      obtain r w1 where fetch: "fetch n ?cursor w = Some (r, w1)"
        using step by (cases "fetch n ?cursor w") auto
      then have first: "R w w1" using within op_withinD by metis
      show "R w (snd y)"
      proof (cases r)
        case (Inl e)
        then show ?thesis using step fetch first by auto
      next
        case (Inr page)
        show ?thesis
        proof (cases "length page < n")
          case True
          then show ?thesis using step fetch first Inr by auto
        next
          case False
          then have "self n fetch (items @ page) w1 = Some y" using step fetch Inr by simp
          then have "R w1 (snd y)" using self within by blast
          then show ?thesis using first transpD [OF assms(1)] by blast
        qed
      qed
    qed
  qed
  then show ?thesis using assms(2) unfolding op_within_def [of R "paginate n fetch items"] by (metis snd_conv)
qed

lemma paginate_pages:
  fixes fetch :: "nat \<Rightarrow> string option \<Rightarrow> ('w, client_error, string list) op"
  assumes "\<And>n cursor w page w'. fetch n cursor w = Some (Inr page, w') \<Longrightarrow> list_all Q page"
    "list_all Q items" "paginate n fetch items w = Some (Inr ts, w')"
  shows "list_all Q ts"
proof -
  have "(\<forall>n cursor w page w'. fetch n cursor w = Some (Inr page, w') \<longrightarrow> list_all Q page) \<and> list_all Q items \<longrightarrow>
      (\<forall>ts. fst y = Inr ts \<longrightarrow> list_all Q ts)" if "paginate n fetch items w = Some y"
    for n items w y and fetch :: "nat \<Rightarrow> string option \<Rightarrow> ('w, client_error, string list) op"
  proof (rule paginate.raw_induct [OF _ that])
    fix self :: "nat \<Rightarrow> (nat \<Rightarrow> string option \<Rightarrow> ('w, client_error, string list) op) \<Rightarrow> string list \<Rightarrow> 'w \<Rightarrow> ((client_error, string list) result \<times> 'w) option"
      and n fetch items w y
    assume self: "\<And>n fetch items w y. self n fetch items w = Some y \<Longrightarrow> (\<forall>n cursor w page w'. fetch n cursor w = Some (Inr page, w') \<longrightarrow> list_all Q page) \<and> list_all Q items \<longrightarrow>
      (\<forall>ts. fst y = Inr ts \<longrightarrow> list_all Q ts)"
      and step: "(case fetch n (if items = [] then Some [] else Some (last items)) w of
        None \<Rightarrow> None
      | Some (Inl e, w') \<Rightarrow> Some (Inl e, w')
      | Some (Inr page, w') \<Rightarrow>
          if length page < n then Some (Inr (items @ page), w') else self n fetch (items @ page) w') = Some y"
    show "(\<forall>n cursor w page w'. fetch n cursor w = Some (Inr page, w') \<longrightarrow> list_all Q page) \<and> list_all Q items \<longrightarrow>
      (\<forall>ts. fst y = Inr ts \<longrightarrow> list_all Q ts)"
    proof
      assume pages: "(\<forall>n cursor w page w'. fetch n cursor w = Some (Inr page, w') \<longrightarrow> list_all Q page) \<and> list_all Q items"
      let ?cursor = "if items = [] then Some [] else Some (last items)"
      obtain r w1 where fetch: "fetch n ?cursor w = Some (r, w1)"
        using step by (cases "fetch n ?cursor w") auto
      show "\<forall>ts. fst y = Inr ts \<longrightarrow> list_all Q ts"
      proof (cases r)
        case (Inl e)
        then show ?thesis using step fetch by auto
      next
        case (Inr page)
        then have all: "list_all Q (items @ page)" using pages fetch by (metis list_all_append)
        show ?thesis
        proof (cases "length page < n")
          case True
          then show ?thesis using step fetch Inr all by auto
        next
          case False
          then have "self n fetch (items @ page) w1 = Some y" using step fetch Inr by simp
          then show ?thesis using self pages all by blast
        qed
      qed
    qed
  qed
  from this [OF assms(3)] show ?thesis using assms(1,2) by auto
qed

lemma paginate_from:
  assumes "0 < n" "sorted_wrt (<) items" "[] \<notin> set items" "serves_pages fetch I items"
    "items = seen @ todo" "I w"
  shows "\<exists>w'. paginate n fetch seen w = Some (Inr items, w') \<and> I w'"
  using assms(5,6)
proof (induction "length todo" arbitrary: seen todo w rule: less_induct)
  case less
  define cursor where "cursor = (if seen = [] then [] else last seen)"
  have todo: "filter (\<lambda>t. cursor < t) items = todo"
  proof (cases "seen = []")
    case True
    have "[] < t" if "t \<in> set items" for t
      by (cases t) (use that assms(3) in auto)
    with True show ?thesis
      using less.prems(1) by (simp add: cursor_def filter_id_conv)
  next
    case False
    then have "items = butlast seen @ [cursor] @ todo"
      using less.prems(1) by (simp add: cursor_def)
    then show ?thesis
      using ascending_after [of "butlast seen" cursor todo] assms(2) by simp
  qed
  obtain w' where page: "fetch n (Some cursor) w = Some (Inr (take n todo), w')" and I: "I w'"
    using assms(4) less.prems(2) todo unfolding serves_pages_def by metis
  have unfold: "paginate n fetch seen w =
      (if length (take n todo) < n then Some (Inr (seen @ take n todo), w')
       else paginate n fetch (seen @ take n todo) w')"
    using page by (subst paginate.simps) (simp add: cursor_def split: if_splits)
  show ?case
  proof (cases "length todo < n")
    case True
    then show ?thesis using unfold I less.prems(1) by simp
  next
    case False
    then have "length (drop n todo) < length todo"
      using assms(1) by simp
    moreover have "items = (seen @ take n todo) @ drop n todo"
      using less.prems(1) by simp
    ultimately have "\<exists>w''. paginate n fetch (seen @ take n todo) w' = Some (Inr items, w'') \<and> I w''"
      using less.hyps I by blast
    then show ?thesis using False unfold by simp
  qed
qed



end
