(* ===== verification/Ocx_Registry.thy ===== *)
theory Ocx_Registry
  imports Ocx_Client
begin

section \<open>What the client relies on a registry for\<close>

text \<open>
  The registry is outside the program. This theory states what its protocol
  promises for one repository, as predicates on the client's transport: a tag
  reads back what was last pushed under it, other tags keep their document, and
  a listing names every tag. From them follow total-correctness statements for
  the client's operations on a repository that holds image indexes. An in-memory
  transport satisfies the promises.
\<close>

subsection \<open>The promises\<close>

abbreviation tag_ref :: "oci_identifier \<Rightarrow> string \<Rightarrow> native_reference" where
  "tag_ref location t \<equiv> canonical_reference (clone_with_tag location t)"

text \<open>\<open>view\<close> reads the documents of the repository out of the state of the registry.\<close>

definition registry_promises ::
  "('w, 'b, 'p) client \<Rightarrow> oci_identifier \<Rightarrow> ('w \<Rightarrow> string \<Rightarrow> 'b option) \<Rightarrow> bool" where
  "registry_promises c location view \<longleftrightarrow>
     (\<forall>t operation w. t_ensure_auth c (tag_ref location t) operation w = Some (Inr (), w)) \<and>
     (\<forall>operation w. t_ensure_auth c (canonical_reference location) operation w = Some (Inr (), w)) \<and>
     (\<forall>t accepted w. CHR ''+'' \<notin> set t \<longrightarrow>
        t_pull_manifest_raw c (tag_ref location t) accepted w =
          Some (case view w t of
                  Some b \<Rightarrow> Inr (b, digest_to_string (hash_body c Sha256 b))
                | None \<Rightarrow> Inl (ManifestNotFound t), w)) \<and>
     (\<forall>t w. CHR ''+'' \<notin> set t \<longrightarrow>
        t_fetch_manifest_digest c (tag_ref location t) w =
          Some (case view w t of
                  Some b \<Rightarrow> Inr (digest_to_string (hash_body c Sha256 b))
                | None \<Rightarrow> Inl (ManifestNotFound t), w)) \<and>
     (\<forall>t b media w. CHR ''+'' \<notin> set t \<longrightarrow>
        (\<exists>d w'. t_push_manifest_raw c (tag_ref location t) b media w = Some (Inr d, w') \<and> view w' = (view w)(t \<mapsto> b))) \<and>
     (\<forall>w. \<exists>items. sorted_wrt (<) items \<and> set items = dom (view w) \<and>
        (\<forall>ref n cursor. ref \<in> insert (canonical_reference location) (range (tag_ref location)) \<longrightarrow>
           t_list_tags c ref n (Some cursor) w = Some (Inr (take n (filter (\<lambda>t. cursor < t) items)), w)))"

text \<open>An index as the wire format can carry it: admitted by the client, annotations as maps.\<close>

definition index_ok :: "'p image_index \<Rightarrow> bool" where
  "index_ok ix \<longleftrightarrow>
     validate_image_index ix = Inr () \<and> pred_option bt_ok (ix_annotations ix)
     \<and> list_all (\<lambda>e. pred_option bt_ok (e_annotations e)) (ix_manifests ix)"

text \<open>The JSON codec reads back the indexes it writes, and the hash has the length of its algorithm.\<close>

definition codec_promises :: "('w, 'b, 'p) client \<Rightarrow> bool" where
  "codec_promises c \<longleftrightarrow>
     (\<forall>ix. index_ok ix \<longrightarrow> (\<exists>b. to_vec c ix = Inr b \<and> from_slice c b = Inr (ImageIndex ix))) \<and>
     (\<forall>b. digest_ok (hash_body c Sha256 b)) \<and> 0 < tag_chunk_size c"

subsection \<open>A repository of image indexes\<close>

text \<open>The state holds exactly the documents \<open>D\<close>, each an index under a tag the registry can name.\<close>

definition holds ::
  "('w, 'b, 'p) client \<Rightarrow> ('w \<Rightarrow> string \<Rightarrow> 'b option) \<Rightarrow> (string \<Rightarrow> 'p image_index option) \<Rightarrow> 'w \<Rightarrow> bool" where
  "holds c view D w \<longleftrightarrow>
     (\<forall>t. case D t of
            None \<Rightarrow> view w t = None
          | Some ix \<Rightarrow> index_ok ix \<and> CHR ''+'' \<notin> set t \<and> (\<exists>b. view w t = Some b \<and> from_slice c b = Inr (ImageIndex ix)))"

lemma holds_Some:
  assumes "holds c view D w" "D t = Some ix"
  obtains b where "index_ok ix" "CHR ''+'' \<notin> set t" "view w t = Some b" "from_slice c b = Inr (ImageIndex ix)"
  using assms(1) [unfolded holds_def, rule_format, of t] assms(2) that by auto

lemma holds_None:
  assumes "holds c view D w" "D t = None"
  shows "view w t = None"
  using assms(1) [unfolded holds_def, rule_format, of t] assms(2) by simp

lemma holds_dom:
  assumes "holds c view D w"
  shows "dom (view w) = dom D"
proof -
  have "view w t = None \<longleftrightarrow> D t = None" for t
    using assms [unfolded holds_def, rule_format, of t] by (cases "D t") auto
  then show ?thesis by (simp add: dom_def)
qed

lemma holds_update:
  assumes "holds c view D w" "view w' = (view w)(t \<mapsto> b)" "index_ok ix" "CHR ''+'' \<notin> set t" "from_slice c b = Inr (ImageIndex ix)"
  shows "holds c view (D(t \<mapsto> ix)) w'"
  unfolding holds_def
proof
  fix u
  show "case (D(t \<mapsto> ix)) u of
      None \<Rightarrow> view w' u = None
    | Some ix \<Rightarrow> index_ok ix \<and> CHR ''+'' \<notin> set u \<and> (\<exists>b. view w' u = Some b \<and> from_slice c b = Inr (ImageIndex ix))"
    using assms(1) [unfolded holds_def, rule_format, of u] assms(2-5) by (cases "u = t") (auto split: option.splits)
qed

lemma parse_index: "index_ok ix \<Longrightarrow> from_slice c b = Inr (ImageIndex ix) \<Longrightarrow> parse_registry_manifest c b = Inr (ImageIndex ix)"
  by (simp add: parse_registry_manifest_def index_ok_def)

lemma clone_with_tag_twice [simp]: "clone_with_tag (clone_with_tag r t) t' = clone_with_tag r t'"
  by (simp add: clone_with_tag_def)

lemma normalize_plain: "CHR ''+'' \<notin> set t \<Longrightarrow> normalize_tag t = t"
  by (induction t) (auto simp: normalize_tag_def)

lemma valid_tag_plain: "is_valid_oci_tag t \<Longrightarrow> CHR ''+'' \<notin> set t \<and> t \<noteq> []"
proof -
  have "\<not> is_ascii_alphanumeric CHR ''+''" by code_simp
  then show "is_valid_oci_tag t \<Longrightarrow> CHR ''+'' \<notin> set t \<and> t \<noteq> []"
    by (cases t) (auto simp: is_valid_oci_tag_def list_all_iff)
qed

lemma clone_with_tag_fields:
  "pr_digest (clone_with_tag r t) = None" "CHR ''+'' \<notin> set t \<Longrightarrow> pr_tag (clone_with_tag r t) = Some t"
  by (simp_all add: clone_with_tag_def normalize_plain)

subsection \<open>The client's operations on it\<close>

lemma promises_auth:
  assumes "registry_promises c location view"
  shows "t_ensure_auth c (tag_ref location t) operation w = Some (Inr (), w)"
    "t_ensure_auth c (canonical_reference location) operation w = Some (Inr (), w)"
  using assms by (simp_all add: registry_promises_def)

lemma promises_pull:
  assumes "registry_promises c location view" "CHR ''+'' \<notin> set t"
  shows "t_pull_manifest_raw c (tag_ref location t) accepted w =
    Some (case view w t of
            Some b \<Rightarrow> Inr (b, digest_to_string (hash_body c Sha256 b))
          | None \<Rightarrow> Inl (ManifestNotFound t), w)"
  using assms by (simp add: registry_promises_def)

lemma promises_push:
  assumes "registry_promises c location view" "CHR ''+'' \<notin> set t"
  obtains d w' where "t_push_manifest_raw c (tag_ref location t) b media w = Some (Inr d, w')" "view w' = (view w)(t \<mapsto> b)"
  using assms unfolding registry_promises_def by metis

lemma promises_list:
  assumes "registry_promises c location view"
  obtains items where "sorted_wrt (<) items" "set items = dom (view w)"
    "\<And>ref n cursor. ref \<in> insert (canonical_reference location) (range (tag_ref location)) \<Longrightarrow>
       t_list_tags c ref n (Some cursor) w = Some (Inr (take n (filter (\<lambda>t. cursor < t) items)), w)"
  using assms unfolding registry_promises_def by meson

lemma served_digest:
  "codec_promises c \<Longrightarrow> parse_served_digest (digest_to_string (hash_body c Sha256 b)) = Inr (hash_body c Sha256 b)"
  by (simp add: parse_served_digest_def codec_promises_def digest_round_trip_ok)

text \<open>A tag that holds an index reads as that index.\<close>

lemma fetch_manifest_holds:
  assumes "registry_promises c location view" "codec_promises c" "holds c view D w" "D t = Some ix"
  shows "\<exists>d. fetch_manifest c (clone_with_tag location t) w = Some (Inr (d, ImageIndex ix), w)"
proof -
  obtain b where b: "index_ok ix" "CHR ''+'' \<notin> set t" "view w t = Some b" "from_slice c b = Inr (ImageIndex ix)"
    using holds_Some [OF assms(3,4)] by blast
  have "fetch_manifest_raw c (tag_ref location t) w = Some (Inr (ImageIndex ix, digest_to_string (hash_body c Sha256 b)), w)"
    by (simp add: fetch_manifest_raw_def op_defs promises_pull [OF assms(1) b(2)] b(3) parse_index [OF b(1,4)])
  then show ?thesis
    by (simp add: fetch_manifest_def fetch_manifest_addressed_def read_reference_def op_defs Let_def
        promises_auth(1) [OF assms(1)] served_digest [OF assms(2)])
qed

text \<open>Merging a platform into a tag leaves the merged index there and every other tag as it was.\<close>

lemma index_ok_merge:
  assumes "index_ok ix" "sha \<noteq> []" "0 \<le> sz"
  shows "index_ok (merge_entry p sha sz ann ix)"
proof -
  have "bt_ok m \<Longrightarrow> bt_ok (fold (\<lambda>(k, v) m. bt_insert k v m) kvs m)" for m :: annotations and kvs
    by (induction kvs arbitrary: m) auto
  then have "pred_option bt_ok (ix_annotations (merge_entry p sha sz ann ix))"
    using assms(1) by (auto simp: index_ok_def merge_entry_def split: option.splits)
  moreover have "list_all (\<lambda>e. pred_option bt_ok (e_annotations e)) (ix_manifests (merge_entry p sha sz ann ix))"
    using assms(1) by (auto simp: index_ok_def merge_entry_def plain_entry_def list_all_iff)
  ultimately show ?thesis
    using assms merge_entry_valid by (auto simp: index_ok_def)
qed

lemma index_ok_fresh: "index_ok (fresh_index [])"
  using fresh_index_valid by (simp add: index_ok_def fresh_index_def validate_image_index_def)

definition merged_index :: "(string \<Rightarrow> 'p image_index option) \<Rightarrow> string \<Rightarrow> 'p \<Rightarrow> string \<Rightarrow> i64 \<Rightarrow> annotations \<Rightarrow> 'p image_index" where
  "merged_index D t p sha sz ann = merge_entry p sha sz ann (case D t of Some ix \<Rightarrow> ix | None \<Rightarrow> fresh_index [])"

lemma push_index_body_holds:
  assumes "registry_promises c location view" "codec_promises c" "holds c view D w" "index_ok ix" "CHR ''+'' \<notin> set t"
  shows "\<exists>d w'. push_index_body c (tag_ref location t) ix w = Some (Inr d, w') \<and> holds c view (D(t \<mapsto> ix)) w'"
proof -
  obtain b where b: "to_vec c ix = Inr b" "from_slice c b = Inr (ImageIndex ix)"
    using assms(2,4) unfolding codec_promises_def by blast
  obtain d w' where push: "t_push_manifest_raw c (tag_ref location t) b media_type_oci_image_index w = Some (Inr d, w')"
    "view w' = (view w)(t \<mapsto> b)"
    using promises_push [OF assms(1,5)] by blast
  then show ?thesis
    using b holds_update [OF assms(3) push(2) assms(4,5) b(2)] by (simp add: push_index_body_def op_defs)
qed

lemma merge_holds:
  assumes "registry_promises c location view" "codec_promises c" "holds c view D w"
    "CHR ''+'' \<notin> set t" "sha \<noteq> []" "0 \<le> sz"
  shows "\<exists>d w'. merge_platform_into_index c (clone_with_tag location x) t p sha sz ann w
      = Some (Inr (d, merged_index D t p sha sz ann), w')
    \<and> holds c view (D(t \<mapsto> merged_index D t p sha sz ann)) w'"
proof -
  let ?ix = "case D t of Some ix \<Rightarrow> ix | None \<Rightarrow> fresh_index []"
  let ?pull = "t_pull_manifest_raw c (tag_ref location t) [media_type_oci_image_manifest, media_type_oci_image_index] w"
  have ok: "index_ok ?ix"
    using assms(3) index_ok_fresh by (cases "D t") (auto elim: holds_Some)
  have read: "?pull = Some (Inl (ManifestNotFound t), w) \<and> D t = None \<or>
      (\<exists>b ix. ?pull = Some (Inr (b, digest_to_string (hash_body c Sha256 b)), w) \<and> D t = Some ix \<and>
         parse_registry_manifest c b = Inr (ImageIndex ix))"
  proof (cases "D t")
    case None
    then show ?thesis using holds_None [OF assms(3)] promises_pull [OF assms(1,4)] by simp
  next
    case (Some ix)
    then obtain b where "index_ok ix" "view w t = Some b" "from_slice c b = Inr (ImageIndex ix)"
      using holds_Some [OF assms(3)] by blast
    then show ?thesis using Some promises_pull [OF assms(1,4)] parse_index by auto
  qed
  obtain d w' where push: "push_index_body c (tag_ref location t) (merge_entry p sha sz ann ?ix) w = Some (Inr d, w')"
    "holds c view (D(t \<mapsto> merge_entry p sha sz ann ?ix)) w'"
    using push_index_body_holds [OF assms(1-3) index_ok_merge [OF ok assms(5,6)] assms(4)] by blast
  show ?thesis
    using read push
    by (auto simp: merge_platform_into_index_def merged_index_def op_defs Let_def promises_auth(1) [OF assms(1)])
qed

text \<open>A listing names exactly the tags, in ascending order.\<close>

lemma list_tags_holds:
  assumes "registry_promises c location view" "codec_promises c" "holds c view D w" "D [] = None"
    "identifier = location \<or> (\<exists>t. identifier = clone_with_tag location t)"
  shows "\<exists>items. list_tags_addressed c identifier Canonical w = Some (Inr items, w) \<and> sorted_wrt (<) items \<and> set items = dom D"
proof -
  let ?ref = "canonical_reference identifier"
  have ref: "?ref \<in> insert (canonical_reference location) (range (tag_ref location))"
    and auth: "t_ensure_auth c ?ref OpPull w = Some (Inr (), w)"
    using assms(5) promises_auth [OF assms(1)] by auto
  obtain items where items: "sorted_wrt (<) items" "set items = dom (view w)"
    "\<And>ref n cursor. ref \<in> insert (canonical_reference location) (range (tag_ref location)) \<Longrightarrow>
       t_list_tags c ref n (Some cursor) w = Some (Inr (take n (filter (\<lambda>t. cursor < t) items)), w)"
    using promises_list [OF assms(1)] by blast
  have "serves_pages (t_list_tags c ?ref) (\<lambda>w'. w' = w) items"
    using items(3) [OF ref] by (simp add: serves_pages_def)
  moreover have "[] \<notin> set items"
    using items(2) holds_dom [OF assms(3)] assms(4) by auto
  moreover have "0 < tag_chunk_size c"
    using assms(2) by (simp add: codec_promises_def)
  ultimately have "paginate (tag_chunk_size c) (t_list_tags c ?ref) [] w = Some (Inr items, w)"
    using paginate_from [OF _ items(1), of "tag_chunk_size c" _ "\<lambda>w'. w' = w" "[]" items w] by auto
  then show ?thesis
    using items(1,2) holds_dom [OF assms(3)]
    by (simp add: list_tags_addressed_def read_reference_def op_defs Let_def auth)
qed

text \<open>The checked read of the tag graph: the index with its digest and the size of its body.\<close>

lemma fetch_raw_holds:
  assumes "registry_promises c location view" "codec_promises c" "holds c view D w" "D t = Some ix"
    "is_valid_oci_tag t" "\<And>b. view w t = Some b \<Longrightarrow> body_len c b \<le> max_index_document_bytes"
  shows "\<exists>b. fetch_manifest_raw_bytes_addressed c (clone_with_tag location t) Canonical w
    = Some (Inr (Some (b, hash_body c Sha256 b, ImageIndex ix)), w)"
proof -
  obtain b where b: "index_ok ix" "CHR ''+'' \<notin> set t" "view w t = Some b" "from_slice c b = Inr (ImageIndex ix)"
    using holds_Some [OF assms(3,4)] by blast
  have parsed: "digest_try_from (digest_to_string (hash_body c Sha256 b)) = Inr (hash_body c Sha256 b)"
    using assms(2) by (simp add: codec_promises_def digest_round_trip_ok)
  have algorithm: "hash_body c (digest_algorithm (hash_body c Sha256 b)) b = hash_body c Sha256 b"
    by (simp add: hash_body_def)
  have pull: "t_pull_manifest_raw c (tag_ref location t) accepted_manifest_media_types w
      = Some (Inr (b, digest_to_string (hash_body c Sha256 b)), w)"
    using promises_pull [OF assms(1) b(2)] b(3) by simp
  show ?thesis
    using assms(5) assms(6) [OF b(3)]
    by (simp add: fetch_manifest_raw_bytes_addressed_def fetch_manifest_raw_bytes_capped_def Let_def
        read_reference_def verify_raw_bytes_digest_def op_defs parsed algorithm pull promises_auth(1) [OF assms(1)]
        parse_index [OF b(1,4)] clone_with_tag_fields b(2) not_less)
qed

subsection \<open>An in-memory registry\<close>

text \<open>
  One repository in memory: the state lists the pushes, newest first, and a
  document is its own body. It shows that the promises can be kept together.
\<close>

definition memory_read :: "native_reference \<Rightarrow> (string \<times> 'p manifest) list \<Rightarrow> (client_error, 'p manifest) result" where
  "memory_read ref w =
     (case nr_tag ref of
        None \<Rightarrow> Inl (ManifestNotFound [])
      | Some t \<Rightarrow> (case map_of w t of Some m \<Rightarrow> Inr m | None \<Rightarrow> Inl (ManifestNotFound t)))"

definition memory_digest :: string where
  "memory_digest = digest_to_string (Digest Sha256 (replicate 64 CHR ''0''))"

definition memory_client :: "((string \<times> 'p manifest) list, 'p manifest, 'p) client" where
  "memory_client =
     \<lparr>t_ensure_auth = (\<lambda>_ _ w. Some (Inr (), w)),
      t_list_tags = (\<lambda>_ n cursor w.
        Some (Inr (take n (filter (\<lambda>t. case cursor of Some x \<Rightarrow> x < t | None \<Rightarrow> True) (bs_collect (map fst w)))), w)),
      t_fetch_manifest_digest = (\<lambda>ref w.
        Some (case memory_read ref w of Inr _ \<Rightarrow> Inr memory_digest | Inl e \<Rightarrow> Inl e, w)),
      t_pull_manifest_raw = (\<lambda>ref _ w.
        Some (case memory_read ref w of Inr m \<Rightarrow> Inr (m, memory_digest) | Inl e \<Rightarrow> Inl e, w)),
      t_push_manifest_raw = (\<lambda>ref m _ w. Some (Inr memory_digest, (case nr_tag ref of Some t \<Rightarrow> (t, m) # w | None \<Rightarrow> w))),
      t_delete_manifest = (\<lambda>ref w. Some (Inr TagDeleted, filter (\<lambda>(t, _). Some t \<noteq> nr_tag ref) w)),
      t_probe_manifest = (\<lambda>ref w.
        Some (Inr (case memory_read ref w of
                     Inr _ \<Rightarrow> ManifestPresent (Digest Sha256 (replicate 64 CHR ''0''))
                   | Inl _ \<Rightarrow> ManifestAbsent ManifestUnknown), w)),
      tag_chunk_size = 2, mirrors = (\<lambda>_. None), body_len = (\<lambda>_. 2), from_slice = Inr,
      to_vec = (\<lambda>ix. Inr (ImageIndex ix)), hash_hex = (\<lambda>_ _. replicate 64 CHR ''0'')\<rparr>"

lemma tag_ref_tag: "CHR ''+'' \<notin> set t \<Longrightarrow> nr_tag (tag_ref location t) = Some t"
  by (simp add: canonical_reference_def clone_with_tag_def normalize_plain)

lemma memory_promises: "registry_promises memory_client location map_of"
proof -
  have "\<exists>items. sorted_wrt (<) items \<and> set items = dom (map_of w) \<and>
      (\<forall>ref n cursor. ref \<in> insert (canonical_reference location) (range (tag_ref location)) \<longrightarrow>
         t_list_tags memory_client ref n (Some cursor) w = Some (Inr (take n (filter (\<lambda>t. cursor < t) items)), w))" for w :: "(string \<times> 'a manifest) list"
    by (rule exI [of _ "bs_collect (map fst w)"]) (simp add: memory_client_def dom_map_of_conv_image_fst)
  then show ?thesis
    by (simp add: registry_promises_def)
      (simp add: memory_client_def memory_read_def tag_ref_tag memory_digest_def hash_body_def split: option.split)
qed

lemma memory_codec: "codec_promises memory_client"
proof -
  have "is_lower_hex CHR ''0''" by code_simp
  then show ?thesis
    by (simp add: codec_promises_def memory_client_def hash_body_def digest_ok_def list_all_iff)
qed

lemma memory_holds_nothing: "holds memory_client map_of (\<lambda>_. None) []"
  by (simp add: holds_def)

end
