(* ===== verification/Ocx_Cascade.thy ===== *)
theory Ocx_Cascade
  imports Ocx_Registry
begin

section \<open>Cascading pushes\<close>

text \<open>
  \<open>crates/ocx_package/src/cascade.rs\<close>: which rolling tags a push of a version
  moves, and the push that moves them. A \<open>BTreeSet<Version>\<close> is a strictly
  ascending list, so a range of it is a filter that keeps the order.
\<close>

text \<open>
  The errors of the package crate that the modelled operations raise. An
  operation whose only failures are the registry client's keeps the client's
  error; \<open>OciClient\<close> wraps it where other failures join.
\<close>

datatype package_error =
    VersionInvalid string
  | BuildMeta build_meta_error
  | EmptyPushSet
  | ManifestBuild string
  | OciClient client_error
  | IndexFailure string

subsection \<open>Cascade algebra\<close>

definition version_depth :: "version \<Rightarrow> nat" where
  "version_depth v =
     (case rest v of
        None \<Rightarrow> 0
      | Some (_, None) \<Rightarrow> 1
      | Some (_, Some (_, (b, pre))) \<Rightarrow> 2 + (if b \<noteq> None then 1 else 0) + (if pre \<noteq> None then 1 else 0))"

lemma parent_depth: "parent v = Some p \<Longrightarrow> version_depth p < version_depth v"
  by (auto simp: parent_def version_depth_def split: option.splits if_splits)

text \<open>\<open>std::iter::successors(version.parent(), Version::parent)\<close>.\<close>

function ancestors :: "version \<Rightarrow> version list" where
  "ancestors v = (case parent v of None \<Rightarrow> [] | Some p \<Rightarrow> p # ancestors p)"
  by auto
termination
  by (relation "measure version_depth") (auto simp: parent_depth)

declare ancestors.simps [simp del]

record cascade_targets =
  ct_targets :: "version list"
  ct_latest_eligible :: bool

record cascade_level =
  cl_target :: version
  cl_blockers :: "version list"

record cascade_decomposition =
  cd_levels :: "cascade_level list"
  cd_latest_eligible :: bool
  cd_latest_blockers :: "version list"

text \<open>
  The \<open>expect\<close> on the parent of a pre-release with a build never fails
  (\<open>prerelease_parent\<close> below), so the list built from an absent parent does not
  occur.
\<close>

definition decompose_targets :: "version \<Rightarrow> cascade_targets" where
  "decompose_targets v =
     (if has_prerelease v \<and> \<not> has_build v then \<lparr>ct_targets = [], ct_latest_eligible = False\<rparr>
      else if has_prerelease v then
        \<lparr>ct_targets = (case parent v of Some p \<Rightarrow> [p] | None \<Rightarrow> []), ct_latest_eligible = False\<rparr>
      else \<lparr>ct_targets = ancestors v, ct_latest_eligible = True\<rparr>)"

definition set_range :: "version \<Rightarrow> version \<Rightarrow> version list \<Rightarrow> version list" where
  "set_range lo hi others = filter (\<lambda>v. lo < v \<and> v < hi) others"

definition set_after :: "version \<Rightarrow> version list \<Rightarrow> version list" where
  "set_after lo others = filter (\<lambda>v. lo < v) others"

fun decompose_levels :: "version list \<Rightarrow> version \<Rightarrow> version list \<Rightarrow> cascade_level list \<times> version" where
  "decompose_levels others current [] = ([], current)"
| "decompose_levels others current (t # ts) =
     (case decompose_levels others t ts of (levels, final) \<Rightarrow>
        (\<lparr>cl_target = t,
          cl_blockers = filter (\<lambda>v. \<not> has_prerelease v) (set_range current t others)\<rparr> # levels, final))"

definition decompose :: "version \<Rightarrow> version list \<Rightarrow> cascade_decomposition" where
  "decompose v others =
     (let ts = decompose_targets v
      in if has_prerelease v then
           (let blockers =
              takeWhile (\<lambda>w. variant w = variant v \<and> major w = major v \<and> minor w = minor v
                           \<and> patch w = patch v \<and> prerelease w = prerelease v \<and> has_build w)
                (set_after v others)
            in \<lparr>cd_levels = map (\<lambda>t. \<lparr>cl_target = t, cl_blockers = blockers\<rparr>) (ct_targets ts),
                cd_latest_eligible = ct_latest_eligible ts, cd_latest_blockers = []\<rparr>)
         else
           (case decompose_levels others v (ct_targets ts) of (levels, current) \<Rightarrow>
              \<lparr>cd_levels = levels, cd_latest_eligible = ct_latest_eligible ts,
               cd_latest_blockers =
                 filter (\<lambda>w. \<not> has_prerelease w)
                   (takeWhile (\<lambda>w. variant w = variant v) (set_after current others))\<rparr>))"

fun cascade_levels :: "cascade_level list \<Rightarrow> version list \<Rightarrow> version list \<times> bool" where
  "cascade_levels [] versions = (versions, True)"
| "cascade_levels (l # ls) versions =
     (if cl_blockers l \<noteq> [] then (versions, False)
      else cascade_levels ls (versions @ [cl_target l]))"

definition cascade :: "version \<Rightarrow> version list \<Rightarrow> version list \<times> bool" where
  "cascade v others =
     (let d = decompose v (bs_collect others)
      in case cascade_levels (cd_levels d) [v] of
           (versions, False) \<Rightarrow> (versions, False)
         | (versions, True) \<Rightarrow> (versions, cd_latest_eligible d \<and> cd_latest_blockers d = []))"

subsection \<open>Platform-aware orchestration\<close>

fun has_blocking_platform ::
  "('w, 'b, 'p) client \<Rightarrow> oci_identifier \<Rightarrow> version list \<Rightarrow> 'p \<Rightarrow> ('w, client_error, bool) op" where
  "has_blocking_platform c identifier [] p = op_return False"
| "has_blocking_platform c identifier (b # bs) p =
     op_bind (fetch_manifest c (clone_with_tag identifier (version_to_string b))) (\<lambda>(_, m).
     if has_platform m p then op_return True else has_blocking_platform c identifier bs p)"

text \<open>The loop of \<open>resolve_cascade_tags\<close>: the tags so far and whether every level was cleared.\<close>

fun resolve_levels ::
  "('w, 'b, 'p) client \<Rightarrow> oci_identifier \<Rightarrow> 'p \<Rightarrow> cascade_level list \<Rightarrow> string list \<Rightarrow>
   ('w, client_error, string list \<times> bool) op" where
  "resolve_levels c identifier p [] tags = op_return (tags, True)"
| "resolve_levels c identifier p (l # ls) tags =
     op_match (has_blocking_platform c identifier (cl_blockers l) p)
       (\<lambda>blocked.
          if blocked then op_return (tags, False)
          else resolve_levels c identifier p ls (tags @ [version_to_string (cl_target l)]))
       (\<lambda>_. op_return (tags, False))"

definition resolve_cascade_tags ::
  "('w, 'b, 'p) client \<Rightarrow> oci_identifier \<Rightarrow> version \<Rightarrow> version list \<Rightarrow> 'p \<Rightarrow>
   ('w, client_error, string list \<times> bool) op" where
  "resolve_cascade_tags c identifier v others p =
     (let d = decompose v others
      in op_bind (resolve_levels c identifier p (cd_levels d) []) (\<lambda>(tags, cleared).
         if \<not> cleared then op_return (tags, False)
         else
           op_bind
             (if cd_latest_eligible d then
                op_match (has_blocking_platform c identifier (cd_latest_blockers d) p)
                  (\<lambda>blocked. op_return (\<not> blocked)) (\<lambda>_. op_return False)
              else op_return False) (\<lambda>is_latest.
           if is_latest then
             op_return (tags @ [case variant v of Some n \<Rightarrow> n | None \<Rightarrow> ''latest''], True)
           else op_return (tags, False))))"

text \<open>
  \<open>write_default_variant_aliases\<close>: \<open>--default\<close> puts a variant's manifest under
  the tags of the track without a variant.
\<close>

definition write_default_variant_aliases ::
  "('w, 'b, 'p) client \<Rightarrow> oci_identifier \<Rightarrow> 'p \<Rightarrow> 'p manifest \<Rightarrow> version \<Rightarrow> bool \<Rightarrow> version list option \<Rightarrow>
   annotations \<Rightarrow> ('w, client_error, string list) op" where
  "write_default_variant_aliases c identifier p merged v default_track others annotations =
     (if \<not> default_track then op_return []
      else if variant v = None then op_return []
      else case platform_manifest_entry merged p of
        None \<Rightarrow> op_return []
      | Some entry \<Rightarrow>
          (let bare = without_variant v
           in op_bind
                (case others of
                   Some os \<Rightarrow>
                     op_bind (resolve_cascade_tags c identifier bare os p) (\<lambda>(cascade_tags, _).
                     op_return (version_to_string bare # cascade_tags))
                 | None \<Rightarrow> op_return [version_to_string bare]) (\<lambda>tags.
              op_bind
                (op_each (\<lambda>tag. merge_platform_into_index c identifier tag p
                            (e_digest entry) (e_size entry) annotations) tags) (\<lambda>_.
              op_return tags))))"

record 'l cascade_push_outcome =
  po_index_digest :: digest
  po_cascade_tags :: "string list"
  po_keep_tag :: "string option"
  po_platform_digest :: "digest option"
  po_aliases :: "string list"
  po_layer_counts :: 'l

text \<open>
  Preparing the manifest (\<open>Info::manifest_builder\<close>) may fail before anything is
  written; otherwise it gives the upload that \<open>push_manifest_and_merge_tags\<close> runs.
\<close>

definition push_with_cascade ::
  "('w, 'b, 'p) client \<Rightarrow> oci_identifier \<Rightarrow> 'p \<Rightarrow>
   (package_error, ('w, client_error, nat \<times> string \<times> 'l) op) result \<Rightarrow>
   version list \<Rightarrow> version \<Rightarrow> bool \<Rightarrow> bool \<Rightarrow> annotations \<Rightarrow>
   ('w, package_error, 'l cascade_push_outcome) op" where
  "push_with_cascade c target p built others v keep_tag default_track annotations =
     op_bind (op_map_err OciClient (resolve_cascade_tags c target v others p)) (\<lambda>(cascade_tags, _).
     op_bind (op_lift built) (\<lambda>upload.
     op_bind (op_map_err OciClient (push_manifest_and_merge_tags c target p upload cascade_tags annotations))
       (\<lambda>(manifest_digest, ix, layer_counts).
     let merged = ImageIndex ix
     in op_bind (op_map_err OciClient
                  (write_default_variant_aliases c target p merged v default_track (Some others) annotations)) (\<lambda>aliases.
        op_bind (if keep_tag then op_map_err OciClient (push_keep_tag c target merged p) else op_return None)
          (\<lambda>keep_tag_written.
        op_return \<lparr>po_index_digest = manifest_digest, po_cascade_tags = cascade_tags,
                   po_keep_tag = keep_tag_written, po_platform_digest = platform_manifest_digest merged p,
                   po_aliases = aliases, po_layer_counts = layer_counts\<rparr>)))))"

subsection \<open>The order of versions, seen as a tree\<close>

text \<open>
  \<open>Version\<close>'s order visits the version tree children first: the versions below
  a version form an interval that ends at it. The comparison, written out:
\<close>

fun opt_less :: "'a::linorder option \<Rightarrow> 'a option \<Rightarrow> bool" where
  "opt_less None _ = False"
| "opt_less (Some _) None = True"
| "opt_less (Some a) (Some b) = (a < b)"

definition suffix_less :: "string option \<times> string option \<Rightarrow> string option \<times> string option \<Rightarrow> bool" where
  "suffix_less s t \<longleftrightarrow> opt_less (snd s) (snd t) \<or> snd s = snd t \<and> opt_less (fst s) (fst t)"

fun patch_less ::
  "(u32 \<times> string option \<times> string option) option \<Rightarrow> (u32 \<times> string option \<times> string option) option \<Rightarrow> bool" where
  "patch_less None _ = False"
| "patch_less (Some _) None = True"
| "patch_less (Some (p, s)) (Some (q, t)) = (p < q \<or> p = q \<and> suffix_less s t)"

fun minor_less ::
  "(u32 \<times> (u32 \<times> string option \<times> string option) option) option \<Rightarrow>
   (u32 \<times> (u32 \<times> string option \<times> string option) option) option \<Rightarrow> bool" where
  "minor_less None _ = False"
| "minor_less (Some _) None = True"
| "minor_less (Some (p, s)) (Some (q, t)) = (p < q \<or> p = q \<and> patch_less s t)"

lemma then_cmp_Less: "then_cmp a b = Less \<longleftrightarrow> a = Less \<or> a = Equal \<and> b = Less"
  by (cases a) (simp_all add: then_cmp_def)

lemma cmp_suffix_Less: "cmp_suffix s t = Less \<longleftrightarrow> suffix_less s t"
  by (cases s; cases t)
    (auto simp: cmp_suffix_def suffix_less_def then_cmp_Less split: option.split)

lemma cmp_numbers_Less:
  "cmp_numbers v w = Less \<longleftrightarrow> major v < major w \<or> major v = major w \<and> minor_less (rest v) (rest w)"
  by (cases v; cases w)
    (auto simp: cmp_numbers_def then_cmp_Less cmp_suffix_Less split: option.split)

lemma less_version_iff:
  "v < w \<longleftrightarrow> opt_less (variant v) (variant w) \<or>
     variant v = variant w \<and> (major v < major w \<or> major v = major w \<and> minor_less (rest v) (rest w))"
  unfolding less_version_def version_cmp_def then_cmp_Less cmp_numbers_Less
  by (auto split: option.split)

lemma ancestors_simps [simp]:
  "ancestors (Version x m None) = []"
  "ancestors (Version x m (Some (mi, None))) = [Version x m None]"
  "ancestors (Version x m (Some (mi, Some (p, (None, None))))) = [Version x m (Some (mi, None)), Version x m None]"
  "ancestors (Version x m (Some (mi, Some (p, (Some b, None))))) =
     [Version x m (Some (mi, Some (p, (None, None)))), Version x m (Some (mi, None)), Version x m None]"
  "ancestors (Version x m (Some (mi, Some (p, (None, Some pre))))) =
     [Version x m (Some (mi, Some (p, (None, None)))), Version x m (Some (mi, None)), Version x m None]"
  "ancestors (Version x m (Some (mi, Some (p, (Some b, Some pre))))) =
     [Version x m (Some (mi, Some (p, (None, Some pre)))), Version x m (Some (mi, Some (p, (None, None)))),
      Version x m (Some (mi, None)), Version x m None]"
  by (simp_all add: ancestors.simps parent_def)

lemma version_shapes:
  obtains (major) x m where "v = Version x m None"
  | (minor) x m mi where "v = Version x m (Some (mi, None))"
  | (patch) x m mi p where "v = Version x m (Some (mi, Some (p, (None, None))))"
  | (build) x m mi p b where "v = Version x m (Some (mi, Some (p, (Some b, None))))"
  | (pre) x m mi p pre where "v = Version x m (Some (mi, Some (p, (None, Some pre))))"
  | (pre_build) x m mi p b pre where "v = Version x m (Some (mi, Some (p, (Some b, Some pre))))"
  by (cases v) (metis option.exhaust surj_pair)

text \<open>\<open>t\<close> covers \<open>v\<close>: it is \<open>v\<close> or one of its ancestors.\<close>

definition covers :: "version \<Rightarrow> version \<Rightarrow> bool" where
  "covers t v \<longleftrightarrow> t = v \<or> t \<in> set (ancestors v)"

lemma covers_refl [simp]: "covers v v"
  by (simp add: covers_def)

lemma ancestors_parent: "parent v = Some p \<Longrightarrow> ancestors v = p # ancestors p"
  by (simp add: ancestors.simps)

text \<open>Ancestors, level by level.\<close>

fun suffix_below :: "string option \<times> string option \<Rightarrow> string option \<times> string option \<Rightarrow> bool" where
  "suffix_below (b, pre) (b', pre') =
     (b = None \<and> (pre = None \<and> (b' \<noteq> None \<or> pre' \<noteq> None) \<or> pre \<noteq> None \<and> pre' = pre \<and> b' \<noteq> None))"

fun patch_below ::
  "(u32 \<times> string option \<times> string option) option \<Rightarrow> (u32 \<times> string option \<times> string option) option \<Rightarrow> bool" where
  "patch_below _ None = False"
| "patch_below None (Some _) = True"
| "patch_below (Some (p, s)) (Some (q, t)) = (p = q \<and> suffix_below s t)"

fun minor_below ::
  "(u32 \<times> (u32 \<times> string option \<times> string option) option) option \<Rightarrow>
   (u32 \<times> (u32 \<times> string option \<times> string option) option) option \<Rightarrow> bool" where
  "minor_below _ None = False"
| "minor_below None (Some _) = True"
| "minor_below (Some (p, s)) (Some (q, t)) = (p = q \<and> patch_below s t)"

lemma ancestor_iff:
  "t \<in> set (ancestors v) \<longleftrightarrow> variant t = variant v \<and> major t = major v \<and> minor_below (rest t) (rest v)"
  by (cases v rule: version_shapes; cases t rule: version_shapes) auto

lemma suffix_below_less: "suffix_below s v \<Longrightarrow> suffix_less v s"
  by (cases s; cases v) (auto simp: suffix_less_def elim: opt_less.elims)

lemma patch_below_less: "patch_below s v \<Longrightarrow> patch_less v s"
  by (induction s v rule: patch_below.induct) (auto simp: suffix_below_less elim: patch_less.elims)

lemma minor_below_less: "minor_below s v \<Longrightarrow> minor_less v s"
  by (induction s v rule: minor_below.induct) (auto simp: patch_below_less elim: minor_less.elims)

lemma ancestor_greater: "t \<in> set (ancestors v) \<Longrightarrow> v < t"
  by (simp add: ancestor_iff less_version_iff minor_below_less)

lemma opt_less_between: "opt_less a b \<Longrightarrow> opt_less b a \<Longrightarrow> False"
  by (cases a; cases b) auto

lemma suffix_below_convex:
  assumes "suffix_below s v" "suffix_less v w" "suffix_less w s"
  shows "suffix_below s w"
proof -
  obtain b pre where s: "s = (b, pre)" by (cases s)
  obtain b' pre' where v: "v = (b', pre')" by (cases v)
  obtain b'' pre'' where w: "w = (b'', pre'')" by (cases w)
  show ?thesis
  proof (cases pre)
    case None
    with assms show ?thesis
      by (cases b''; cases pre'') (auto simp: s v w suffix_less_def)
  next
    case (Some x)
    with assms show ?thesis
      by (cases b''; cases pre'') (auto simp: s v w suffix_less_def dest: opt_less_between)
  qed
qed

lemma patch_below_convex:
  assumes "patch_below s v" "patch_less v w" "patch_less w s"
  shows "patch_below s w"
proof (cases s)
  case None
  with assms(3) show ?thesis by (cases w) auto
next
  case (Some x)
  obtain p a where x: "x = (p, a)" by (cases x)
  with Some assms(1) obtain b where v: "v = Some (p, b)" and below: "suffix_below a b"
    by (cases v) auto
  from assms(2,3) Some x v obtain r c where w: "w = Some (r, c)"
    by (cases w) auto
  have "r = p"
    using assms(2,3) unfolding Some x v w by (metis less_asym patch_less.simps(3))
  with assms(2,3) show ?thesis
    using suffix_below_convex [OF below] by (simp add: Some x v w)
qed

lemma minor_below_convex:
  assumes "minor_below s v" "minor_less v w" "minor_less w s"
  shows "minor_below s w"
proof (cases s)
  case None
  with assms(3) show ?thesis by (cases w) auto
next
  case (Some x)
  obtain p a where x: "x = (p, a)" by (cases x)
  with Some assms(1) obtain b where v: "v = Some (p, b)" and below: "patch_below a b"
    by (cases v) auto
  from assms(2,3) Some x v obtain r c where w: "w = Some (r, c)"
    by (cases w) auto
  have "r = p"
    using assms(2,3) unfolding Some x v w by (metis less_asym minor_less.simps(3))
  with assms(2,3) show ?thesis
    using patch_below_convex [OF below] by (simp add: Some x v w)
qed

lemma covers_le: "covers t v \<Longrightarrow> v \<le> t"
  using ancestor_greater by (auto simp: covers_def intro: less_imp_le)

lemma ancestors_trans: "t \<in> set (ancestors u) \<Longrightarrow> u \<in> set (ancestors v) \<Longrightarrow> t \<in> set (ancestors v)"
proof (induction v rule: ancestors.induct)
  case (1 v)
  then show ?case
    by (cases "parent v") (auto simp: ancestors.simps [of v])
qed

lemma covers_trans: "covers t u \<Longrightarrow> covers u v \<Longrightarrow> covers t v"
  using ancestors_trans by (auto simp: covers_def)

lemma ancestors_variant: "t \<in> set (ancestors v) \<Longrightarrow> variant t = variant v"
  by (cases v rule: version_shapes) auto

lemma ancestors_prerelease: "t \<in> set (ancestors v) \<Longrightarrow> \<not> has_prerelease v \<Longrightarrow> \<not> has_prerelease t"
  by (cases v rule: version_shapes) (auto simp: has_prerelease_def)

lemma ancestors_build: "t \<in> set (ancestors v) \<Longrightarrow> \<not> has_build t"
  by (cases v rule: version_shapes) (auto simp: has_build_def)

text \<open>The versions that \<open>t\<close> covers are an interval with \<open>t\<close> as its greatest element.\<close>

lemma covers_convex:
  assumes "covers t v" "v \<le> w" "w \<le> t"
  shows "covers t w"
proof (cases "w = t \<or> w = v")
  case True
  then show ?thesis using assms(1) by auto
next
  case False
  with assms have less: "v < w" "w < t" and t: "t \<in> set (ancestors v)"
    by (auto simp: covers_def)
  have eq: "variant t = variant v" "major t = major v" and below: "minor_below (rest t) (rest v)"
    using t by (simp_all add: ancestor_iff)
  have "variant w = variant v"
    using less eq opt_less_between unfolding less_version_iff by metis
  moreover from this less eq have "major w = major v"
    unfolding less_version_iff by (metis less_asym opt_less_between)
  moreover from calculation less eq have "minor_less (rest v) (rest w)" "minor_less (rest w) (rest t)"
    unfolding less_version_iff by (metis less_irrefl opt_less_between)+
  ultimately have "t \<in> set (ancestors w)"
    using eq below by (simp add: ancestor_iff minor_below_convex)
  then show ?thesis by (simp add: covers_def)
qed

text \<open>
  Where \<open>w\<close> is above \<open>c\<close> and does not cover it, everything under \<open>w\<close> is above \<open>c\<close>.
\<close>

lemma covered_above:
  assumes "c < w" "\<not> covers w c" "covers w u"
  shows "c < u"
  using covers_convex [OF assms(3), of c] assms(1,2) by (meson leI less_imp_le)

lemma ancestors_chain:
  assumes "t \<in> set (ancestors v)" "t' \<in> set (ancestors v)" "t \<le> t'"
  shows "covers t' t"
proof (rule covers_convex [of t' v])
  show "covers t' v" "t \<le> t'" using assms by (auto simp: covers_def)
  show "v \<le> t" using ancestor_greater [OF assms(1)] by simp
qed

lemma ancestors_ascending: "sorted_wrt (<) (v # ancestors v)"
proof (induction v rule: ancestors.induct)
  case (1 v)
  show ?case
  proof (cases "parent v")
    case None
    then show ?thesis by (simp add: ancestors.simps)
  next
    case (Some p)
    with 1 have "sorted_wrt (<) (p # ancestors p)" by simp
    moreover have "\<forall>t \<in> set (ancestors v). v < t"
      using ancestor_greater by blast
    ultimately show ?thesis
      by (simp add: ancestors_parent [OF Some])
  qed
qed

lemma decompose_ranges_ordered:
  assumes "sorted_wrt (<) (c # ts)" "i < length ts"
  shows "(c # ts) ! i < (c # ts) ! Suc i"
  using sorted_wrt_nth_less [OF assms(1), of i "Suc i"] assms(2) by simp

lemma prerelease_parent: "has_prerelease v \<Longrightarrow> has_build v \<Longrightarrow> parent v \<noteq> None"
  by (cases v rule: version_shapes) (auto simp: has_prerelease_def has_build_def parent_def)

subsection \<open>What a cascade moves\<close>

text \<open>
  The targets of the levels before the first one that has a blocker for which
  \<open>B\<close> holds.
\<close>

definition cleared_targets :: "(version \<Rightarrow> bool) \<Rightarrow> cascade_level list \<Rightarrow> version list" where
  "cleared_targets B levels = map cl_target (takeWhile (\<lambda>l. \<not> list_ex B (cl_blockers l)) levels)"

lemma cleared_targets_simps [simp]:
  "cleared_targets B [] = []"
  "cleared_targets B (l # ls) = (if list_ex B (cl_blockers l) then [] else cl_target l # cleared_targets B ls)"
  by (simp_all add: cleared_targets_def)

lemma decompose_levels_Cons:
  "fst (decompose_levels others c (t # ts)) =
     \<lparr>cl_target = t, cl_blockers = filter (\<lambda>v. \<not> has_prerelease v) (set_range c t others)\<rparr>
     # fst (decompose_levels others t ts)"
  "snd (decompose_levels others c (t # ts)) = snd (decompose_levels others t ts)"
  by (simp_all split: prod.split)

lemma decompose_levels_final: "snd (decompose_levels others c ts) = last (c # ts)"
  by (induction ts arbitrary: c) (simp_all add: decompose_levels_Cons del: decompose_levels.simps(2))

text \<open>
  The levels tile the interval above the current version, so a target is
  reached exactly when nothing in the interval up to it, the targets in between
  aside, blocks.
\<close>

definition unblocked :: "version list \<Rightarrow> (version \<Rightarrow> bool) \<Rightarrow> version \<Rightarrow> version list \<Rightarrow> version \<Rightarrow> bool" where
  "unblocked others B c ts t \<longleftrightarrow>
     (\<forall>b \<in> set others. c < b \<and> b < t \<and> b \<notin> set ts \<and> \<not> has_prerelease b \<longrightarrow> \<not> B b)"

lemma unblocked_step:
  assumes "sorted_wrt (<) (c # u # ts)" "u < t \<or> t = u \<and> ts = []"
  shows "unblocked others B c (u # ts) t \<longleftrightarrow>
    \<not> list_ex B (filter (\<lambda>v. \<not> has_prerelease v) (set_range c u others)) \<and> unblocked others B u ts t"
proof -
  have after: "c < u" "b \<in> set ts \<Longrightarrow> u < b" for b
    using assms(1) by auto
  have pieces: "c < b \<and> b < t \<and> b \<notin> set (u # ts) \<longleftrightarrow> c < b \<and> b < u \<or> u < b \<and> b < t \<and> b \<notin> set ts" for b
  proof -
    consider "b < u" | "b = u" | "u < b" by (rule linorder_cases)
    then show ?thesis
    proof cases
      case 1
      then have "b < t" "b \<notin> set (u # ts)" "\<not> u < b"
        using assms(2) after(2) [of b] by auto
      then show ?thesis using 1 by blast
    next
      case 2
      then show ?thesis by simp
    next
      case 3
      then show ?thesis using after(1) by auto
    qed
  qed
  have "unblocked others B c (u # ts) t \<longleftrightarrow>
      (\<forall>b \<in> set others. (c < b \<and> b < u \<or> u < b \<and> b < t \<and> b \<notin> set ts) \<and> \<not> has_prerelease b \<longrightarrow> \<not> B b)"
    unfolding unblocked_def using pieces by blast
  then show ?thesis
    unfolding unblocked_def list_ex_iff set_range_def by auto
qed

lemma unblocked_here:
  assumes "sorted_wrt (<) (c # u # ts)"
  shows "unblocked others B c (u # ts) u \<longleftrightarrow>
    \<not> list_ex B (filter (\<lambda>v. \<not> has_prerelease v) (set_range c u others))"
  unfolding unblocked_def list_ex_iff set_range_def using assms by (auto dest: less_asym)

lemma cleared_levels_iff:
  assumes "sorted_wrt (<) (c # ts)" "t \<in> set ts"
  shows "t \<in> set (cleared_targets B (fst (decompose_levels others c ts))) \<longleftrightarrow> unblocked others B c ts t"
  using assms
proof (induction ts arbitrary: c)
  case Nil
  then show ?case by simp
next
  case (Cons u ts)
  show ?case
  proof (cases "t = u")
    case True
    then show ?thesis
      using unblocked_here [OF Cons.prems(1)] by (simp add: decompose_levels_Cons del: decompose_levels.simps)
  next
    case False
    with Cons.prems have "t \<in> set ts" "u < t" "sorted_wrt (<) (u # ts)" by auto
    with Cons.IH False show ?thesis
      using unblocked_step [OF Cons.prems(1)]
      by (simp add: decompose_levels_Cons del: decompose_levels.simps)
  qed
qed

lemma all_cleared_iff:
  assumes "sorted_wrt (<) (c # ts)"
  shows "cleared_targets B (fst (decompose_levels others c ts)) = ts
    \<longleftrightarrow> unblocked others B c ts (last (c # ts))"
  using assms
proof (induction ts arbitrary: c)
  case Nil
  then show ?case by (auto simp: unblocked_def)
next
  case (Cons u ts)
  then have "u < last (u # ts) \<or> last (u # ts) = u \<and> ts = []" "sorted_wrt (<) (u # ts)"
    by auto
  with Cons.IH show ?case
    using unblocked_step [OF Cons.prems]
    by (simp add: decompose_levels_Cons del: decompose_levels.simps)
qed

text \<open>The root of the walk: the version that has only the major.\<close>

definition top_version :: "version \<Rightarrow> version" where
  "top_version v = Version (variant v) (major v) None"

lemma last_ancestors: "last (v # ancestors v) = top_version v"
  by (cases v rule: version_shapes) (auto simp: top_version_def)

lemma covers_top: "covers (top_version v) v"
  by (cases v rule: version_shapes) (auto simp: top_version_def covers_def)

lemma covers_variant: "covers t v \<Longrightarrow> variant t = variant v"
  using ancestors_variant by (auto simp: covers_def)

lemma up_to_top_variant: "v \<le> b \<Longrightarrow> b \<le> top_version v \<Longrightarrow> variant b = variant v"
  using covers_variant [OF covers_convex [OF covers_top]] by (simp add: top_version_def)

lemma takeWhile_eq_filter:
  assumes "sorted_wrt (<) xs" "\<And>a b. a \<in> set xs \<Longrightarrow> b \<in> set xs \<Longrightarrow> a < b \<Longrightarrow> P b \<Longrightarrow> P a"
  shows "takeWhile P xs = filter P xs"
  using assms
proof (induction xs)
  case (Cons x xs)
  show ?case
  proof (cases "P x")
    case True
    with Cons show ?thesis by auto
  next
    case False
    with Cons.prems have "filter P xs = []"
      unfolding filter_empty_conv by (metis list.set_intros sorted_wrt.simps(2))
    with False show ?thesis by simp
  qed
qed simp

lemma variant_cluster:
  assumes "variant c = x" "c < a" "a < b" "variant b = x"
  shows "variant a = x"
  using assms opt_less_between unfolding less_version_iff by metis

lemma latest_blockers_set:
  assumes "sorted_wrt (<) others" "\<not> has_prerelease v"
  shows "set (cd_latest_blockers (decompose v others)) =
    {b \<in> set others. top_version v < b \<and> variant b = variant v \<and> \<not> has_prerelease b}"
proof -
  let ?after = "set_after (top_version v) others"
  have "sorted_wrt (<) ?after"
    using assms(1) by (simp add: set_after_def sorted_wrt_filter)
  then have "takeWhile (\<lambda>w. variant w = variant v) ?after = filter (\<lambda>w. variant w = variant v) ?after"
    by (rule takeWhile_eq_filter)
      (auto simp: set_after_def top_version_def intro: variant_cluster [of "top_version v"])
  moreover have "decompose_levels others v (ancestors v)
      = (fst (decompose_levels others v (ancestors v)), top_version v)"
    by (metis decompose_levels_final last_ancestors prod.collapse)
  ultimately show ?thesis
    using assms(2)
    by (auto simp: decompose_def decompose_targets_def Let_def set_after_def split: prod.split)
qed

lemma decompose_stable:
  assumes "\<not> has_prerelease v"
  shows "cd_levels (decompose v others) = fst (decompose_levels others v (ancestors v))"
    "cd_latest_eligible (decompose v others)"
  using assms by (simp_all add: decompose_def decompose_targets_def split: prod.split)

lemma cascade_levels_cleared:
  "cascade_levels ls vs = (vs @ cleared_targets (\<lambda>_. True) ls, \<forall>l \<in> set ls. cl_blockers l = [])"
  by (induction ls arbitrary: vs) (auto simp: list_ex_iff)

lemma cleared_all: "(\<forall>l \<in> set ls. \<not> list_ex B (cl_blockers l)) \<longleftrightarrow> cleared_targets B ls = map cl_target ls"
  by (induction ls) auto

lemma decompose_levels_targets: "map cl_target (fst (decompose_levels others c ts)) = ts"
  by (induction ts arbitrary: c) (simp_all add: decompose_levels_Cons del: decompose_levels.simps(2))

text \<open>
  What clears the levels and the blockers of \<open>latest\<close>, for a version that is no
  pre-release.
\<close>

definition top_unblocked :: "version list \<Rightarrow> (version \<Rightarrow> bool) \<Rightarrow> version \<Rightarrow> bool" where
  "top_unblocked others B v \<longleftrightarrow>
     (\<forall>b \<in> set others. v < b \<and> variant b = variant v \<and> b \<notin> set (ancestors v) \<and> \<not> has_prerelease b \<longrightarrow> \<not> B b)"

lemma ancestor_le_top: "t \<in> set (ancestors v) \<Longrightarrow> t \<le> top_version v"
proof -
  assume "t \<in> set (ancestors v)"
  then have "top_version t = top_version v"
    by (simp add: ancestor_iff top_version_def)
  then show ?thesis
    using covers_le [OF covers_top [of t]] by simp
qed

lemma above_version:
  "v < b \<and> variant b = variant v \<and> b \<notin> set (ancestors v) \<longleftrightarrow>
     v < b \<and> b < top_version v \<and> b \<notin> set (ancestors v) \<or> top_version v < b \<and> variant b = variant v"
proof -
  have top: "top_version v = v \<or> top_version v \<in> set (ancestors v)" "v \<le> top_version v"
    using covers_top [of v] covers_le by (auto simp: covers_def)
  consider "b < top_version v" | "b = top_version v" | "top_version v < b"
    by (rule linorder_cases)
  then show ?thesis
  proof cases
    case 1
    then show ?thesis using up_to_top_variant [of v b] by auto
  next
    case 2
    then show ?thesis using top by auto
  next
    case 3
    then have "b \<notin> set (ancestors v)" "v < b"
      using ancestor_le_top [of b v] top(2) by auto
    with 3 show ?thesis by auto
  qed
qed

lemma top_unblocked_iff:
  assumes "sorted_wrt (<) others" "\<not> has_prerelease v"
  shows "top_unblocked others B v \<longleftrightarrow>
    cleared_targets B (cd_levels (decompose v others)) = ancestors v \<and>
    \<not> list_ex B (cd_latest_blockers (decompose v others))"
  unfolding decompose_stable(1) [OF assms(2)] all_cleared_iff [OF ancestors_ascending] last_ancestors
    list_ex_iff latest_blockers_set [OF assms] top_unblocked_def unblocked_def
  using above_version [of v] by blast

subsection \<open>Properties\<close>



text \<open>
  C12: A pre-release never moves a stable tag or \<open>latest\<close>: without a build it moves
  nothing, and with one it moves at most the tag of its own pre-release.
\<close>

theorem cascade_prerelease:
  assumes "has_prerelease v"
  shows "set (fst (cascade v others)) \<subseteq> {v} \<union> {p. parent v = Some p \<and> has_build v \<and> has_prerelease p}
    \<and> \<not> snd (cascade v others)"
proof -
  have "has_prerelease p" if "parent v = Some p" "has_build v" for p
    using that assms
    by (cases v rule: version_shapes) (auto simp: parent_def has_prerelease_def has_build_def)
  moreover have "set (cleared_targets (\<lambda>_. True) ls) \<subseteq> cl_target ` set ls" for ls
    by (auto simp: cleared_targets_def dest: set_takeWhileD)
  ultimately show ?thesis
    using assms
    by (fastforce simp: cascade_def Let_def cascade_levels_cleared decompose_def decompose_targets_def
        split: option.splits if_splits bool.splits)
qed

theorem cascade_prerelease_witness:
  "has_prerelease (new_prerelease 1 2 3 ''rc1'') \<and>
   set (fst (cascade (new_prerelease 1 2 3 ''rc1'') [])) \<subseteq> {new_prerelease 1 2 3 ''rc1''}"
proof -
  have "has_prerelease (new_prerelease 1 2 3 ''rc1'')" "\<not> has_build (new_prerelease 1 2 3 ''rc1'')"
    by code_simp+
  with cascade_prerelease [of "new_prerelease 1 2 3 ''rc1''" "[]"] show ?thesis
    by auto
qed

end
