(* ===== verification/Ocx_Cascade_Graph.thy ===== *)
theory Ocx_Cascade_Graph
  imports Ocx_Cascade "HOL-Library.Option_ord" "HOL-Library.Product_Lexorder"
begin

section \<open>The tag graph: what every rolling tag should hold\<close>

text \<open>
  \<open>crates/ocx_package/src/cascade/graph.rs\<close>: the pure core of \<open>ocx package cascade
  check\<close> and \<open>repair\<close>. An observation of the registry is folded into the expected
  content of every rolling tag, the difference is reported, and the report is
  turned into whole indexes to write.

  A platform is the type \<open>'p\<close> of the wire library; the code compares platforms and
  reads the names of their operating system and architecture, which are the
  record \<open>platform_names\<close>.
\<close>

subsection \<open>Alias tags\<close>

datatype alias_tag = Root "string option" | AliasVersion version

text \<open>The derived order: roots first, by track, then versions by their own order.\<close>

instantiation alias_tag :: linorder
begin

fun less_eq_alias_tag :: "alias_tag \<Rightarrow> alias_tag \<Rightarrow> bool" where
  "less_eq_alias_tag (Root a) (Root b) = (a \<le> b)"
| "less_eq_alias_tag (Root a) (AliasVersion w) = True"
| "less_eq_alias_tag (AliasVersion v) (Root b) = False"
| "less_eq_alias_tag (AliasVersion v) (AliasVersion w) = (v \<le> w)"

definition less_alias_tag :: "alias_tag \<Rightarrow> alias_tag \<Rightarrow> bool" where
  "less_alias_tag a b = (a \<le> b \<and> \<not> b \<le> a)"

instance
proof
  fix a b c :: alias_tag
  show "a < b \<longleftrightarrow> a \<le> b \<and> \<not> b \<le> a" by (simp add: less_alias_tag_def)
  show "a \<le> a" by (cases a) simp_all
  show "a \<le> b \<Longrightarrow> b \<le> c \<Longrightarrow> a \<le> c" by (cases a; cases b; cases c) auto
  show "a \<le> b \<Longrightarrow> b \<le> a \<Longrightarrow> a = b" by (cases a; cases b) auto
  show "a \<le> b \<or> b \<le> a" by (cases a; cases b) auto
qed

end

definition alias_parse :: "string \<Rightarrow> string list \<Rightarrow> alias_tag option" where
  "alias_parse tag variants =
     (case tag_from tag of
        Latest \<Rightarrow> Some (Root None)
      | VersionTag v \<Rightarrow> Some (AliasVersion v)
      | Other name \<Rightarrow> (if list_ex (\<lambda>n. n = name) variants then Some (Root (Some name)) else None)
      | _ \<Rightarrow> None)"

fun alias_track :: "alias_tag \<Rightarrow> string option" where
  "alias_track (Root n) = n"
| "alias_track (AliasVersion v) = variant v"

fun alias_to_string :: "alias_tag \<Rightarrow> string" where
  "alias_to_string (Root None) = ''latest''"
| "alias_to_string (Root (Some n)) = n"
| "alias_to_string (AliasVersion v) = version_to_string v"

subsection \<open>Observations\<close>

record 'p platform_names =
  pn_os :: "'p \<Rightarrow> string"
  pn_architecture :: "'p \<Rightarrow> string"

record 'p observed_tag =
  ob_digest :: digest
  ob_size :: i64
  ob_manifest :: "'p manifest"

text \<open>The published index root of a package (\<open>crates/ocx_index/src/wire.rs\<close>).\<close>

record yank_marker =
  ym_reason :: string
  ym_at :: string

record root_tag =
  rt_content :: digest
  rt_yanked :: "yank_marker option"
  rt_ephemeral :: bool

record index_root =
  ir_repository :: string
  ir_tags :: "(string, root_tag) btree_map"
  ir_status :: "string option"
  ir_deprecated_message :: "string option"
  ir_superseded_by :: "string option"

record 'p tag_graph_observation =
  og_identifier :: oci_identifier
  og_logical :: "package_ref option"
  og_tags :: "(alias_tag, 'p observed_tag) btree_map"
  og_ignored_tags :: "string list"
  og_index_root :: "index_root option"

definition observed_versions :: "'p tag_graph_observation \<Rightarrow> version list" where
  "observed_versions ob =
     bs_collect (List.map_filter (\<lambda>t. case t of AliasVersion v \<Rightarrow> Some v | Root _ \<Rightarrow> None) (bt_keys (og_tags ob)))"

definition observed_index :: "'p tag_graph_observation \<Rightarrow> alias_tag \<Rightarrow> 'p image_index option" where
  "observed_index ob t =
     (case bt_get (og_tags ob) t of
        None \<Rightarrow> None
      | Some o' \<Rightarrow> (case ob_manifest o' of ImageIndex ix \<Rightarrow> Some ix | Image _ \<Rightarrow> None))"

record 'p expected_slot =
  ex_entry :: "'p index_entry"
  ex_source :: version

type_synonym 'p expected_graph = "(alias_tag, ('p, 'p expected_slot) btree_map) btree_map"

subsection \<open>Reports\<close>

datatype slot_status = SlotOk | SlotMissing | SlotStale | SlotOrphan | SlotDuplicate

fun status_rank :: "slot_status \<Rightarrow> nat" where
  "status_rank SlotOk = 0"
| "status_rank SlotMissing = 1"
| "status_rank SlotStale = 2"
| "status_rank SlotOrphan = 3"
| "status_rank SlotDuplicate = 4"

lemma status_rank_inj: "status_rank a = status_rank b \<longleftrightarrow> a = b"
  by (cases a; cases b) simp_all

instantiation slot_status :: linorder
begin

definition less_eq_slot_status :: "slot_status \<Rightarrow> slot_status \<Rightarrow> bool" where
  "less_eq_slot_status a b = (status_rank a \<le> status_rank b)"

definition less_slot_status :: "slot_status \<Rightarrow> slot_status \<Rightarrow> bool" where
  "less_slot_status a b = (status_rank a < status_rank b)"

instance
  by intro_classes (auto simp: less_eq_slot_status_def less_slot_status_def status_rank_inj)

end

record 'p slot_row =
  sr_tag :: alias_tag
  sr_platform :: 'p
  sr_status :: slot_status
  sr_observed :: "string option"
  sr_expected :: "string option"
  sr_source :: "version option"
  sr_observed_source :: "version option"

datatype alias_state = Present | Absent | NotAnIndex digest

datatype index_finding = IndexStale alias_tag digest digest | NotCommitted alias_tag

datatype unrepairable =
    ChildManifestMissing alias_tag digest
  | ChildDigestUnaddressable alias_tag string
  | WouldEmptyIndex alias_tag

record 'p cascade_report =
  cr_identifier :: oci_identifier
  cr_logical :: "package_ref option"
  cr_aliases :: "(alias_tag, alias_state) btree_map"
  cr_rows :: "'p slot_row list"
  cr_index_findings :: "index_finding list"
  cr_ignored_tags :: "string list"
  cr_unrepairable :: "unrepairable list"

definition has_findings :: "'p cascade_report \<Rightarrow> bool" where
  "has_findings r \<longleftrightarrow>
     list_ex (\<lambda>row. sr_status row \<noteq> SlotOk) (cr_rows r)
     \<or> list_ex (\<lambda>(_, st). st \<noteq> Present) (cr_aliases r)
     \<or> cr_index_findings r \<noteq> []"

record 'p planned_write =
  pw_tag :: alias_tag
  pw_index :: "'p image_index"
  pw_observed_digest :: "digest option"
  pw_referenced_digests :: "string list"
  pw_reasons :: "'p slot_row list"

datatype scope_error = NotAVersionTag string | DigestReference | UnknownTag string

subsection \<open>The fold\<close>

definition alias_chain :: "version \<Rightarrow> alias_tag list" where
  "alias_chain v =
     (let ts = decompose_targets v
      in map AliasVersion (ct_targets ts) @ (if ct_latest_eligible ts then [Root (variant v)] else []))"

definition alias_universe :: "version list \<Rightarrow> alias_tag list" where
  "alias_universe versions = bs_collect (concat (map alias_chain versions))"

definition leaves :: "version list \<Rightarrow> version list" where
  "leaves versions = filter (\<lambda>v. AliasVersion v \<notin> set (alias_universe versions)) versions"

definition platform_slot :: "'p platform_names \<Rightarrow> 'p index_entry \<Rightarrow> 'p option" where
  "platform_slot pn e =
     (case e_platform e of
        None \<Rightarrow> None
      | Some p \<Rightarrow> (if pn_os pn p = ''unknown'' \<and> pn_architecture pn p = ''unknown'' then None else Some p))"

definition same_descriptor :: "'p index_entry \<Rightarrow> 'p index_entry \<Rightarrow> bool" where
  "same_descriptor l r \<longleftrightarrow>
     e_digest l = e_digest r \<and> e_size l = e_size r \<and> e_media_type l = e_media_type r
     \<and> e_artifact_type l = e_artifact_type r \<and> e_annotations l = e_annotations r \<and> e_platform l = e_platform r"

text \<open>The entries of an index that claim a slot, with their platforms, in document order.\<close>

definition slot_entries :: "'p platform_names \<Rightarrow> 'p image_index \<Rightarrow> ('p \<times> 'p index_entry) list" where
  "slot_entries pn ix =
     List.map_filter (\<lambda>e. map_option (\<lambda>p. (p, e)) (platform_slot pn e)) (ix_manifests ix)"

definition observed_slots ::
  "'p::linorder platform_names \<Rightarrow> 'p tag_graph_observation \<Rightarrow> alias_tag \<Rightarrow>
   ('p, 'p index_entry) btree_map \<times> ('p \<times> 'p index_entry) list" where
  "observed_slots pn ob alias =
     (case observed_index ob alias of
        None \<Rightarrow> ([], [])
      | Some ix \<Rightarrow>
          foldl (\<lambda>(slots, shadowed) (p, e).
                   (bt_insert p e slots,
                    case bt_get slots p of Some previous \<Rightarrow> shadowed @ [(p, previous)] | None \<Rightarrow> shadowed))
            ([], []) (slot_entries pn ix))"

definition leaf_provenance ::
  "'p::linorder platform_names \<Rightarrow> 'p tag_graph_observation \<Rightarrow> ('p \<times> string, version) btree_map" where
  "leaf_provenance pn ob =
     foldl (\<lambda>provenance leaf.
              case observed_index ob (AliasVersion leaf) of
                None \<Rightarrow> provenance
              | Some ix \<Rightarrow> foldl (\<lambda>m (p, e). bt_insert (p, e_digest e) leaf m) provenance (slot_entries pn ix))
       [] (leaves (observed_versions ob))"

text \<open>\<open>expected.entry(alias).or_default().insert(platform, slot)\<close>\<close>

definition expect_slot ::
  "alias_tag \<Rightarrow> 'p::linorder \<Rightarrow> 'p expected_slot \<Rightarrow> 'p expected_graph \<Rightarrow> 'p expected_graph" where
  "expect_slot alias p slot g =
     bt_insert alias (bt_insert p slot (case bt_get g alias of Some m \<Rightarrow> m | None \<Rightarrow> [])) g"

definition fold_expected ::
  "'p::linorder platform_names \<Rightarrow> 'p tag_graph_observation \<Rightarrow> 'p expected_graph" where
  "fold_expected pn ob =
     foldl (\<lambda>g leaf.
              case observed_index ob (AliasVersion leaf) of
                None \<Rightarrow> g
              | Some ix \<Rightarrow>
                  foldl (\<lambda>g (p, e).
                           foldl (\<lambda>g alias. expect_slot alias p \<lparr>ex_entry = e, ex_source = leaf\<rparr> g) g (alias_chain leaf))
                    g (slot_entries pn ix))
       [] (leaves (observed_versions ob))"

subsection \<open>The difference\<close>

definition alias_state_of :: "'p observed_tag option \<Rightarrow> alias_state" where
  "alias_state_of o' =
     (case o' of
        None \<Rightarrow> Absent
      | Some t \<Rightarrow> (case ob_manifest t of ImageIndex _ \<Rightarrow> Present | Image _ \<Rightarrow> NotAnIndex (ob_digest t)))"

definition slot_row_of ::
  "('p::linorder \<times> string, version) btree_map \<Rightarrow> ('p, 'p expected_slot) btree_map \<Rightarrow>
   ('p, 'p index_entry) btree_map \<Rightarrow> alias_tag \<Rightarrow> 'p \<Rightarrow> 'p slot_row option" where
  "slot_row_of provenance wanted held alias p =
     (let want = bt_get wanted p; have' = bt_get held p;
          row = (\<lambda>st. \<lparr>sr_tag = alias, sr_platform = p, sr_status = st,
                        sr_observed = map_option e_digest have',
                        sr_expected = map_option (\<lambda>s. e_digest (ex_entry s)) want,
                        sr_source = map_option ex_source want,
                        sr_observed_source = Option.bind have' (\<lambda>e. bt_get provenance (p, e_digest e))\<rparr>)
      in case (want, have') of
           (Some s, Some e) \<Rightarrow> Some (row (if same_descriptor (ex_entry s) e then SlotOk else SlotStale))
         | (Some _, None) \<Rightarrow> Some (row SlotMissing)
         | (None, Some _) \<Rightarrow> Some (row SlotOrphan)
         | (None, None) \<Rightarrow> None)"

definition shadow_row ::
  "('p::linorder \<times> string, version) btree_map \<Rightarrow> ('p, 'p expected_slot) btree_map \<Rightarrow> alias_tag \<Rightarrow>
   'p \<times> 'p index_entry \<Rightarrow> 'p slot_row" where
  "shadow_row provenance wanted alias = (\<lambda>(p, e).
     \<lparr>sr_tag = alias, sr_platform = p, sr_status = SlotDuplicate, sr_observed = Some (e_digest e),
      sr_expected = map_option (\<lambda>s. e_digest (ex_entry s)) (bt_get wanted p),
      sr_source = map_option ex_source (bt_get wanted p),
      sr_observed_source = bt_get provenance (p, e_digest e)\<rparr>)"

definition wanted_slots :: "'p expected_graph \<Rightarrow> alias_tag \<Rightarrow> ('p, 'p expected_slot) btree_map" where
  "wanted_slots g alias = (case bt_get g alias of Some m \<Rightarrow> m | None \<Rightarrow> [])"

definition alias_rows ::
  "'p::linorder platform_names \<Rightarrow> 'p tag_graph_observation \<Rightarrow> 'p expected_graph \<Rightarrow>
   ('p \<times> string, version) btree_map \<Rightarrow> alias_tag \<Rightarrow> 'p slot_row list" where
  "alias_rows pn ob g provenance alias =
     (let wanted = wanted_slots g alias
      in case observed_slots pn ob alias of (held, shadowed) \<Rightarrow>
           sort_key (\<lambda>r. (sr_platform r, sr_status r, sr_observed r))
             (List.map_filter (slot_row_of provenance wanted held alias) (bs_collect (bt_keys wanted @ bt_keys held))
              @ map (shadow_row provenance wanted alias) shadowed))"

definition needs_write :: "alias_state \<Rightarrow> 'p slot_row list \<Rightarrow> bool" where
  "needs_write st rows \<longleftrightarrow>
     st \<noteq> Present \<or> list_ex (\<lambda>r. sr_status r \<in> {SlotMissing, SlotStale, SlotDuplicate}) rows"

definition planned_entries ::
  "'p::linorder platform_names \<Rightarrow> alias_tag \<Rightarrow> 'p tag_graph_observation \<Rightarrow> 'p expected_graph \<Rightarrow>
   'p index_entry list" where
  "planned_entries pn alias ob g =
     (let slots = bt_collect (map (\<lambda>(p, s). (p, ex_entry s)) (wanted_slots g alias));
          (slots', unplatformed) =
            (case bt_get (og_tags ob) alias of
               None \<Rightarrow> (slots, [])
             | Some t \<Rightarrow>
                 (case ob_manifest t of
                    ImageIndex ix \<Rightarrow>
                      foldl (\<lambda>(slots, un) e.
                               case platform_slot pn e of
                                 Some p \<Rightarrow> (bt_or_insert p e slots, un)
                               | None \<Rightarrow> (slots, un @ [e])) (slots, []) (ix_manifests ix)
                  | Image _ \<Rightarrow> (slots, [plain_entry (digest_to_string (ob_digest t)) (ob_size t) None])))
      in map snd slots' @ unplatformed)"

definition index_findings_of :: "'p tag_graph_observation \<Rightarrow> alias_tag list \<Rightarrow> index_finding list" where
  "index_findings_of ob scope =
     (case og_index_root ob of
        None \<Rightarrow> []
      | Some root \<Rightarrow>
          List.map_filter (\<lambda>alias.
            case bt_get (og_tags ob) alias of
              None \<Rightarrow> None
            | Some t \<Rightarrow>
                (case bt_get (ir_tags root) (alias_to_string alias) of
                   None \<Rightarrow> Some (NotCommitted alias)
                 | Some committed \<Rightarrow>
                     (if rt_content committed \<noteq> ob_digest t
                      then Some (IndexStale alias (rt_content committed) (ob_digest t)) else None)))
            scope)"

definition diff ::
  "'p::linorder platform_names \<Rightarrow> 'p tag_graph_observation \<Rightarrow> 'p expected_graph \<Rightarrow> alias_tag list \<Rightarrow>
   'p cascade_report" where
  "diff pn ob g scope =
     (let provenance = leaf_provenance pn ob;
          state = (\<lambda>alias. alias_state_of (bt_get (og_tags ob) alias));
          rows = alias_rows pn ob g provenance
      in \<lparr>cr_identifier = og_identifier ob, cr_logical = og_logical ob,
          cr_aliases = bt_collect (map (\<lambda>alias. (alias, state alias)) scope),
          cr_rows = concat (map rows scope),
          cr_index_findings = index_findings_of ob scope,
          cr_ignored_tags = og_ignored_tags ob,
          cr_unrepairable =
            map WouldEmptyIndex
              (filter (\<lambda>alias. needs_write (state alias) (rows alias) \<and> planned_entries pn alias ob g = []) scope)\<rparr>)"

subsection \<open>Repairs\<close>

definition plan_repairs ::
  "'p::linorder platform_names \<Rightarrow> 'p cascade_report \<Rightarrow> 'p tag_graph_observation \<Rightarrow> 'p expected_graph \<Rightarrow>
   'p planned_write list" where
  "plan_repairs pn report ob g =
     List.map_filter (\<lambda>(alias, st).
       let reasons = filter (\<lambda>r. sr_status r \<noteq> SlotOk \<and> sr_tag r = alias) (cr_rows report);
           manifests = planned_entries pn alias ob g
       in if \<not> needs_write st reasons then None
          else if manifests = [] then None
          else Some
            \<lparr>pw_tag = alias,
             pw_index =
               \<lparr>ix_schema_version = index_schema_version,
                ix_media_type =
                  (case observed_index ob alias of
                     Some ix \<Rightarrow> ix_media_type ix
                   | None \<Rightarrow> Some media_type_oci_image_index),
                ix_artifact_type =
                  (case Option.bind (observed_index ob alias) ix_artifact_type of
                     Some t \<Rightarrow> Some t
                   | None \<Rightarrow> Some media_type_package_v1),
                ix_manifests = manifests,
                ix_annotations = Option.bind (observed_index ob alias) ix_annotations\<rparr>,
             pw_observed_digest = map_option ob_digest (bt_get (og_tags ob) alias),
             pw_referenced_digests = bs_collect (map e_digest manifests),
             pw_reasons = reasons\<rparr>)
       (cr_aliases report)"

subsection \<open>Scopes\<close>

definition scope_request :: "package_ref \<Rightarrow> (scope_error, alias_tag option) result" where
  "scope_request identifier =
     (if pr_digest identifier \<noteq> None then Inl DigestReference
      else case pr_tag identifier of
        None \<Rightarrow> Inr None
      | Some tag \<Rightarrow>
          (case tag_from tag of
             Latest \<Rightarrow> Inr (Some (Root None))
           | VersionTag v \<Rightarrow> Inr (Some (AliasVersion v))
           | _ \<Rightarrow> Inl (NotAVersionTag tag)))"

definition is_below :: "alias_tag \<Rightarrow> version \<Rightarrow> bool" where
  "is_below alias ancestor =
     (case alias of Root _ \<Rightarrow> False | AliasVersion v \<Rightarrow> list_ex (\<lambda>p. p = ancestor) (ancestors v))"

definition path_to_root :: "version \<Rightarrow> alias_tag list \<Rightarrow> alias_tag list" where
  "path_to_root v universe =
     bs_collect (filter (\<lambda>a. a \<in> set universe) (map AliasVersion (ancestors v) @ [Root (variant v)]))"

definition bs_extend :: "'a::linorder list \<Rightarrow> 'a btree_set \<Rightarrow> 'a btree_set" where
  "bs_extend xs s = foldl (\<lambda>s x. bs_insert x s) s xs"

fun scope_requests ::
  "version list \<Rightarrow> alias_tag list \<Rightarrow> alias_tag option list \<Rightarrow> alias_tag list \<Rightarrow> (scope_error, alias_tag list) result" where
  "scope_requests versions universe [] scope = Inr scope"
| "scope_requests versions universe (None # rs) scope =
     scope_requests versions universe rs (bs_extend universe scope)"
| "scope_requests versions universe (Some (Root n) # rs) scope =
     scope_requests versions universe rs (bs_extend (filter (\<lambda>a. alias_track a = n) universe) scope)"
| "scope_requests versions universe (Some (AliasVersion v) # rs) scope =
     (let requested = AliasVersion v
      in if requested \<in> set universe then
           scope_requests versions universe rs
             (bs_extend (path_to_root v universe)
               (bs_extend (filter (\<lambda>a. is_below a v) universe) (bs_insert requested scope)))
         else if v \<notin> set versions then Inl (UnknownTag (version_to_string v))
         else scope_requests versions universe rs (bs_extend (path_to_root v universe) scope))"

definition scope_filter :: "version list \<Rightarrow> alias_tag option list \<Rightarrow> (scope_error, alias_tag list) result" where
  "scope_filter versions requests = scope_requests versions (alias_universe versions) requests []"

subsection \<open>Chains, the universe and the leaves\<close>

lemma alias_chain_stable:
  "\<not> has_prerelease v \<Longrightarrow> alias_chain v = map AliasVersion (ancestors v) @ [Root (variant v)]"
  by (simp add: alias_chain_def decompose_targets_def)

lemma alias_chain_prerelease:
  "has_prerelease v \<Longrightarrow> alias_chain v = (case (has_build v, parent v) of (True, Some p) \<Rightarrow> [AliasVersion p] | _ \<Rightarrow> [])"
  by (auto simp: alias_chain_def decompose_targets_def Let_def split: option.split bool.split)

lemma alias_chain_prerelease_iff:
  "has_prerelease v \<Longrightarrow> a \<in> set (alias_chain v) \<longleftrightarrow> has_build v \<and> (\<exists>p. parent v = Some p \<and> a = AliasVersion p)"
  by (auto simp: alias_chain_prerelease split: bool.splits option.splits)

lemma alias_chain_stable_iff:
  "\<not> has_prerelease v \<Longrightarrow>
     a \<in> set (alias_chain v) \<longleftrightarrow> a = Root (variant v) \<or> (\<exists>t \<in> set (ancestors v). a = AliasVersion t)"
  by (auto simp: alias_chain_stable)

lemma parent_prerelease:
  "has_prerelease v \<Longrightarrow> has_build v \<Longrightarrow> parent v = Some p \<Longrightarrow> has_prerelease p \<and> \<not> has_build p"
  by (cases v rule: version_shapes) (auto simp: has_prerelease_def has_build_def parent_def)

text \<open>An alias cascades no further than the versions that cascade into it.\<close>

lemma alias_chain_closed:
  assumes "AliasVersion t \<in> set (alias_chain v)"
  shows "set (alias_chain t) \<subseteq> set (alias_chain v)"
proof (cases "has_prerelease v")
  case True
  then have "has_prerelease t" "\<not> has_build t"
    using assms parent_prerelease [OF True, of t] by (simp_all add: alias_chain_prerelease_iff)
  then show ?thesis by (auto simp: alias_chain_prerelease_iff)
next
  case False
  then have t: "t \<in> set (ancestors v)" using assms by (simp add: alias_chain_stable_iff)
  then have stable: "\<not> has_prerelease t" and track: "variant t = variant v"
    using False ancestors_prerelease ancestors_variant by blast+
  show ?thesis
  proof
    fix a assume "a \<in> set (alias_chain t)"
    then consider "a = Root (variant v)" | u where "u \<in> set (ancestors t)" "a = AliasVersion u"
      using stable track by (auto simp: alias_chain_stable_iff)
    then show "a \<in> set (alias_chain v)"
      using False ancestors_trans [OF _ t] by cases (auto simp: alias_chain_stable_iff)
  qed
qed

lemma alias_chain_greater: "AliasVersion t \<in> set (alias_chain v) \<Longrightarrow> v < t"
  by (cases "has_prerelease v")
    (auto simp: alias_chain_stable alias_chain_prerelease ancestor_greater parent_greater split: bool.splits option.splits)

lemma alias_chain_track:
  assumes "a \<in> set (alias_chain v)"
  shows "alias_track a = variant v"
proof (cases "has_prerelease v")
  case True
  then obtain p where "parent v = Some p" "a = AliasVersion p"
    using assms by (auto simp: alias_chain_prerelease_iff)
  then show ?thesis
    using ancestors_variant [of p v] by (simp add: ancestors_parent)
next
  case False
  then show ?thesis using assms ancestors_variant by (auto simp: alias_chain_stable_iff)
qed

lemma alias_universe_set: "set (alias_universe vs) = (\<Union>v \<in> set vs. set (alias_chain v))"
  by (simp add: alias_universe_def)

lemma alias_universe_ok [simp]: "bs_ok (alias_universe vs)"
  by (simp add: alias_universe_def)

lemma leaves_set: "set (leaves vs) = {v \<in> set vs. AliasVersion v \<notin> set (alias_universe vs)}"
  by (simp add: leaves_def)

lemma leaves_ascending: "bs_ok vs \<Longrightarrow> bs_ok (leaves vs)"
  by (simp add: leaves_def sorted_wrt_filter)

lemma observed_versions_ok [simp]: "bs_ok (observed_versions ob)"
  by (simp add: observed_versions_def)

lemma observed_versions_iff: "v \<in> set (observed_versions ob) \<longleftrightarrow> bt_get (og_tags ob) (AliasVersion v) \<noteq> None"
proof -
  have "(case t of AliasVersion v \<Rightarrow> Some v | Root _ \<Rightarrow> None) = Some v \<longleftrightarrow> t = AliasVersion v" for t
    by (cases t) auto
  then have "v \<in> set (observed_versions ob) \<longleftrightarrow> AliasVersion v \<in> set (bt_keys (og_tags ob))"
    by (simp add: observed_versions_def map_filter_ex del: set_map)
  then show ?thesis by (auto simp: bt_keys_dom dom_def simp del: set_map)
qed

text \<open>
  Observing more aliases changes neither the universe nor the leaves: what an
  alias cascades into, the versions below it already cascade into.
\<close>

lemma universe_absorbs_aliases:
  assumes "\<And>t. t \<in> set vs' \<Longrightarrow> t \<in> set vs \<or> AliasVersion t \<in> set (alias_universe vs)" "set vs \<subseteq> set vs'"
  shows "set (alias_universe vs') = set (alias_universe vs)"
proof
  show "set (alias_universe vs) \<subseteq> set (alias_universe vs')"
    using assms(2) by (auto simp: alias_universe_set)
  have "set (alias_chain t) \<subseteq> set (alias_universe vs)" if "t \<in> set vs'" for t
    using assms(1) [OF that] alias_chain_closed by (fastforce simp: alias_universe_set)
  then show "set (alias_universe vs') \<subseteq> set (alias_universe vs)"
    by (auto simp: alias_universe_set)
qed

lemma leaves_absorb_aliases:
  assumes "\<And>t. t \<in> set vs' \<Longrightarrow> t \<in> set vs \<or> AliasVersion t \<in> set (alias_universe vs)" "set vs \<subseteq> set vs'"
  shows "set (leaves vs') = set (leaves vs)"
  using assms universe_absorbs_aliases [OF assms] by (auto simp: leaves_set)

subsection \<open>Slots\<close>

lemma same_descriptor_iff: "same_descriptor l r \<longleftrightarrow> l = r"
  by (cases l; cases r) (auto simp: same_descriptor_def)

definition index_slot :: "'p platform_names \<Rightarrow> 'p image_index \<Rightarrow> 'p \<Rightarrow> 'p index_entry option" where
  "index_slot pn ix p = map_of (rev (slot_entries pn ix)) p"

definition observed_slot ::
  "'p platform_names \<Rightarrow> 'p tag_graph_observation \<Rightarrow> alias_tag \<Rightarrow> 'p \<Rightarrow> 'p index_entry option" where
  "observed_slot pn ob a p = Option.bind (observed_index ob a) (\<lambda>ix. index_slot pn ix p)"

definition unique_slots :: "'p platform_names \<Rightarrow> 'p tag_graph_observation \<Rightarrow> alias_tag \<Rightarrow> bool" where
  "unique_slots pn ob a = (case observed_index ob a of None \<Rightarrow> True | Some ix \<Rightarrow> distinct (map fst (slot_entries pn ix)))"

lemma slot_entries_platform: "(p, e) \<in> set (slot_entries pn ix) \<longleftrightarrow> e \<in> set (ix_manifests ix) \<and> platform_slot pn e = Some p"
  by (auto simp: slot_entries_def map_filter_ex)

lemma index_slot_platform: "index_slot pn ix p = Some e \<Longrightarrow> e \<in> set (ix_manifests ix) \<and> platform_slot pn e = Some p"
  unfolding index_slot_def using map_of_SomeD [of "rev (slot_entries pn ix)" p e] by (simp add: slot_entries_platform)

lemma observed_slots_fold:
  fixes xs :: "('p::linorder \<times> 'e) list"
  defines "run \<equiv> foldl (\<lambda>(slots, shadowed) (p, e).
      (bt_insert p e slots, case bt_get slots p of Some previous \<Rightarrow> shadowed @ [(p, previous)] | None \<Rightarrow> shadowed))"
  shows "fst (run ([], []) xs) = bt_collect xs"
    and "snd (run ([], []) xs) = [] \<longleftrightarrow> distinct (map fst xs)"
    and "\<forall>(p, e) \<in> set (snd (run ([], []) xs)). (p, e) \<in> set xs"
proof (induction xs rule: rev_induct)
  case Nil
  { case 1 show ?case by (simp add: run_def bt_collect_def) }
  { case 2 show ?case by (simp add: run_def) }
  { case 3 show ?case by (simp add: run_def) }
next
  case (snoc x xs)
  obtain p e where x: "x = (p, e)" by (cases x)
  obtain slots shadowed where run: "run ([], []) xs = (slots, shadowed)" by (cases "run ([], []) xs")
  have slots: "slots = bt_collect xs" using snoc(1) run by simp
  then have get: "bt_get slots p = map_of (rev xs) p" by (simp add: bt_collect_get)
  have step: "run ([], []) (xs @ [x]) =
      (bt_insert p e slots, case bt_get slots p of Some previous \<Rightarrow> shadowed @ [(p, previous)] | None \<Rightarrow> shadowed)"
    using run by (simp add: run_def x)
  { case 1 show ?case using step slots by (simp add: x bt_collect_def) }
  { case 2 show ?case
      using step snoc(2) run get by (auto simp: x map_of_eq_None_iff split: option.split)
        (metis (no_types, lifting) fst_conv image_eqI map_of_SomeD set_rev) }
  { case 3
    have "bt_get slots p = Some y \<Longrightarrow> (p, y) \<in> set xs" for y
      using get map_of_SomeD [of "rev xs" p y] by simp
    then show ?case using step snoc(3) run by (auto simp: x split: option.split) }
qed

lemma observed_slots_spec:
  shows "bt_get (fst (observed_slots pn ob a)) = observed_slot pn ob a"
    and "bt_ok (fst (observed_slots pn ob a))"
    and "snd (observed_slots pn ob a) = [] \<longleftrightarrow> unique_slots pn ob a"
  by (auto simp: observed_slots_def observed_slot_def index_slot_def unique_slots_def observed_slots_fold
      bt_collect_get fun_eq_iff split: option.split)

subsection \<open>What the fold expects\<close>

definition leaf_writes ::
  "'p platform_names \<Rightarrow> 'p tag_graph_observation \<Rightarrow> version \<Rightarrow> ((alias_tag \<times> 'p) \<times> 'p expected_slot) list" where
  "leaf_writes pn ob leaf =
     (case observed_index ob (AliasVersion leaf) of
        None \<Rightarrow> []
      | Some ix \<Rightarrow>
          concat (map (\<lambda>(p, e). map (\<lambda>a. ((a, p), \<lparr>ex_entry = e, ex_source = leaf\<rparr>)) (alias_chain leaf))
            (slot_entries pn ix)))"

lemma fold_expected_writes:
  "fold_expected pn ob =
     foldl (\<lambda>g ((a, p), s). expect_slot a p s g) [] (concat (map (leaf_writes pn ob) (leaves (observed_versions ob))))"
proof -
  have "(case observed_index ob (AliasVersion leaf) of
           None \<Rightarrow> g
         | Some ix \<Rightarrow>
             foldl (\<lambda>g (p, e).
                      foldl (\<lambda>g alias. expect_slot alias p \<lparr>ex_entry = e, ex_source = leaf\<rparr> g) g (alias_chain leaf))
               g (slot_entries pn ix))
        = foldl (\<lambda>g ((a, p), s). expect_slot a p s g) g (leaf_writes pn ob leaf)" for g leaf
    by (simp add: leaf_writes_def foldl_nested [symmetric] foldl_map split_def cong: foldl_cong split: option.split)
  then show ?thesis
    unfolding fold_expected_def by (simp add: foldl_nested)
qed

lemma wanted_slots_Nil: "wanted_slots [] a = []"
  by (simp add: wanted_slots_def)

lemma wanted_expect_slot:
  "wanted_slots (expect_slot a p s g) a' = (if a' = a then bt_insert p s (wanted_slots g a) else wanted_slots g a')"
  by (simp add: wanted_slots_def expect_slot_def)

lemma wanted_writes:
  "bt_get (wanted_slots (foldl (\<lambda>g ((a, p), s). expect_slot a p s g) [] ws) a) p = map_of (rev ws) (a, p)"
  "bt_ok (wanted_slots (foldl (\<lambda>g ((a, p), s). expect_slot a p s g) [] ws) a)"
  by (induction ws rule: rev_induct) (auto simp: wanted_expect_slot wanted_slots_Nil)

lemma last_leaf_write:
  "map_of (rev (leaf_writes pn ob leaf)) (a, p) =
     (if a \<in> set (alias_chain leaf)
      then map_option (\<lambda>e. \<lparr>ex_entry = e, ex_source = leaf\<rparr>) (observed_slot pn ob (AliasVersion leaf) p) else None)"
proof -
  have one: "map_of (rev (map (\<lambda>a. ((a, q), s)) as)) (a, p) = (if a \<in> set as \<and> p = q then Some s else None)"
    for q as and s :: "'a expected_slot"
    by (induction as rule: rev_induct) auto
  have "map_of (rev (concat (map (\<lambda>(q, e). map (\<lambda>a. ((a, q), \<lparr>ex_entry = e, ex_source = leaf\<rparr>)) as) xs))) (a, p)
      = (if a \<in> set as then map_option (\<lambda>e. \<lparr>ex_entry = e, ex_source = leaf\<rparr>) (map_of (rev xs) p) else None)"
    for as and xs :: "('a \<times> 'a index_entry) list"
    by (induction xs rule: rev_induct) (auto simp: one map_add_def split: option.split if_splits)
  then show ?thesis
    by (simp add: leaf_writes_def observed_slot_def index_slot_def split: option.split)
qed

lemma expected_slot_iff:
  "bt_get (wanted_slots (fold_expected pn ob) a) p = Some s \<longleftrightarrow>
     ex_source s \<in> set (leaves (observed_versions ob)) \<and> a \<in> set (alias_chain (ex_source s))
     \<and> observed_slot pn ob (AliasVersion (ex_source s)) p = Some (ex_entry s)
     \<and> (\<forall>z \<in> set (leaves (observed_versions ob)).
          ex_source s < z \<and> a \<in> set (alias_chain z) \<longrightarrow> observed_slot pn ob (AliasVersion z) p = None)"
proof -
  have eq: "(\<lparr>ex_entry = e, ex_source = x\<rparr> = s) \<longleftrightarrow> e = ex_entry s \<and> x = ex_source s" for e x
    by (cases s) auto
  show ?thesis
    unfolding fold_expected_writes wanted_writes
      last_write_ascending [OF leaves_ascending [OF observed_versions_ok]] last_leaf_write
    by (auto simp: eq split: if_splits)
qed

lemma expected_in_universe:
  assumes "bt_get (wanted_slots (fold_expected pn ob) a) p = Some s"
  shows "a \<in> set (alias_universe (observed_versions ob))"
  using assms unfolding expected_slot_iff by (auto simp: alias_universe_set leaves_set)

lemma wanted_ok: "bt_ok (wanted_slots (fold_expected pn ob) a)"
  unfolding fold_expected_writes by (rule wanted_writes)

subsection \<open>What the difference reports\<close>

definition alias_clean ::
  "'p::linorder platform_names \<Rightarrow> 'p tag_graph_observation \<Rightarrow> 'p expected_graph \<Rightarrow> alias_tag \<Rightarrow> bool" where
  "alias_clean pn ob g a \<longleftrightarrow>
     (\<forall>p. map_option ex_entry (bt_get (wanted_slots g a) p) = observed_slot pn ob a p) \<and> unique_slots pn ob a"

lemma alias_rows_set:
  "set (alias_rows pn ob g provenance a) =
     {r. \<exists>p. slot_row_of provenance (wanted_slots g a) (fst (observed_slots pn ob a)) a p = Some r}
     \<union> set (map (shadow_row provenance (wanted_slots g a) a) (snd (observed_slots pn ob a)))"
proof -
  let ?row = "slot_row_of provenance (wanted_slots g a) (fst (observed_slots pn ob a)) a"
  have keyed: "p \<in> set (bt_keys (wanted_slots g a)) \<union> set (bt_keys (fst (observed_slots pn ob a)))" if "?row p \<noteq> None" for p
  proof (rule ccontr)
    assume "\<not> ?thesis"
    then have "bt_get (wanted_slots g a) p = None" "bt_get (fst (observed_slots pn ob a)) p = None"
      by (simp_all add: map_of_eq_None_iff)
    with that show False by (simp add: slot_row_of_def)
  qed
  have "r \<in> set (List.map_filter ?row (bs_collect (bt_keys (wanted_slots g a) @ bt_keys (fst (observed_slots pn ob a)))))
      \<longleftrightarrow> (\<exists>p. ?row p = Some r)" for r
    unfolding map_filter_ex bs_collect_set set_append using keyed by blast
  then show ?thesis
    unfolding alias_rows_def Let_def case_prod_beta set_sort set_append by blast
qed

lemma slot_row_tag: "slot_row_of provenance wanted held a p = Some r \<Longrightarrow> sr_tag r = a \<and> sr_platform r = p"
  by (auto simp: slot_row_of_def Let_def split: option.splits if_splits)

lemma slot_row_status:
  "slot_row_of provenance wanted held a p = Some r \<Longrightarrow>
     sr_status r =
       (case (bt_get wanted p, bt_get held p) of
          (Some s, Some e) \<Rightarrow> (if ex_entry s = e then SlotOk else SlotStale)
        | (Some _, None) \<Rightarrow> SlotMissing
        | (None, _) \<Rightarrow> SlotOrphan)"
  by (auto simp: slot_row_of_def Let_def same_descriptor_iff split: option.splits if_splits)

lemma slot_row_of_None: "slot_row_of provenance wanted held a p = None \<longleftrightarrow> bt_get wanted p = None \<and> bt_get held p = None"
  by (auto simp: slot_row_of_def Let_def split: option.splits)

lemma alias_rows_tag: "r \<in> set (alias_rows pn ob g provenance a) \<Longrightarrow> sr_tag r = a"
  by (auto simp: alias_rows_set shadow_row_def dest: slot_row_tag)

lemma rows_clean_iff:
  "(\<forall>r \<in> set (alias_rows pn ob g provenance a). sr_status r = SlotOk) \<longleftrightarrow> alias_clean pn ob g a"
proof -
  let ?w = "bt_get (wanted_slots g a)" and ?h = "bt_get (fst (observed_slots pn ob a))"
  let ?row = "slot_row_of provenance (wanted_slots g a) (fst (observed_slots pn ob a)) a"
  have slots: "(\<forall>r. ?row p = Some r \<longrightarrow> sr_status r = SlotOk) \<longleftrightarrow> map_option ex_entry (?w p) = ?h p" for p
    by (cases "?w p"; cases "?h p") (simp_all add: slot_row_of_def Let_def same_descriptor_iff)
  have "(\<forall>r \<in> set (map (shadow_row provenance (wanted_slots g a) a) (snd (observed_slots pn ob a))). sr_status r = SlotOk)
      \<longleftrightarrow> snd (observed_slots pn ob a) = []"
    by (cases "snd (observed_slots pn ob a)") (auto simp: shadow_row_def)
  then show ?thesis
    using slots unfolding alias_rows_set alias_clean_def observed_slots_spec by blast
qed

definition index_agrees :: "'p tag_graph_observation \<Rightarrow> alias_tag \<Rightarrow> bool" where
  "index_agrees ob a \<longleftrightarrow>
     (case (og_index_root ob, bt_get (og_tags ob) a) of
        (Some root, Some t) \<Rightarrow> map_option rt_content (bt_get (ir_tags root) (alias_to_string a)) = Some (ob_digest t)
      | _ \<Rightarrow> True)"

lemma index_findings_empty: "index_findings_of ob scope = [] \<longleftrightarrow> (\<forall>a \<in> set scope. index_agrees ob a)"
proof -
  have "List.map_filter f xs = [] \<longleftrightarrow> (\<forall>x \<in> set xs. f x = None)" for f :: "alias_tag \<Rightarrow> index_finding option" and xs
    by (auto simp: List.map_filter_def filter_empty_conv)
  moreover have "(case bt_get (og_tags ob) a of
        None \<Rightarrow> None
      | Some t \<Rightarrow>
          (case bt_get (ir_tags root) (alias_to_string a) of
             None \<Rightarrow> Some (NotCommitted a)
           | Some committed \<Rightarrow>
               (if rt_content committed \<noteq> ob_digest t
                then Some (IndexStale a (rt_content committed) (ob_digest t)) else None))) = None
      \<longleftrightarrow> (case bt_get (og_tags ob) a of
            None \<Rightarrow> True
          | Some t \<Rightarrow> map_option rt_content (bt_get (ir_tags root) (alias_to_string a)) = Some (ob_digest t))"
    for root :: index_root and a
    by (cases "bt_get (ir_tags root) (alias_to_string a)") (auto split: option.split)
  ultimately show ?thesis
    by (cases "og_index_root ob") (simp_all add: index_findings_of_def index_agrees_def)
qed

lemma bt_collect_entries: "(k, v) \<in> set (bt_collect kvs) \<longleftrightarrow> map_of (rev kvs) k = Some v"
  using bt_ok_distinct [OF bt_collect_ok, of kvs] by (simp flip: bt_collect_get)

lemma state_entries:
  "(a, st) \<in> set (bt_collect (map (\<lambda>a. (a, f a)) scope)) \<longleftrightarrow> a \<in> set scope \<and> st = f a"
proof -
  have "map_of (rev (map (\<lambda>a. (a, f a)) scope)) a = (if a \<in> set scope then Some (f a) else None)"
    by (induction scope rule: rev_induct) auto
  then show ?thesis unfolding bt_collect_entries by auto
qed

lemma state_present: "alias_state_of (bt_get (og_tags ob) a) = Present \<longleftrightarrow> observed_index ob a \<noteq> None"
  by (auto simp: alias_state_of_def observed_index_def split: option.split manifest.split)

lemma diff_clean:
  "\<not> has_findings (diff pn ob g scope) \<longleftrightarrow>
     (\<forall>a \<in> set scope. observed_index ob a \<noteq> None \<and> alias_clean pn ob g a \<and> index_agrees ob a)"
proof -
  let ?st = "\<lambda>a. alias_state_of (bt_get (og_tags ob) a)"
  have states: "\<not> list_ex (\<lambda>(_, st). st \<noteq> Present) (bt_collect (map (\<lambda>a. (a, ?st a)) scope))
      \<longleftrightarrow> (\<forall>a \<in> set scope. observed_index ob a \<noteq> None)"
    unfolding list_ex_iff using state_entries [of _ _ ?st scope] state_present [of ob] by fastforce
  have rows: "\<not> list_ex (\<lambda>r. sr_status r \<noteq> SlotOk) (concat (map (alias_rows pn ob g provenance) scope))
      \<longleftrightarrow> (\<forall>a \<in> set scope. alias_clean pn ob g a)" for provenance
    unfolding list_ex_iff rows_clean_iff [of pn ob g provenance, symmetric] by auto
  show ?thesis
    unfolding has_findings_def diff_def Let_def using states rows index_findings_empty [of ob scope] by auto
qed

subsection \<open>What a repair writes\<close>

text \<open>The slots of a planned index: the expected entry, or else the first one the alias holds.\<close>

definition planned_slot ::
  "'p::linorder platform_names \<Rightarrow> 'p tag_graph_observation \<Rightarrow> 'p expected_graph \<Rightarrow> alias_tag \<Rightarrow> 'p \<Rightarrow> 'p index_entry option" where
  "planned_slot pn ob g a p =
     (case bt_get (wanted_slots g a) p of
        Some s \<Rightarrow> Some (ex_entry s)
      | None \<Rightarrow> Option.bind (observed_index ob a) (\<lambda>ix. map_of (slot_entries pn ix) p))"

definition planned_rest ::
  "'p platform_names \<Rightarrow> 'p tag_graph_observation \<Rightarrow> alias_tag \<Rightarrow> 'p index_entry list" where
  "planned_rest pn ob a =
     (case bt_get (og_tags ob) a of
        None \<Rightarrow> []
      | Some t \<Rightarrow>
          (case ob_manifest t of
             ImageIndex ix \<Rightarrow> filter (\<lambda>e. platform_slot pn e = None) (ix_manifests ix)
           | Image _ \<Rightarrow> [plain_entry (digest_to_string (ob_digest t)) (ob_size t) None]))"

lemma or_insert_run:
  fixes es :: "'p::linorder index_entry list" and pn :: "'p platform_names"
  defines "run \<equiv> foldl (\<lambda>(slots, un) e.
      case platform_slot pn e of Some p \<Rightarrow> (bt_or_insert p e slots, un) | None \<Rightarrow> (slots, un @ [e]))"
  assumes "bt_ok s0"
  shows "bt_ok (fst (run (s0, u0) es)) \<and>
    bt_get (fst (run (s0, u0) es)) p =
      (case bt_get s0 p of
         Some x \<Rightarrow> Some x
       | None \<Rightarrow> map_of (List.map_filter (\<lambda>e. map_option (\<lambda>p. (p, e)) (platform_slot pn e)) es) p) \<and>
    snd (run (s0, u0) es) = u0 @ filter (\<lambda>e. platform_slot pn e = None) es"
  using assms(2)
proof (induction es arbitrary: s0 u0)
  case Nil
  then show ?case by (simp add: run_def map_filter_simps split: option.split)
next
  case (Cons e es)
  show ?case
  proof (cases "platform_slot pn e")
    case None
    then have "run (s0, u0) (e # es) = run (s0, u0 @ [e]) es" by (simp add: run_def)
    then show ?thesis using Cons.IH [OF Cons.prems, of "u0 @ [e]"] None
      by (simp add: map_filter_simps split: option.split)
  next
    case (Some q)
    then have "run (s0, u0) (e # es) = run (bt_or_insert q e s0, u0) es" by (simp add: run_def)
    then show ?thesis
      using Cons.IH [OF bt_or_insert_ok [OF Cons.prems], of q e u0] Some
      by (cases "bt_get s0 p"; cases "bt_get s0 q") (auto simp: map_filter_simps)
  qed
qed

lemma planned_entries_split:
  assumes "bt_ok (wanted_slots g a)"
  obtains slots where "planned_entries pn a ob g = map snd slots @ planned_rest pn ob a"
    "bt_ok slots" "\<And>p. bt_get slots p = planned_slot pn ob g a p"
proof -
  let ?s0 = "bt_collect (map (\<lambda>(p, s). (p, ex_entry s)) (wanted_slots g a))"
  have s0: "bt_get ?s0 p = map_option ex_entry (bt_get (wanted_slots g a) p)" for p
  proof -
    have "bt_get ?s0 p = map_of (map (\<lambda>(p, s). (p, ex_entry s)) (wanted_slots g a)) p"
      using bt_ok_distinct [OF assms]
      by (simp add: bt_collect_get map_of_rev_distinct comp_def case_prod_beta)
    then show ?thesis by (simp add: map_of_map)
  qed
  consider "bt_get (og_tags ob) a = None" | t m where "bt_get (og_tags ob) a = Some t" "ob_manifest t = Image m"
    | t ix where "bt_get (og_tags ob) a = Some t" "ob_manifest t = ImageIndex ix"
    by (metis manifest.exhaust option.exhaust)
  then show ?thesis
  proof cases
    case 1
    then show ?thesis
      by (intro that [of ?s0])
        (auto simp: planned_entries_def planned_rest_def planned_slot_def observed_index_def s0 split: option.split)
  next
    case 2
    then show ?thesis
      by (intro that [of ?s0])
        (auto simp: planned_entries_def planned_rest_def planned_slot_def observed_index_def s0 split: option.split)
  next
    case 3
    let ?run = "foldl (\<lambda>(slots, un) e.
        case platform_slot pn e of Some p \<Rightarrow> (bt_or_insert p e slots, un) | None \<Rightarrow> (slots, un @ [e])) (?s0, []) (ix_manifests ix)"
    have run: "bt_ok (fst ?run)" "snd ?run = filter (\<lambda>e. platform_slot pn e = None) (ix_manifests ix)"
      "bt_get (fst ?run) p = (case bt_get ?s0 p of Some x \<Rightarrow> Some x | None \<Rightarrow> map_of (slot_entries pn ix) p)" for p
      using or_insert_run [where ?s0.0 = ?s0 and ?u0.0 = "[]" and es = "ix_manifests ix" and pn = pn and p = p]
      unfolding slot_entries_def by simp_all
    show ?thesis
    proof (rule that [of "fst ?run"])
      show "planned_entries pn a ob g = map snd (fst ?run) @ planned_rest pn ob a"
        using 3 run(2) by (simp add: planned_entries_def planned_rest_def case_prod_beta)
      show "bt_get (fst ?run) p = planned_slot pn ob g a p" for p
        using 3 run(3) [of p] by (auto simp: planned_slot_def observed_index_def s0 split: option.split)
    qed (rule run(1))
  qed
qed

text \<open>Whether an alias needs a write depends on its state and its slots alone.\<close>

definition alias_damaged ::
  "'p::linorder platform_names \<Rightarrow> 'p tag_graph_observation \<Rightarrow> 'p expected_graph \<Rightarrow> alias_tag \<Rightarrow> bool" where
  "alias_damaged pn ob g a \<longleftrightarrow>
     observed_index ob a = None \<or> \<not> unique_slots pn ob a \<or>
     (\<exists>p s. bt_get (wanted_slots g a) p = Some s \<and> observed_slot pn ob a p \<noteq> Some (ex_entry s))"

lemma needs_write_rows:
  "needs_write (alias_state_of (bt_get (og_tags ob) a)) (alias_rows pn ob g provenance a) \<longleftrightarrow> alias_damaged pn ob g a"
proof -
  let ?row = "slot_row_of provenance (wanted_slots g a) (fst (observed_slots pn ob a)) a"
  let ?bad = "\<lambda>r. sr_status r \<in> {SlotMissing, SlotStale, SlotDuplicate}"
  have slots: "(\<exists>r. ?row p = Some r \<and> ?bad r) \<longleftrightarrow>
      (\<exists>s. bt_get (wanted_slots g a) p = Some s \<and> observed_slot pn ob a p \<noteq> Some (ex_entry s))" for p
    unfolding observed_slots_spec(1) [symmetric]
    by (cases "bt_get (wanted_slots g a) p"; cases "bt_get (fst (observed_slots pn ob a)) p")
      (auto simp: slot_row_of_def Let_def same_descriptor_iff)
  have "(\<exists>r \<in> set (map (shadow_row provenance (wanted_slots g a) a) (snd (observed_slots pn ob a))). ?bad r)
      \<longleftrightarrow> \<not> unique_slots pn ob a"
    unfolding observed_slots_spec(3) [symmetric]
    by (cases "snd (observed_slots pn ob a)") (auto simp: shadow_row_def)
  then have "list_ex ?bad (alias_rows pn ob g provenance a) \<longleftrightarrow> \<not> unique_slots pn ob a \<or>
      (\<exists>p s. bt_get (wanted_slots g a) p = Some s \<and> observed_slot pn ob a p \<noteq> Some (ex_entry s))"
    unfolding list_ex_iff alias_rows_set using slots by blast
  then show ?thesis
    using state_present [of ob a] unfolding needs_write_def alias_damaged_def by auto
qed

lemma needs_write_reasons:
  assumes "a \<in> set scope"
  shows "needs_write st (filter (\<lambda>r. sr_status r \<noteq> SlotOk \<and> sr_tag r = a) (concat (map (alias_rows pn ob g provenance) scope)))
    \<longleftrightarrow> needs_write st (alias_rows pn ob g provenance a)"
  using assms unfolding needs_write_def list_ex_iff by (auto dest: alias_rows_tag)

definition planned_index ::
  "'p::linorder platform_names \<Rightarrow> 'p tag_graph_observation \<Rightarrow> 'p expected_graph \<Rightarrow> alias_tag \<Rightarrow> 'p image_index" where
  "planned_index pn ob g a =
     \<lparr>ix_schema_version = index_schema_version,
      ix_media_type =
        (case observed_index ob a of Some ix \<Rightarrow> ix_media_type ix | None \<Rightarrow> Some media_type_oci_image_index),
      ix_artifact_type =
        (case Option.bind (observed_index ob a) ix_artifact_type of Some t \<Rightarrow> Some t | None \<Rightarrow> Some media_type_package_v1),
      ix_manifests = planned_entries pn a ob g,
      ix_annotations = Option.bind (observed_index ob a) ix_annotations\<rparr>"

lemma plan_repairs_iff:
  assumes "report = diff pn ob g scope"
  shows "w \<in> set (plan_repairs pn report ob g) \<longleftrightarrow>
    (\<exists>a \<in> set scope. alias_damaged pn ob g a \<and> planned_entries pn a ob g \<noteq> [] \<and>
       w = \<lparr>pw_tag = a, pw_index = planned_index pn ob g a,
            pw_observed_digest = map_option ob_digest (bt_get (og_tags ob) a),
            pw_referenced_digests = bs_collect (map e_digest (planned_entries pn a ob g)),
            pw_reasons = filter (\<lambda>r. sr_status r \<noteq> SlotOk \<and> sr_tag r = a) (cr_rows report)\<rparr>)"
proof -
  have aliases: "cr_aliases report = bt_collect (map (\<lambda>a. (a, alias_state_of (bt_get (og_tags ob) a))) scope)"
    and rows: "cr_rows report = concat (map (alias_rows pn ob g (leaf_provenance pn ob)) scope)"
    by (simp_all add: assms diff_def Let_def)
  have damaged: "needs_write (alias_state_of (bt_get (og_tags ob) a))
        (filter (\<lambda>r. sr_status r \<noteq> SlotOk \<and> sr_tag r = a) (cr_rows report)) \<longleftrightarrow> alias_damaged pn ob g a"
    if "a \<in> set scope" for a
    unfolding rows needs_write_reasons [OF that] by (rule needs_write_rows)
  have states: "(\<exists>x \<in> set (cr_aliases report). f x = Some w) \<longleftrightarrow>
      (\<exists>a \<in> set scope. f (a, alias_state_of (bt_get (og_tags ob) a)) = Some w)" for f :: "_ \<Rightarrow> _ planned_write option"
    unfolding aliases Bex_def split_paired_Ex state_entries by blast
  show ?thesis
    unfolding plan_repairs_def map_filter_ex states planned_index_def Let_def prod.case
    by (rule bex_cong) (simp_all add: damaged eq_commute [of w])
qed

lemma slot_entries_planned:
  assumes "\<And>p e. (p, e) \<in> set slots \<Longrightarrow> platform_slot pn e = Some p" "\<And>e. e \<in> set us \<Longrightarrow> platform_slot pn e = None"
  shows "List.map_filter (\<lambda>e. map_option (\<lambda>p. (p, e)) (platform_slot pn e)) (map snd slots @ us) = slots"
proof -
  have "List.map_filter (\<lambda>e. map_option (\<lambda>p. (p, e)) (platform_slot pn e)) us = []"
    using assms(2) by (induction us) (auto simp: map_filter_simps)
  moreover have "List.map_filter (\<lambda>e. map_option (\<lambda>p. (p, e)) (platform_slot pn e)) (map snd slots) = slots"
    using assms(1)
  proof (induction slots)
    case (Cons x slots)
    have "platform_slot pn (snd x) = Some (fst x)" using Cons.prems by (cases x) auto
    moreover have "List.map_filter (\<lambda>e. map_option (\<lambda>p. (p, e)) (platform_slot pn e)) (map snd slots) = slots"
      using Cons by auto
    ultimately show ?case by (simp add: map_filter_simps)
  qed (simp add: map_filter_simps)
  moreover have "List.map_filter f (xs @ ys) = List.map_filter f xs @ List.map_filter f ys"
    for f :: "'a index_entry \<Rightarrow> ('a \<times> 'a index_entry) option" and xs ys
    by (simp add: List.map_filter_def)
  ultimately show ?thesis by simp
qed

lemma platform_slot_plain: "platform_slot pn (plain_entry d sz None) = None"
  by (simp add: platform_slot_def plain_entry_def)

lemma planned_rest_unplatformed: "e \<in> set (planned_rest pn ob a) \<Longrightarrow> platform_slot pn e = None"
  by (cases "bt_get (og_tags ob) a"; cases "ob_manifest (the (bt_get (og_tags ob) a))")
    (auto simp: planned_rest_def platform_slot_plain)

lemma planned_slot_platform:
  assumes "planned_slot pn ob (fold_expected pn ob) a p = Some e"
  shows "platform_slot pn e = Some p"
proof (cases "bt_get (wanted_slots (fold_expected pn ob) a) p")
  case None
  with assms obtain ix where "map_of (slot_entries pn ix) p = Some e"
    by (auto simp: planned_slot_def bind_eq_Some_conv)
  then show ?thesis using map_of_SomeD slot_entries_platform by fast
next
  case (Some s)
  then have "observed_slot pn ob (AliasVersion (ex_source s)) p = Some (ex_entry s)"
    unfolding expected_slot_iff by simp
  then obtain ix where "index_slot pn ix p = Some (ex_entry s)"
    by (auto simp: observed_slot_def bind_eq_Some_conv)
  with Some assms show ?thesis
    using index_slot_platform by (fastforce simp: planned_slot_def)
qed

lemma planned_index_slots:
  "index_slot pn (planned_index pn ob (fold_expected pn ob) a) p = planned_slot pn ob (fold_expected pn ob) a p"
  "distinct (map fst (slot_entries pn (planned_index pn ob (fold_expected pn ob) a)))"
proof -
  obtain slots where slots: "planned_entries pn a ob (fold_expected pn ob) = map snd slots @ planned_rest pn ob a"
    "bt_ok slots" "\<And>p. bt_get slots p = planned_slot pn ob (fold_expected pn ob) a p"
    using planned_entries_split [OF wanted_ok] by blast
  have platforms: "platform_slot pn e = Some p" if "(p, e) \<in> set slots" for p e
  proof -
    have "bt_get slots p = Some e" using that bt_ok_distinct [OF slots(2)] by simp
    then show ?thesis using slots(3) planned_slot_platform by metis
  qed
  have "slot_entries pn (planned_index pn ob (fold_expected pn ob) a) = slots"
    unfolding slot_entries_def planned_index_def image_index.simps slots(1)
    by (rule slot_entries_planned) (use platforms planned_rest_unplatformed in blast)+
  with slots(2,3) show
    "index_slot pn (planned_index pn ob (fold_expected pn ob) a) p = planned_slot pn ob (fold_expected pn ob) a p"
    "distinct (map fst (slot_entries pn (planned_index pn ob (fold_expected pn ob) a)))"
    by (simp_all add: index_slot_def map_of_rev_distinct bt_ok_distinct)
qed

subsection \<open>The registry after a repair\<close>

text \<open>
  What an uncontended repair leaves: every planned tag holds its planned index.
  \<open>body\<close> gives the digest and the size of the document the registry stores.
\<close>

definition repaired ::
  "('p image_index \<Rightarrow> digest \<times> i64) \<Rightarrow> 'p planned_write list \<Rightarrow> 'p tag_graph_observation \<Rightarrow> 'p tag_graph_observation" where
  "repaired body ws ob =
     ob\<lparr>og_tags := foldl (\<lambda>m w. bt_insert (pw_tag w)
           \<lparr>ob_digest = fst (body (pw_index w)), ob_size = snd (body (pw_index w)), ob_manifest = ImageIndex (pw_index w)\<rparr> m)
         (og_tags ob) ws\<rparr>"

lemma repaired_get:
  "bt_get (og_tags (repaired body ws ob)) a =
     (case map_of (rev (map (\<lambda>w. (pw_tag w, pw_index w)) ws)) a of
        Some ix \<Rightarrow> Some \<lparr>ob_digest = fst (body ix), ob_size = snd (body ix), ob_manifest = ImageIndex ix\<rparr>
      | None \<Rightarrow> bt_get (og_tags ob) a)"
  unfolding repaired_def by (induction ws rule: rev_induct) (auto split: option.split)

lemma repaired_index:
  assumes "\<And>w. w \<in> set ws \<Longrightarrow> pw_index w = h (pw_tag w)"
  shows "observed_index (repaired body ws ob) a = (if a \<in> pw_tag ` set ws then Some (h a) else observed_index ob a)"
proof -
  have "map_of (rev (map (\<lambda>w. (pw_tag w, pw_index w)) ws)) a = (if a \<in> pw_tag ` set ws then Some (h a) else None)"
    using assms by (induction ws rule: rev_induct) auto
  then show ?thesis by (simp add: observed_index_def repaired_get)
qed

lemma repaired_versions:
  "v \<in> set (observed_versions (repaired body ws ob)) \<longleftrightarrow>
     v \<in> set (observed_versions ob) \<or> AliasVersion v \<in> pw_tag ` set ws"
proof -
  let ?m = "map_of (rev (map (\<lambda>w. (pw_tag w, pw_index w)) ws))"
  have "?m (AliasVersion v) = None \<longleftrightarrow> AliasVersion v \<notin> pw_tag ` set ws"
    by (force simp: map_of_eq_None_iff)
  then show ?thesis
    unfolding observed_versions_iff repaired_get by (cases "?m (AliasVersion v)") simp_all
qed

lemma repaired_leaves:
  assumes "pw_tag ` set ws \<subseteq> set (alias_universe (observed_versions ob))"
  shows "set (leaves (observed_versions (repaired body ws ob))) = set (leaves (observed_versions ob))"
  by (rule leaves_absorb_aliases) (use assms in \<open>auto simp: repaired_versions\<close>)

lemma repaired_expected:
  assumes "pw_tag ` set ws \<subseteq> set (alias_universe (observed_versions ob))"
    "\<And>w. w \<in> set ws \<Longrightarrow> pw_index w = h (pw_tag w)"
  shows "wanted_slots (fold_expected pn (repaired body ws ob)) a = wanted_slots (fold_expected pn ob) a"
proof (rule bt_ext)
  let ?ob = "repaired body ws ob"
  have "observed_slot pn ?ob (AliasVersion v) p = observed_slot pn ob (AliasVersion v) p"
    if "v \<in> set (leaves (observed_versions ob))" for v p
    using that assms(1) by (auto simp: observed_slot_def repaired_index [OF assms(2)] leaves_set)
  then have "bt_get (wanted_slots (fold_expected pn ?ob) a) p = Some s
      \<longleftrightarrow> bt_get (wanted_slots (fold_expected pn ob) a) p = Some s" for p s
    unfolding expected_slot_iff repaired_leaves [OF assms(1)] by metis
  then show "bt_get (wanted_slots (fold_expected pn ?ob) a) = bt_get (wanted_slots (fold_expected pn ob) a)"
    by (metis (no_types, lifting) ext not_Some_eq)
qed (rule wanted_ok)+

text \<open>What the plan of one check leaves at each alias of its scope.\<close>

lemma repaired_plan:
  fixes pn :: "'p::linorder platform_names" and body :: "'p image_index \<Rightarrow> digest \<times> i64"
  assumes "set scope \<subseteq> set (alias_universe (observed_versions ob))"
  defines "g \<equiv> fold_expected pn ob"
  defines "ob' \<equiv> repaired body (plan_repairs pn (diff pn ob g scope) ob g) ob"
  shows "wanted_slots (fold_expected pn ob') a = wanted_slots g a"
    and "a \<in> set scope \<Longrightarrow> alias_damaged pn ob g a \<Longrightarrow> planned_entries pn a ob g \<noteq> [] \<Longrightarrow>
      observed_index ob' a = Some (planned_index pn ob g a)"
    and "\<not> (a \<in> set scope \<and> alias_damaged pn ob g a \<and> planned_entries pn a ob g \<noteq> []) \<Longrightarrow>
      bt_get (og_tags ob') a = bt_get (og_tags ob) a"
proof -
  let ?ws = "plan_repairs pn (diff pn ob g scope) ob g"
  have tags: "a \<in> pw_tag ` set ?ws \<longleftrightarrow> a \<in> set scope \<and> alias_damaged pn ob g a \<and> planned_entries pn a ob g \<noteq> []" for a
    unfolding image_iff Bex_def plan_repairs_iff [OF refl] by auto
  have planned: "pw_index w = planned_index pn ob g (pw_tag w)" if "w \<in> set ?ws" for w
    using that unfolding plan_repairs_iff [OF refl] by auto
  have "pw_tag ` set ?ws \<subseteq> set (alias_universe (observed_versions ob))"
    using tags assms(1) by auto
  then show "wanted_slots (fold_expected pn ob') a = wanted_slots g a"
    unfolding ob'_def g_def using planned [unfolded g_def] by (rule repaired_expected)
  show "observed_index ob' a = Some (planned_index pn ob g a)"
    if "a \<in> set scope" "alias_damaged pn ob g a" "planned_entries pn a ob g \<noteq> []"
    unfolding ob'_def using repaired_index [OF planned, where ws = ?ws] tags [of a] that by simp
  show "bt_get (og_tags ob') a = bt_get (og_tags ob) a"
    if "\<not> (a \<in> set scope \<and> alias_damaged pn ob g a \<and> planned_entries pn a ob g \<noteq> [])"
  proof -
    have "map_of (rev (map (\<lambda>w. (pw_tag w, pw_index w)) ?ws)) a = None"
      using tags [of a] that by (force simp: map_of_eq_None_iff)
    then show ?thesis unfolding ob'_def repaired_get by simp
  qed
qed

lemma planned_entries_cong:
  "wanted_slots g a = wanted_slots g' a \<Longrightarrow> bt_get (og_tags ob) a = bt_get (og_tags ob') a \<Longrightarrow>
     planned_entries pn a ob g = planned_entries pn a ob' g'"
  by (simp add: planned_entries_def)

lemma alias_damaged_cong:
  "wanted_slots g a = wanted_slots g' a \<Longrightarrow> bt_get (og_tags ob) a = bt_get (og_tags ob') a \<Longrightarrow>
     alias_damaged pn ob g a = alias_damaged pn ob' g' a"
  by (simp add: alias_damaged_def unique_slots_def observed_slot_def observed_index_def)

lemma planned_not_empty:
  assumes "bt_get (wanted_slots (fold_expected pn ob) a) p \<noteq> None"
  shows "planned_entries pn a ob (fold_expected pn ob) \<noteq> []"
proof -
  obtain slots where slots: "planned_entries pn a ob (fold_expected pn ob) = map snd slots @ planned_rest pn ob a"
    "\<And>p. bt_get slots p = planned_slot pn ob (fold_expected pn ob) a p"
    using planned_entries_split [OF wanted_ok] by metis
  have "bt_get slots p \<noteq> None" using assms by (auto simp: slots(2) planned_slot_def)
  then show ?thesis by (auto simp: slots(1))
qed

lemma repaired_slots:
  fixes pn :: "'p::linorder platform_names" and body :: "'p image_index \<Rightarrow> digest \<times> i64"
  assumes "set scope \<subseteq> set (alias_universe (observed_versions ob))" "a \<in> set scope"
  defines "g \<equiv> fold_expected pn ob"
  defines "ob' \<equiv> repaired body (plan_repairs pn (diff pn ob g scope) ob g) ob"
  shows "alias_damaged pn ob g a \<Longrightarrow> planned_entries pn a ob g \<noteq> [] \<Longrightarrow>
      observed_index ob' a \<noteq> None \<and> unique_slots pn ob' a \<and> observed_slot pn ob' a p = planned_slot pn ob g a p"
    and "\<not> alias_damaged pn ob g a \<Longrightarrow>
      observed_index ob' a \<noteq> None \<and> unique_slots pn ob' a \<and> observed_slot pn ob' a p = observed_slot pn ob a p"
proof -
  assume "alias_damaged pn ob g a" "planned_entries pn a ob g \<noteq> []"
  then have "observed_index ob' a = Some (planned_index pn ob g a)"
    using repaired_plan(2) [OF assms(1,2)] by (simp add: g_def ob'_def)
  then show "observed_index ob' a \<noteq> None \<and> unique_slots pn ob' a \<and> observed_slot pn ob' a p = planned_slot pn ob g a p"
    by (simp add: unique_slots_def observed_slot_def planned_index_slots g_def)
next
  assume intact: "\<not> alias_damaged pn ob g a"
  then have "bt_get (og_tags ob') a = bt_get (og_tags ob) a"
    using repaired_plan(3) [OF assms(1)] by (simp add: g_def ob'_def)
  then have same: "observed_index ob' a = observed_index ob a"
    by (simp add: observed_index_def)
  then show "observed_index ob' a \<noteq> None \<and> unique_slots pn ob' a \<and> observed_slot pn ob' a p = observed_slot pn ob a p"
    using intact by (auto simp: alias_damaged_def unique_slots_def observed_slot_def)
qed

lemma repaired_undamaged:
  fixes pn :: "'p::linorder platform_names" and body :: "'p image_index \<Rightarrow> digest \<times> i64"
  assumes "set scope \<subseteq> set (alias_universe (observed_versions ob))"
  defines "g \<equiv> fold_expected pn ob"
  defines "ob' \<equiv> repaired body (plan_repairs pn (diff pn ob g scope) ob g) ob"
  shows "plan_repairs pn (diff pn ob' (fold_expected pn ob') scope) ob' (fold_expected pn ob') = []"
proof -
  let ?g' = "fold_expected pn ob'"
  have wanted: "wanted_slots ?g' a = wanted_slots g a" for a
    unfolding g_def ob'_def by (rule repaired_plan(1) [OF assms(1)])
  have "\<not> (alias_damaged pn ob' ?g' a \<and> planned_entries pn a ob' ?g' \<noteq> [])" if a: "a \<in> set scope" for a
  proof (cases "alias_damaged pn ob g a \<and> planned_entries pn a ob g \<noteq> []")
    case True
    then show ?thesis
      using repaired_slots(1) [OF assms(1) a, of pn body] wanted
      by (auto simp: alias_damaged_def planned_slot_def g_def ob'_def)
  next
    case False
    then have "bt_get (og_tags ob') a = bt_get (og_tags ob) a"
      using repaired_plan(3) [OF assms(1)] by (simp add: g_def ob'_def)
    then show ?thesis
      using False alias_damaged_cong [OF wanted] planned_entries_cong [OF wanted] by metis
  qed
  then have "\<And>w. w \<notin> set (plan_repairs pn (diff pn ob' ?g' scope) ob' ?g')"
    unfolding plan_repairs_iff [OF refl] by blast
  then show ?thesis by (metis list.set_intros(1) neq_Nil_conv)
qed

lemma first_slot_None: "map_of (slot_entries pn ix) p = None \<longleftrightarrow> index_slot pn ix p = None"
  by (simp add: index_slot_def map_of_eq_None_iff)

lemma repaired_outcome:
  fixes pn :: "'p::linorder platform_names"
  assumes "set scope \<subseteq> set (alias_universe (observed_versions ob))"
    "g = fold_expected pn ob" "ob' = repaired body (plan_repairs pn (diff pn ob g scope) ob g) ob"
  shows "plan_repairs pn (diff pn ob' (fold_expected pn ob') scope) ob' (fold_expected pn ob') = []"
    "a \<in> set scope \<Longrightarrow> bt_get (wanted_slots g a) p = Some s \<Longrightarrow> observed_slot pn ob' a p = Some (ex_entry s)"
    "a \<in> set scope \<Longrightarrow> bt_get (wanted_slots g a) p = Some s \<Longrightarrow>
       (\<And>q. observed_slot pn ob a q \<noteq> None \<Longrightarrow> bt_get (wanted_slots g a) q \<noteq> None) \<Longrightarrow>
       alias_clean pn ob' (fold_expected pn ob') a"
    "wanted_slots (fold_expected pn ob') a = wanted_slots g a"
proof -
  show "plan_repairs pn (diff pn ob' (fold_expected pn ob') scope) ob' (fold_expected pn ob') = []"
    unfolding assms(2,3) by (rule repaired_undamaged [OF assms(1)])
  show same: "wanted_slots (fold_expected pn ob') a = wanted_slots g a"
    unfolding assms(2,3) by (rule repaired_plan(1) [OF assms(1)])
  assume a: "a \<in> set scope" and s: "bt_get (wanted_slots g a) p = Some s"
  have planned: "planned_entries pn a ob g \<noteq> []"
    using s planned_not_empty [of pn ob a p] by (simp add: assms(2))
  have slots: "observed_slot pn ob' a q =
      (if alias_damaged pn ob g a then planned_slot pn ob g a q else observed_slot pn ob a q)" "unique_slots pn ob' a" for q
    using repaired_slots [OF assms(1) a, of pn body] planned unfolding assms(2,3) by (auto split: if_splits)
  show "observed_slot pn ob' a p = Some (ex_entry s)"
    using s slots(1) [of p] by (auto simp: planned_slot_def alias_damaged_def split: if_splits)
  assume no_orphan: "\<And>q. observed_slot pn ob a q \<noteq> None \<Longrightarrow> bt_get (wanted_slots g a) q \<noteq> None"
  have "map_option ex_entry (bt_get (wanted_slots g a) q) = observed_slot pn ob' a q" for q
  proof (cases "bt_get (wanted_slots g a) q")
    case None
    then have "observed_slot pn ob a q = None" using no_orphan by blast
    then have "planned_slot pn ob g a q = None"
      using None
      by (cases "observed_index ob a") (simp_all add: planned_slot_def observed_slot_def first_slot_None)
    with None \<open>observed_slot pn ob a q = None\<close> show ?thesis by (simp add: slots(1))
  next
    case (Some s')
    then show ?thesis
      using slots(1) [of q] by (auto simp: planned_slot_def alias_damaged_def split: if_splits)
  qed
  then show "alias_clean pn ob' (fold_expected pn ob') a"
    using slots(2) by (simp add: alias_clean_def same)
qed

lemma planned_entries_served:
  assumes "e \<in> set (planned_entries pn a ob (fold_expected pn ob))"
  shows "(\<exists>t ix. observed_index ob t = Some ix \<and> e \<in> set (ix_manifests ix)) \<or>
    (\<exists>t m. bt_get (og_tags ob) a = Some t \<and> ob_manifest t = Image m \<and>
       e = plain_entry (digest_to_string (ob_digest t)) (ob_size t) None)"
proof -
  obtain slots where slots: "planned_entries pn a ob (fold_expected pn ob) = map snd slots @ planned_rest pn ob a"
    "bt_ok slots" "\<And>p. bt_get slots p = planned_slot pn ob (fold_expected pn ob) a p"
    using planned_entries_split [OF wanted_ok] by blast
  from assms slots(1) consider p where "(p, e) \<in> set slots" | "e \<in> set (planned_rest pn ob a)" by auto
  then show ?thesis
  proof cases
    case 1
    then have planned: "planned_slot pn ob (fold_expected pn ob) a p = Some e"
      using bt_ok_distinct [OF slots(2)] slots(3) by (metis map_of_is_SomeI)
    show ?thesis
    proof (cases "bt_get (wanted_slots (fold_expected pn ob) a) p")
      case None
      with planned obtain ix where "observed_index ob a = Some ix" "map_of (slot_entries pn ix) p = Some e"
        by (auto simp: planned_slot_def bind_eq_Some_conv)
      then show ?thesis using map_of_SomeD slot_entries_platform by fast
    next
      case (Some s)
      then have "observed_slot pn ob (AliasVersion (ex_source s)) p = Some e"
        using planned unfolding expected_slot_iff by (simp add: planned_slot_def Some)
      then obtain ix where "observed_index ob (AliasVersion (ex_source s)) = Some ix" "index_slot pn ix p = Some e"
        by (auto simp: observed_slot_def bind_eq_Some_conv)
      then show ?thesis using index_slot_platform by fast
    qed
  next
    case 2
    then obtain t where t: "bt_get (og_tags ob) a = Some t"
      by (cases "bt_get (og_tags ob) a") (simp_all add: planned_rest_def)
    show ?thesis
    proof (cases "ob_manifest t")
      case (ImageIndex ix)
      then have "observed_index ob a = Some ix" "e \<in> set (ix_manifests ix)"
        using t 2 by (simp_all add: planned_rest_def observed_index_def)
      then show ?thesis by blast
    qed (use t 2 in \<open>simp add: planned_rest_def\<close>)
  qed
qed

lemma repaired_first_orphan:
  fixes pn :: "'p::linorder platform_names"
  assumes "set scope \<subseteq> set (alias_universe (observed_versions ob))" "a \<in> set scope" "observed_index ob a = Some ix"
    "bt_get (wanted_slots (fold_expected pn ob) a) p = None"
    "map_of (slot_entries pn ix) p = Some e" "index_slot pn ix p = Some e'" "e \<noteq> e'"
  shows "observed_slot pn (repaired body (plan_repairs pn (diff pn ob (fold_expected pn ob) scope) ob (fold_expected pn ob)) ob) a p
    = Some e"
proof -
  let ?g = "fold_expected pn ob"
  have "\<not> unique_slots pn ob a"
    using assms(3,5,6,7) by (auto simp: unique_slots_def index_slot_def map_of_rev_distinct)
  then have damaged: "alias_damaged pn ob ?g a" by (simp add: alias_damaged_def)
  have slot: "planned_slot pn ob ?g a p = Some e"
    by (simp add: planned_slot_def assms(3,4,5))
  obtain slots where "planned_entries pn a ob ?g = map snd slots @ planned_rest pn ob a"
    "\<And>p. bt_get slots p = planned_slot pn ob ?g a p"
    using planned_entries_split [OF wanted_ok] by metis
  with slot have "planned_entries pn a ob ?g \<noteq> []" by (metis append_is_Nil_conv map_is_Nil_conv map_of.simps(1) option.distinct(1))
  then show ?thesis
    using repaired_slots(1) [OF assms(1,2) damaged] slot by simp
qed

subsection \<open>Scopes\<close>

lemma bs_extend_set [simp]: "set (bs_extend xs s) = set s \<union> set xs"
  by (simp add: bs_extend_def bs_inserts_set)

lemma bs_extend_ok [simp, intro]: "bs_ok s \<Longrightarrow> bs_ok (bs_extend xs s)"
  by (simp add: bs_extend_def bs_inserts_ok)

definition request_scope :: "alias_tag list \<Rightarrow> alias_tag option \<Rightarrow> alias_tag set" where
  "request_scope universe r =
     (case r of
        None \<Rightarrow> set universe
      | Some (Root n) \<Rightarrow> {a \<in> set universe. alias_track a = n}
      | Some (AliasVersion v) \<Rightarrow>
          {a \<in> set universe.
             a = AliasVersion v \<or> a = Root (variant v)
             \<or> (\<exists>t. a = AliasVersion t \<and> (t \<in> set (ancestors v) \<or> AliasVersion v \<in> set universe \<and> v \<in> set (ancestors t)))})"

definition request_known :: "version list \<Rightarrow> alias_tag list \<Rightarrow> alias_tag option \<Rightarrow> bool" where
  "request_known versions universe r =
     (case r of Some (AliasVersion v) \<Rightarrow> AliasVersion v \<in> set universe \<or> v \<in> set versions | _ \<Rightarrow> True)"

lemma path_to_root_set:
  "set (path_to_root v universe) =
     {a \<in> set universe. a = Root (variant v) \<or> (\<exists>t. a = AliasVersion t \<and> t \<in> set (ancestors v))}"
  by (auto simp: path_to_root_def)

lemma is_below_iff: "is_below a v \<longleftrightarrow> (\<exists>t. a = AliasVersion t \<and> v \<in> set (ancestors t))"
  by (cases a) (auto simp: is_below_def list_ex_iff)

lemma scope_requests_exact:
  "case scope_requests versions universe rs scope of
     Inl e \<Rightarrow> (\<exists>r \<in> set rs. \<not> request_known versions universe r)
   | Inr result \<Rightarrow>
       (\<forall>r \<in> set rs. request_known versions universe r) \<and> (bs_ok scope \<longrightarrow> bs_ok result)
       \<and> set result = set scope \<union> (\<Union>r \<in> set rs. request_scope universe r)"
proof (induction versions universe rs scope rule: scope_requests.induct)
  case (1 versions universe scope)
  then show ?case by simp
next
  case (2 versions universe rs scope)
  then show ?case by (auto simp: request_known_def request_scope_def split: sum.splits)
next
  case (3 versions universe n rs scope)
  then show ?case by (auto simp: request_known_def request_scope_def split: sum.splits)
next
  case (4 versions universe v rs scope)
  let ?req = "Some (AliasVersion v)"
  consider (rolling) "AliasVersion v \<in> set universe" | (leaf) "AliasVersion v \<notin> set universe" "v \<in> set versions"
    | (unknown) "AliasVersion v \<notin> set universe" "v \<notin> set versions" by blast
  then show ?case
  proof cases
    case rolling
    then have "request_scope universe ?req = insert (AliasVersion v) {a \<in> set universe. is_below a v} \<union> set (path_to_root v universe)"
      by (auto simp: request_scope_def path_to_root_set is_below_iff)
    with rolling 4(1) show ?thesis by (auto simp: request_known_def split: sum.splits)
  next
    case leaf
    then have "request_scope universe ?req = set (path_to_root v universe)"
      by (auto simp: request_scope_def path_to_root_set)
    with leaf 4(2) show ?thesis by (auto simp: request_known_def split: sum.splits)
  next
    case unknown
    then show ?thesis by (simp add: request_known_def)
  qed
qed

lemma request_scope_universe: "request_scope universe r \<subseteq> set universe"
  by (auto simp: request_scope_def split: option.splits alias_tag.splits)

lemma scope_within:
  assumes "scope_filter versions requests = Inr scope"
  shows "set scope \<subseteq> set (alias_universe versions)"
proof -
  have "set scope = (\<Union>r \<in> set requests. request_scope (alias_universe versions) r)"
    using assms scope_requests_exact [where versions = versions and universe = "alias_universe versions" and rs = requests
        and scope = "[]"]
    by (simp add: scope_filter_def)
  then show ?thesis using request_scope_universe by blast
qed

lemma scope_whole: "scope_filter versions [None] = Inr (alias_universe versions)"
proof -
  have "bs_extend (alias_universe versions) [] = bs_collect (alias_universe versions)"
    by (simp add: bs_extend_def bs_collect_def)
  also have "\<dots> = alias_universe versions"
    by (rule bs_ext) (simp_all add: alias_universe_def)
  finally show ?thesis by (simp add: scope_filter_def)
qed

subsection \<open>Properties\<close>

text \<open>
  A small repository for the witnesses: 1.0.0 and 1.1.0 are published for one
  platform, \<open>1\<close> still holds 1.0.0 and a platform nobody publishes, and every
  other rolling tag is absent.
\<close>

definition example_names :: "string platform_names" where
  "example_names = \<lparr>pn_os = (\<lambda>p. p), pn_architecture = (\<lambda>p. p)\<rparr>"

definition example_tag :: "(string \<times> string) list \<Rightarrow> string observed_tag" where
  "example_tag entries =
     \<lparr>ob_digest = Digest Sha256 [], ob_size = 2,
      ob_manifest = ImageIndex (fresh_index (map (\<lambda>(p, d). plain_entry d 3 (Some p)) entries))\<rparr>"

definition example_graph :: "string tag_graph_observation" where
  "example_graph =
     \<lparr>og_identifier = new_registry ''tool'' ''example.com'', og_logical = None,
      og_tags = bt_collect
        [(AliasVersion (new_patch 1 0 0), example_tag [(''linux'', ''a'')]),
         (AliasVersion (new_patch 1 1 0), example_tag [(''linux'', ''b'')]),
         (AliasVersion (new_major 1), example_tag [(''linux'', ''a''), (''plan9'', ''c'')])],
      og_ignored_tags = [], og_index_root = None\<rparr>"

text \<open>
  C18: For every rolling tag and platform the fold expects the entry of the greatest
  leaf version that cascades into the tag and ships the platform, copied
  verbatim, and nothing when no leaf does.
\<close>

theorem fold_expected_greatest:
  "bt_get (wanted_slots (fold_expected pn ob) a) p = Some s \<longleftrightarrow>
     ex_source s \<in> set (leaves (observed_versions ob)) \<and> a \<in> set (alias_chain (ex_source s))
     \<and> observed_slot pn ob (AliasVersion (ex_source s)) p = Some (ex_entry s)
     \<and> (\<forall>z \<in> set (leaves (observed_versions ob)).
          ex_source s < z \<and> a \<in> set (alias_chain z) \<longrightarrow> observed_slot pn ob (AliasVersion z) p = None)"
  by (rule expected_slot_iff)

theorem fold_expected_greatest_witness:
  "new_patch 1 1 0 \<in> set (leaves (observed_versions example_graph)) \<and>
   observed_slot example_names example_graph (AliasVersion (new_patch 1 1 0)) ''linux''
     = Some (plain_entry ''b'' 3 (Some ''linux''))"
proof -
  have "bt_get (wanted_slots (fold_expected example_names example_graph) (Root None)) ''linux''
      = Some \<lparr>ex_entry = plain_entry ''b'' 3 (Some ''linux''), ex_source = new_patch 1 1 0\<rparr>"
    by code_simp
  then show ?thesis
    unfolding fold_expected_greatest by simp
qed

text \<open>
  C17: A check reports nothing exactly when every rolling tag in its scope is an image
  index that holds, for every platform, exactly the entry the fold expects, one
  entry per platform, and the published index commits the digest it has.
\<close>

theorem check_exact:
  "\<not> has_findings (diff pn ob g scope) \<longleftrightarrow>
     (\<forall>a \<in> set scope.
        observed_index ob a \<noteq> None
        \<and> (\<forall>p. map_option ex_entry (bt_get (wanted_slots g a) p) = observed_slot pn ob a p)
        \<and> unique_slots pn ob a \<and> index_agrees ob a)"
  unfolding diff_clean alias_clean_def by blast

theorem check_exact_witness:
  "has_findings (diff example_names example_graph (fold_expected example_names example_graph) [AliasVersion (new_major 1)])"
proof -
  have "\<not> map_option ex_entry (bt_get (wanted_slots (fold_expected example_names example_graph) (AliasVersion (new_major 1))) ''linux'')
      = observed_slot example_names example_graph (AliasVersion (new_major 1)) ''linux''"
    by code_simp
  then show ?thesis
    using check_exact [of example_names example_graph "fold_expected example_names example_graph" "[AliasVersion (new_major 1)]"]
    by auto
qed

text \<open>
  C16: Repair is a fixed point: once the writes planned for a scope of rolling tags
  have landed, a second check plans nothing, every slot the fold expects holds
  exactly the expected entry, and a tag that held no platform the fold does not
  expect is clean. The fold itself does not change under the writes.
\<close>

theorem repair_converges:
  fixes pn :: "'p::linorder platform_names"
  assumes "set scope \<subseteq> set (alias_universe (observed_versions ob))"
    "g = fold_expected pn ob" "ob' = repaired body (plan_repairs pn (diff pn ob g scope) ob g) ob"
  shows "plan_repairs pn (diff pn ob' (fold_expected pn ob') scope) ob' (fold_expected pn ob') = [] \<and>
    (\<forall>a. wanted_slots (fold_expected pn ob') a = wanted_slots g a) \<and>
    (\<forall>a \<in> set scope. \<forall>p s. bt_get (wanted_slots g a) p = Some s \<longrightarrow>
       observed_slot pn ob' a p = Some (ex_entry s) \<and>
       ((\<forall>q. observed_slot pn ob a q \<noteq> None \<longrightarrow> bt_get (wanted_slots g a) q \<noteq> None) \<longrightarrow>
          alias_clean pn ob' (fold_expected pn ob') a))"
  using repaired_outcome [OF assms] by blast

theorem repair_converges_witness:
  "let ob = example_graph; g = fold_expected example_names ob;
       scope = alias_universe (observed_versions ob);
       ob' = repaired (\<lambda>_. (Digest Sha256 [], 2)) (plan_repairs example_names (diff example_names ob g scope) ob g) ob
   in length (plan_repairs example_names (diff example_names ob g scope) ob g) = 4 \<and>
      plan_repairs example_names (diff example_names ob' (fold_expected example_names ob') scope) ob' (fold_expected example_names ob') = []"
proof -
  have "length (plan_repairs example_names
      (diff example_names example_graph (fold_expected example_names example_graph) (alias_universe (observed_versions example_graph)))
      example_graph (fold_expected example_names example_graph)) = 4"
    by code_simp
  then show ?thesis
    using repair_converges [OF subset_refl refl refl, where ob = example_graph and pn = example_names
        and body = "\<lambda>_. (Digest Sha256 [], 2)"]
    by (simp add: Let_def)
qed

text \<open>
  C23: A scope is refused exactly when it names a version that is neither published nor
  a rolling tag of the package; otherwise it is the ascending list of the rolling
  tags it selects, all of which belong to the package's graph: the whole graph,
  one track, or the subtree of a tag and its path to the root.
\<close>

theorem scope_filter_exact:
  "case scope_filter versions requests of
     Inl e \<Rightarrow> (\<exists>r \<in> set requests. \<not> request_known versions (alias_universe versions) r)
   | Inr scope \<Rightarrow>
       (\<forall>r \<in> set requests. request_known versions (alias_universe versions) r) \<and> bs_ok scope
       \<and> set scope = (\<Union>r \<in> set requests. request_scope (alias_universe versions) r)
       \<and> set scope \<subseteq> set (alias_universe versions)"
proof -
  have "(\<Union>r \<in> set requests. request_scope (alias_universe versions) r) \<subseteq> set (alias_universe versions)"
    using request_scope_universe by blast
  then show ?thesis
    using scope_requests_exact [where versions = versions and universe = "alias_universe versions" and rs = requests
        and scope = "[]"]
    by (auto simp: scope_filter_def split: sum.splits)
qed

theorem scope_filter_exact_witness:
  "scope_filter [new_patch 1 0 0, new_patch 1 1 0] [Some (AliasVersion (new_minor 1 1))]
     = Inr [Root None, AliasVersion (new_minor 1 1), AliasVersion (new_major 1)]
   \<and> request_known [new_patch 1 0 0, new_patch 1 1 0] (alias_universe [new_patch 1 0 0, new_patch 1 1 0])
       (Some (AliasVersion (new_minor 1 1)))"
proof -
  have eq: "scope_filter [new_patch 1 0 0, new_patch 1 1 0] [Some (AliasVersion (new_minor 1 1))]
     = Inr [Root None, AliasVersion (new_minor 1 1), AliasVersion (new_major 1)]"
    by code_simp
  show ?thesis
    using scope_filter_exact [where versions = "[new_patch 1 0 0, new_patch 1 1 0]"
        and requests = "[Some (AliasVersion (new_minor 1 1))]"]
    unfolding eq by simp
qed



text \<open>
  C25: When a rolling tag carries several entries for a platform that no leaf ships,
  repair keeps the first of them and drops the last, the one that resolves and
  that the check reports as the tag's own.
\<close>

theorem repair_keeps_shadowed_orphan:
  fixes pn :: "'p::linorder platform_names"
  assumes "set scope \<subseteq> set (alias_universe (observed_versions ob))" "a \<in> set scope" "observed_index ob a = Some ix"
    "bt_get (wanted_slots (fold_expected pn ob) a) p = None"
    "map_of (slot_entries pn ix) p = Some e" "index_slot pn ix p = Some e'" "e \<noteq> e'"
  shows "observed_slot pn ob a p = Some e' \<and>
    observed_slot pn (repaired body (plan_repairs pn (diff pn ob (fold_expected pn ob) scope) ob (fold_expected pn ob)) ob) a p
      = Some e"
  using repaired_first_orphan [OF assms] assms(3,6) by (simp add: observed_slot_def)

theorem repair_keeps_shadowed_orphan_witness:
  "let tags = [(AliasVersion (new_patch 1 0 0), example_tag [(''linux'', ''a'')]),
               (AliasVersion (new_major 1), example_tag [(''linux'', ''a''), (''plan9'', ''c''), (''plan9'', ''d'')])];
       ob = example_graph\<lparr>og_tags := tags\<rparr>; g = fold_expected example_names ob
   in observed_slot example_names ob (AliasVersion (new_major 1)) ''plan9'' = Some (plain_entry ''d'' 3 (Some ''plan9'')) \<and>
      observed_slot example_names
        (repaired (\<lambda>_. (Digest Sha256 [], 2))
          (plan_repairs example_names (diff example_names ob g [AliasVersion (new_major 1)]) ob g) ob)
        (AliasVersion (new_major 1)) ''plan9'' = Some (plain_entry ''c'' 3 (Some ''plan9''))"
proof -
  let ?ob = "example_graph\<lparr>og_tags :=
      [(AliasVersion (new_patch 1 0 0), example_tag [(''linux'', ''a'')]),
       (AliasVersion (new_major 1), example_tag [(''linux'', ''a''), (''plan9'', ''c''), (''plan9'', ''d'')])]\<rparr>"
  let ?ix = "fresh_index (map (\<lambda>(p, d). plain_entry d 3 (Some p)) [(''linux'', ''a''), (''plan9'', ''c''), (''plan9'', ''d'')])"
  have "set [AliasVersion (new_major 1)] \<subseteq> set (alias_universe (observed_versions ?ob))"
    by code_simp
  moreover have "observed_index ?ob (AliasVersion (new_major 1)) = Some ?ix"
    by code_simp
  moreover have "bt_get (wanted_slots (fold_expected example_names ?ob) (AliasVersion (new_major 1))) ''plan9'' = None"
    by code_simp
  moreover have "map_of (slot_entries example_names ?ix) ''plan9'' = Some (plain_entry ''c'' 3 (Some ''plan9''))"
    "index_slot example_names ?ix ''plan9'' = Some (plain_entry ''d'' 3 (Some ''plan9''))"
    "plain_entry ''c'' 3 (Some ''plan9'') \<noteq> plain_entry ''d'' 3 (Some ''plan9'')"
    by code_simp+
  ultimately show ?thesis
    using repair_keeps_shadowed_orphan [of "[AliasVersion (new_major 1)]" ?ob] unfolding Let_def by simp
qed

end
