(* ===== verification/Ocx_Cascade_Repair.thy ===== *)
theory Ocx_Cascade_Repair
  imports Ocx_Cascade_Graph
begin

section \<open>Reading the tag graph and writing repairs\<close>

text \<open>
  \<open>crates/ocx_package/src/cascade/gather.rs\<close> reads a package's tags into an
  observation, and \<open>cascade/apply.rs\<close> writes a plan back. The sources run
  several requests at a time; the model runs them one after another in the order
  they are issued, and what is collected is sorted as in the sources. The index
  source is the argument \<open>fetch_root\<close>, which reads the published root.
\<close>

subsection \<open>Gathering\<close>

text \<open>\<open>classify\<close>: the graph nodes of a listing, and the other tags in order.\<close>

fun classify_nodes :: "string list \<Rightarrow> string list \<Rightarrow> (string \<times> alias_tag) list \<times> string list" where
  "classify_nodes variants [] = ([], [])"
| "classify_nodes variants (tag # tags) =
     (case classify_nodes variants tags of (nodes, ignored) \<Rightarrow>
        (case alias_parse tag variants of
           Some a \<Rightarrow> ((tag, a) # nodes, ignored)
         | None \<Rightarrow> (nodes, tag # ignored)))"

definition classify :: "string list \<Rightarrow> (string \<times> alias_tag) list \<times> string list" where
  "classify listed =
     (case classify_nodes (variant_names listed) listed of (nodes, ignored) \<Rightarrow> (nodes, sort ignored))"

definition gather_tag ::
  "('w, 'b, 'p) client \<Rightarrow> oci_identifier \<Rightarrow> string \<times> alias_tag \<Rightarrow> ('w, package_error, alias_tag \<times> 'p observed_tag) op" where
  "gather_tag c location = (\<lambda>(tag, a).
     op_bind (op_map_err OciClient (fetch_manifest_raw_bytes_addressed c (clone_with_tag location tag) Canonical)) (\<lambda>r.
     case r of
       Some (bytes, d, m) \<Rightarrow>
         op_return (a, \<lparr>ob_digest = d, ob_size = int (body_len c bytes), ob_manifest = m\<rparr>)
     | None \<Rightarrow> 
         op_fail (OciClient (ManifestNotFound
           (package_ref_to_string (clone_with_tag location tag) @ '', which the tag listing had just named'')))))"

definition gather ::
  "('w, 'b, 'p) client \<Rightarrow> oci_identifier \<Rightarrow> package_ref \<Rightarrow> (package_ref \<Rightarrow> ('w, string, index_root option) op) option \<Rightarrow>
   ('w, package_error, 'p tag_graph_observation) op" where
  "gather c location package fetch_root =
     op_bind (op_map_err OciClient (list_tags_addressed c location Canonical)) (\<lambda>listed.
     case classify listed of (nodes, ignored_tags) \<Rightarrow>
     op_bind (op_each (gather_tag c location) nodes) (\<lambda>tags.
     op_bind
       (case fetch_root of
          Some fetch \<Rightarrow> op_map_err IndexFailure (fetch package)
        | None \<Rightarrow> op_return None) (\<lambda>root.
     op_return
       \<lparr>og_identifier = location,
        og_logical = (if \<not> is_located_at package location then Some package else None),
        og_tags = bt_collect tags, og_ignored_tags = ignored_tags, og_index_root = root\<rparr>)))"

subsection \<open>Preflight\<close>

datatype preflight = PreflightWrite "string list" | PreflightRefuse unrepairable

datatype child_state = ChildPresent | ChildMissing digest | ChildUnaddressable

definition probe_child ::
  "('w, 'b, 'p) client \<Rightarrow> oci_identifier \<Rightarrow> string \<Rightarrow> ('w, package_error, string \<times> child_state) op" where
  "probe_child c identifier d =
     (case digest_try_from d of
        Inl _ \<Rightarrow> op_return (d, ChildUnaddressable)
      | Inr parsed \<Rightarrow>
          op_bind (op_map_err OciClient
              (probe_manifest_digest_addressed c (clone_with_digest (without_tag identifier) parsed) Canonical)) (\<lambda>r.
          op_return (d, case r of Some _ \<Rightarrow> ChildPresent | None \<Rightarrow> ChildMissing parsed)))"

definition backs_orphans_only :: "'p planned_write \<Rightarrow> string \<Rightarrow> bool" where
  "backs_orphans_only w d =
     list_all
       (\<lambda>e. case e_platform e of
              None \<Rightarrow> False
            | Some p \<Rightarrow>
                list_ex (\<lambda>r. sr_status r = SlotOrphan \<and> sr_platform r = p \<and> sr_observed r = Some d) (pw_reasons w))
       (filter (\<lambda>e. e_digest e = d) (ix_manifests (pw_index w)))"

fun drop_missing :: "'p planned_write \<Rightarrow> (string \<times> digest) list \<Rightarrow> string list \<Rightarrow> (unrepairable, string list) result" where
  "drop_missing w [] dropped = Inr dropped"
| "drop_missing w ((d, parsed) # missing) dropped =
     (if \<not> backs_orphans_only w d then Inl (ChildManifestMissing (pw_tag w) parsed)
      else drop_missing w missing (bs_insert d dropped))"

definition verdict :: "'p planned_write \<Rightarrow> (string, digest) btree_map \<Rightarrow> string list \<Rightarrow> preflight" where
  "verdict w missing unaddressable =
     (case unaddressable of
        d # _ \<Rightarrow> PreflightRefuse (ChildDigestUnaddressable (pw_tag w) d)
      | [] \<Rightarrow>
          (case drop_missing w missing [] of
             Inl reason \<Rightarrow> PreflightRefuse reason
           | Inr dropped \<Rightarrow>
               (if dropped \<noteq> [] \<and> list_all (\<lambda>e. e_digest e \<in> set dropped) (ix_manifests (pw_index w))
                then PreflightRefuse (WouldEmptyIndex (pw_tag w))
                else PreflightWrite dropped)))"

definition missing_children :: "(string \<times> child_state) list \<Rightarrow> (string, digest) btree_map" where
  "missing_children probed =
     bt_collect (List.map_filter (\<lambda>(d, st). case st of ChildMissing parsed \<Rightarrow> Some (d, parsed) | _ \<Rightarrow> None) probed)"

definition unaddressable_children :: "(string \<times> child_state) list \<Rightarrow> string list" where
  "unaddressable_children probed =
     bs_collect (List.map_filter (\<lambda>(d, st). case st of ChildUnaddressable \<Rightarrow> Some d | _ \<Rightarrow> None) probed)"

definition preflight_writes ::
  "('w, 'b, 'p) client \<Rightarrow> oci_identifier \<Rightarrow> 'p planned_write list \<Rightarrow> ('w, package_error, preflight list) op" where
  "preflight_writes c identifier writes =
     op_each (\<lambda>w.
       op_bind (op_each (probe_child c identifier) (pw_referenced_digests w)) (\<lambda>probed.
       op_return (verdict w (missing_children probed) (unaddressable_children probed)))) writes"

subsection \<open>Writing\<close>

text \<open>
  A failed write keeps the client's error; the flag says that the tag could not
  be read before the write.
\<close>

datatype write_outcome =
    Written digest bool "string list"
  | Refused unrepairable
  | Raced "digest option" "digest option"
  | WriteFailed bool client_error

record repair_outcome =
  rp_tag :: alias_tag
  rp_outcome :: write_outcome

definition verify_write ::
  "('w, 'b, 'p) client \<Rightarrow> oci_identifier \<Rightarrow> digest \<Rightarrow> ('w, package_error, bool) op" where
  "verify_write c target written =
     op_match (probe_manifest_digest_addressed c target Canonical)
       (\<lambda>r. case r of Some observed \<Rightarrow> op_return (observed = written) | None \<Rightarrow> op_return False)
       (\<lambda>_. op_return False)"

definition drop_entries :: "string list \<Rightarrow> 'p image_index \<Rightarrow> 'p image_index" where
  "drop_entries dropped ix =
     (if dropped = [] then ix
      else ix\<lparr>ix_manifests := filter (\<lambda>e. e_digest e \<notin> set dropped) (ix_manifests ix)\<rparr>)"

definition write_alias ::
  "('w, 'b, 'p) client \<Rightarrow> oci_identifier \<Rightarrow> 'p planned_write \<Rightarrow> preflight \<Rightarrow> ('w, package_error, write_outcome) op" where
  "write_alias c identifier w v =
     (case v of
        PreflightRefuse refusal \<Rightarrow> op_return (Refused refusal)
      | PreflightWrite dropped \<Rightarrow>
          (let ix = drop_entries dropped (pw_index w);
               target = clone_with_tag identifier (alias_to_string (pw_tag w))
           in op_match (probe_manifest_digest_addressed c target Canonical)
                (\<lambda>live.
                   if live \<noteq> pw_observed_digest w then op_return (Raced (pw_observed_digest w) live)
                   else
                     op_match (push_index c target ix)
                       (\<lambda>d. op_bind (verify_write c target d) (\<lambda>verified. op_return (Written d verified dropped)))
                       (\<lambda>e. op_return (WriteFailed False e)))
                (\<lambda>e. op_return (WriteFailed True e))))"

definition apply_repairs ::
  "('w, 'b, 'p) client \<Rightarrow> oci_identifier \<Rightarrow> 'p planned_write list \<Rightarrow> ('w, package_error, repair_outcome list) op" where
  "apply_repairs c identifier writes =
     (if writes = [] then op_return []
      else
        op_bind (op_map_err OciClient (ensure_auth c identifier OpPush)) (\<lambda>_.
        op_bind (preflight_writes c identifier writes) (\<lambda>verdicts.
        op_bind
          (op_each (\<lambda>(w, v). op_bind (write_alias c identifier w v)
             (\<lambda>r. op_return \<lparr>rp_tag = pw_tag w, rp_outcome = r\<rparr>)) (zip writes verdicts)) (\<lambda>outcomes.
        op_return (sort_key rp_tag outcomes)))))"

subsection \<open>What preflight lets through\<close>

lemma drop_missing_Inr:
  "drop_missing w missing d0 = Inr dropped \<Longrightarrow>
     set dropped = set d0 \<union> fst ` set missing \<and> (\<forall>d \<in> fst ` set missing. backs_orphans_only w d)"
  by (induction w missing d0 rule: drop_missing.induct) (auto split: if_splits)

lemma drop_missing_Inl:
  "drop_missing w missing d0 = Inl u \<Longrightarrow>
     \<exists>d parsed. (d, parsed) \<in> set missing \<and> \<not> backs_orphans_only w d \<and> u = ChildManifestMissing (pw_tag w) parsed"
  by (induction w missing d0 rule: drop_missing.induct) (auto split: if_splits)

lemma verdict_write:
  assumes "verdict w missing unaddressable = PreflightWrite dropped"
  shows "unaddressable = []" "set dropped = fst ` set missing" "\<And>d. d \<in> set dropped \<Longrightarrow> backs_orphans_only w d"
    "dropped = [] \<or> (\<exists>e \<in> set (ix_manifests (pw_index w)). e_digest e \<notin> set dropped)"
proof -
  show empty: "unaddressable = []"
    using assms by (cases unaddressable) (simp_all add: verdict_def)
  then obtain d where d: "drop_missing w missing [] = Inr d"
    using assms by (cases "drop_missing w missing []") (simp_all add: verdict_def)
  then have "dropped = d" "d = [] \<or> \<not> list_all (\<lambda>e. e_digest e \<in> set d) (ix_manifests (pw_index w))"
    using assms empty by (auto simp: verdict_def split: if_splits)
  with drop_missing_Inr [OF d] show "set dropped = fst ` set missing" "\<And>d. d \<in> set dropped \<Longrightarrow> backs_orphans_only w d"
    "dropped = [] \<or> (\<exists>e \<in> set (ix_manifests (pw_index w)). e_digest e \<notin> set dropped)"
    by (auto simp: list_all_iff)
qed

lemma drop_entries_manifests:
  "ix_manifests (drop_entries dropped ix) = filter (\<lambda>e. e_digest e \<notin> set dropped) (ix_manifests ix)"
  by (simp add: drop_entries_def)

lemma drop_entries_slot:
  assumes "distinct (map fst (slot_entries pn ix))" "index_slot pn ix p = Some e" "e_digest e \<notin> set dropped"
  shows "index_slot pn (drop_entries dropped ix) p = Some e"
proof -
  have "List.map_filter f (filter P xs) = filter (\<lambda>x. P (snd x)) (List.map_filter f xs)"
    if "\<And>e x. f e = Some x \<Longrightarrow> snd x = e" for f :: "'a index_entry \<Rightarrow> ('a \<times> 'a index_entry) option" and P xs
    using that by (induction xs) (auto simp: map_filter_simps split: option.split)
  then have slots: "slot_entries pn (drop_entries dropped ix) = filter (\<lambda>x. e_digest (snd x) \<notin> set dropped) (slot_entries pn ix)"
    unfolding slot_entries_def drop_entries_manifests by fastforce
  then have "distinct (map fst (slot_entries pn (drop_entries dropped ix)))"
    using assms(1) by (simp add: distinct_map_filter)
  moreover have "(p, e) \<in> set (slot_entries pn (drop_entries dropped ix))"
    using assms(2,3) map_of_SomeD [of "rev (slot_entries pn ix)" p e] by (simp add: slots index_slot_def)
  ultimately show ?thesis by (simp add: index_slot_def map_of_rev_distinct)
qed

text \<open>A digest that backs orphans only backs no slot the fold expects.\<close>

lemma orphan_not_expected:
  assumes "w \<in> set (plan_repairs pn (diff pn ob g scope) ob g)" "backs_orphans_only w d"
    "e \<in> set (ix_manifests (pw_index w))" "e_digest e = d" "platform_slot pn e = Some p"
  shows "bt_get (wanted_slots g (pw_tag w)) p = None"
proof -
  let ?a = "pw_tag w"
  have p: "e_platform e = Some p"
    using assms(5) by (auto simp: platform_slot_def split: option.splits if_splits)
  have "case e_platform e of
      None \<Rightarrow> False
    | Some p \<Rightarrow> list_ex (\<lambda>r. sr_status r = SlotOrphan \<and> sr_platform r = p \<and> sr_observed r = Some d) (pw_reasons w)"
    using assms(2-4) by (simp add: backs_orphans_only_def list_all_iff)
  then obtain r where r: "r \<in> set (pw_reasons w)" "sr_status r = SlotOrphan" "sr_platform r = p"
    by (auto simp: p list_ex_iff)
  have "pw_reasons w = filter (\<lambda>r. sr_status r \<noteq> SlotOk \<and> sr_tag r = ?a) (cr_rows (diff pn ob g scope))"
    using assms(1) unfolding plan_repairs_iff [OF refl] by auto
  then obtain a where "r \<in> set (alias_rows pn ob g (leaf_provenance pn ob) a)" "sr_tag r = ?a"
    using r(1) by (auto simp: diff_def Let_def)
  then have "r \<in> set (alias_rows pn ob g (leaf_provenance pn ob) ?a)"
    by (metis alias_rows_tag)
  then obtain q where q: "slot_row_of (leaf_provenance pn ob) (wanted_slots g ?a) (fst (observed_slots pn ob ?a)) ?a q = Some r"
    using r(2) by (auto simp: alias_rows_set shadow_row_def)
  then have "q = p" using slot_row_tag r(3) by blast
  with slot_row_status [OF q] r(2) show ?thesis
    by (auto split: option.splits if_splits)
qed

text \<open>
  C19: A repair never publishes a dangling or emptied tag and never loses a platform the
  fold expects: when preflight lets a planned write through, none of the entries
  written names a manifest found missing, at least one entry is left, and every
  slot the fold expects still holds its expected entry.
\<close>

theorem preflight_safe:
  assumes "g = fold_expected pn ob" "w \<in> set (plan_repairs pn (diff pn ob g scope) ob g)"
    "verdict w missing unaddressable = PreflightWrite dropped"
  shows "unaddressable = [] \<and> ix_manifests (drop_entries dropped (pw_index w)) \<noteq> [] \<and>
    (\<forall>e \<in> set (ix_manifests (drop_entries dropped (pw_index w))). e_digest e \<notin> fst ` set missing) \<and>
    (\<forall>p s. bt_get (wanted_slots g (pw_tag w)) p = Some s \<longrightarrow>
       index_slot pn (drop_entries dropped (pw_index w)) p = Some (ex_entry s))"
proof -
  note v = verdict_write [OF assms(3)]
  have w: "pw_index w = planned_index pn ob g (pw_tag w)" "ix_manifests (pw_index w) \<noteq> []"
    using assms(2) unfolding plan_repairs_iff [OF refl] by (auto simp: planned_index_def)
  have "ix_manifests (drop_entries dropped (pw_index w)) \<noteq> []"
    using v(4) w(2) by (cases "ix_manifests (pw_index w)") (auto simp: drop_entries_manifests filter_empty_conv)
  moreover have "index_slot pn (drop_entries dropped (pw_index w)) p = Some (ex_entry s)"
    if wanted: "bt_get (wanted_slots g (pw_tag w)) p = Some s" for p s
  proof (rule drop_entries_slot)
    show "distinct (map fst (slot_entries pn (pw_index w)))"
      unfolding w(1) assms(1) by (rule planned_index_slots)
    show slot: "index_slot pn (pw_index w) p = Some (ex_entry s)"
      unfolding w(1) assms(1) planned_index_slots using wanted by (simp add: planned_slot_def assms(1))
    show "e_digest (ex_entry s) \<notin> set dropped"
      using orphan_not_expected [OF assms(2) v(3) _ refl, of "ex_entry s"] index_slot_platform [OF slot] wanted by auto
  qed
  ultimately show ?thesis
    using v(1,2) by (auto simp: drop_entries_manifests)
qed

theorem preflight_safe_witness:
  "let tags = [(AliasVersion (new_patch 1 0 0), example_tag [(''linux'', ''a'')]),
               (AliasVersion (new_major 1), example_tag [(''plan9'', ''c'')])];
       ob = example_graph\<lparr>og_tags := tags\<rparr>; g = fold_expected example_names ob;
       w = hd (plan_repairs example_names (diff example_names ob g [AliasVersion (new_major 1)]) ob g)
   in verdict w [(''c'', Digest Sha256 [])] [] = PreflightWrite [''c''] \<and>
      index_slot example_names (drop_entries [''c''] (pw_index w)) ''linux'' = Some (plain_entry ''a'' 3 (Some ''linux''))"
proof -
  let ?ob = "example_graph\<lparr>og_tags :=
    [(AliasVersion (new_patch 1 0 0), example_tag [(''linux'', ''a'')]),
     (AliasVersion (new_major 1), example_tag [(''plan9'', ''c'')])]\<rparr>"
  let ?g = "fold_expected example_names ?ob"
  let ?plan = "plan_repairs example_names (diff example_names ?ob ?g [AliasVersion (new_major 1)]) ?ob ?g"
  have "?plan \<noteq> []" by code_simp
  then have plan: "hd ?plan \<in> set ?plan" by simp
  have v: "verdict (hd ?plan) [(''c'', Digest Sha256 [])] [] = PreflightWrite [''c'']" by code_simp
  have s: "bt_get (wanted_slots ?g (pw_tag (hd ?plan))) ''linux''
      = Some \<lparr>ex_entry = plain_entry ''a'' 3 (Some ''linux''), ex_source = new_patch 1 0 0\<rparr>" by code_simp
  show ?thesis
    unfolding Let_def using preflight_safe [OF refl plan v] v s by fastforce
qed

end
