(* ===== verification/Ocx_Publisher.thy ===== *)
theory Ocx_Publisher
  imports Ocx_Cascade
begin

section \<open>The publisher\<close>

text \<open>
  \<open>crates/ocx_package/src/publisher.rs\<close>: pushing a package for several platforms,
  with and without cascade. An \<open>Info\<close> is its platform and what
  \<open>Info::manifest_builder\<close> gives for it: an error, or the upload of its layers
  and manifest. The platforms of one push are pushed one after another, and the
  list of existing versions is read once, before the first.
\<close>

subsection \<open>Layer counts\<close>

datatype layer_push_outcome = Uploaded | Mounted | Verified

record layer_counts =
  mounted :: nat
  uploaded :: nat
  verified :: nat

definition layer_counts_default :: layer_counts where
  "layer_counts_default = \<lparr>mounted = 0, uploaded = 0, verified = 0\<rparr>"

fun record_layer :: "layer_push_outcome \<Rightarrow> layer_counts \<Rightarrow> layer_counts" where
  "record_layer Mounted n = n\<lparr>mounted := mounted n + 1\<rparr>"
| "record_layer Uploaded n = n\<lparr>uploaded := uploaded n + 1\<rparr>"
| "record_layer Verified n = n\<lparr>verified := verified n + 1\<rparr>"

definition layer_counts_add :: "layer_counts \<Rightarrow> layer_counts \<Rightarrow> layer_counts" where
  "layer_counts_add m n =
     \<lparr>mounted = mounted m + mounted n, uploaded = uploaded m + uploaded n, verified = verified m + verified n\<rparr>"

subsection \<open>Pushing\<close>

type_synonym ('w, 'p) push_info = "'p \<times> (package_error, ('w, client_error, nat \<times> string \<times> layer_counts) op) result"

record 'p push_outcome =
  pu_primary_tag :: string
  pu_manifest_digest :: digest
  pu_cascade_tags :: "string list"
  pu_keep_tags :: "string list"
  pu_platform_digests :: "('p \<times> digest) list"
  pu_aliases_written :: "string list"
  pu_layer_counts :: layer_counts

text \<open>What the loops over the platforms accumulate.\<close>

record 'p push_progress =
  pp_manifest_digest :: "digest option"
  pp_cascade_tags :: "string list"
  pp_keep_tags :: "string list"
  pp_platform_digests :: "('p \<times> digest) list"
  pp_aliases_written :: "string list"
  pp_layer_counts :: layer_counts

definition push_start :: "'p push_progress" where
  "push_start =
     \<lparr>pp_manifest_digest = None, pp_cascade_tags = [], pp_keep_tags = [], pp_platform_digests = [],
      pp_aliases_written = [], pp_layer_counts = layer_counts_default\<rparr>"

text \<open>\<open>if !tags.contains(&tag) { tags.push(tag) }\<close>\<close>

definition push_new :: "'a \<Rightarrow> 'a list \<Rightarrow> 'a list" where
  "push_new x xs = (if x \<in> set xs then xs else xs @ [x])"

definition push_all_new :: "'a list \<Rightarrow> 'a list \<Rightarrow> 'a list" where
  "push_all_new new xs = foldl (\<lambda>xs x. push_new x xs) xs new"

definition apply_build_meta :: "oci_identifier \<Rightarrow> string option \<Rightarrow> (package_error, oci_identifier) result" where
  "apply_build_meta target build_meta =
     (case build_meta of
        None \<Rightarrow> Inr target
      | Some b \<Rightarrow>
          (case parse_version (tag_or_latest target) of
             None \<Rightarrow> Inl (VersionInvalid (tag_or_latest target))
           | Some v \<Rightarrow>
               (case with_build v b of
                  Inl e \<Rightarrow> Inl (BuildMeta e)
                | Inr v' \<Rightarrow> Inr (clone_with_tag target (version_to_string v')))))"

definition finish_push :: "oci_identifier \<Rightarrow> 'p push_progress \<Rightarrow> (package_error, 'p push_outcome) result" where
  "finish_push identifier st =
     (case pp_manifest_digest st of
        None \<Rightarrow> Inl EmptyPushSet
      | Some d \<Rightarrow>
          Inr \<lparr>pu_primary_tag = tag_or_latest identifier, pu_manifest_digest = d,
               pu_cascade_tags = pp_cascade_tags st, pu_keep_tags = pp_keep_tags st,
               pu_platform_digests = pp_platform_digests st, pu_aliases_written = pp_aliases_written st,
               pu_layer_counts = pp_layer_counts st\<rparr>)"

definition push_package ::
  "('w, 'b, 'p) client \<Rightarrow> oci_identifier \<Rightarrow> ('w, 'p) push_info \<Rightarrow> annotations \<Rightarrow>
   ('w, package_error, digest \<times> 'p manifest \<times> layer_counts) op" where
  "push_package c target info annotations =
     op_bind (op_lift (snd info)) (\<lambda>upload.
     op_bind (op_map_err OciClient (push_manifest_and_merge_tags c target (fst info) upload [] annotations))
       (\<lambda>(d, ix, counts). op_return (d, ImageIndex ix, counts)))"

definition push_step ::
  "('w, 'b, 'p) client \<Rightarrow> oci_identifier \<Rightarrow> bool \<Rightarrow> bool \<Rightarrow> annotations \<Rightarrow> ('w, 'p) push_info \<Rightarrow> 'p push_progress \<Rightarrow>
   ('w, package_error, 'p push_progress) op" where
  "push_step c identifier keep_tag default_track annotations info st =
     (let p = fst info
      in op_bind (push_package c identifier info annotations) (\<lambda>(d, m, counts).
         op_bind
           (case parse_version (tag_or_latest identifier) of
              Some v \<Rightarrow> op_map_err OciClient (write_default_variant_aliases c identifier p m v default_track None annotations)
            | None \<Rightarrow> op_return []) (\<lambda>aliases.
         op_bind (if keep_tag then op_map_err OciClient (push_keep_tag c identifier m p) else op_return None) (\<lambda>kept.
         op_return
           \<lparr>pp_manifest_digest = Some d, pp_cascade_tags = pp_cascade_tags st,
            pp_keep_tags = (case kept of Some t \<Rightarrow> push_new t (pp_keep_tags st) | None \<Rightarrow> pp_keep_tags st),
            pp_platform_digests = pp_platform_digests st
              @ (case platform_manifest_digest m p of Some pd \<Rightarrow> [(p, pd)] | None \<Rightarrow> []),
            pp_aliases_written = push_all_new aliases (pp_aliases_written st),
            pp_layer_counts = layer_counts_add (pp_layer_counts st) counts\<rparr>))))"

definition push ::
  "('w, 'b, 'p) client \<Rightarrow> oci_identifier \<Rightarrow> ('w, 'p) push_info list \<Rightarrow> string option \<Rightarrow> bool \<Rightarrow> bool \<Rightarrow> annotations \<Rightarrow>
   ('w, package_error, 'p push_outcome) op" where
  "push c target infos build_meta keep_tag default_track annotations =
     op_bind (op_lift (apply_build_meta target build_meta)) (\<lambda>identifier.
     op_bind (op_fold (push_step c identifier keep_tag default_track annotations) infos push_start) (\<lambda>st.
     op_lift (finish_push identifier st)))"

definition push_cascade_step ::
  "('w, 'b, 'p) client \<Rightarrow> oci_identifier \<Rightarrow> version list \<Rightarrow> version \<Rightarrow> bool \<Rightarrow> bool \<Rightarrow> annotations \<Rightarrow>
   ('w, 'p) push_info \<Rightarrow> 'p push_progress \<Rightarrow> ('w, package_error, 'p push_progress) op" where
  "push_cascade_step c identifier existing v keep_tag default_track annotations info st =
     (let p = fst info
      in op_bind (push_with_cascade c identifier p (snd info) existing v keep_tag default_track annotations) (\<lambda>r.
         op_return
           \<lparr>pp_manifest_digest = Some (po_index_digest r),
            pp_cascade_tags = push_all_new (po_cascade_tags r) (pp_cascade_tags st),
            pp_keep_tags = (case po_keep_tag r of Some t \<Rightarrow> push_new t (pp_keep_tags st) | None \<Rightarrow> pp_keep_tags st),
            pp_platform_digests = pp_platform_digests st
              @ (case po_platform_digest r of Some pd \<Rightarrow> [(p, pd)] | None \<Rightarrow> []),
            pp_aliases_written = push_all_new (po_aliases r) (pp_aliases_written st),
            pp_layer_counts = layer_counts_add (pp_layer_counts st) (po_layer_counts r)\<rparr>))"

definition push_cascade ::
  "('w, 'b, 'p) client \<Rightarrow> oci_identifier \<Rightarrow> ('w, 'p) push_info list \<Rightarrow> version list \<Rightarrow> string option \<Rightarrow> bool \<Rightarrow> bool \<Rightarrow>
   annotations \<Rightarrow> ('w, package_error, 'p push_outcome) op" where
  "push_cascade c target infos existing_versions build_meta keep_tag default_track annotations =
     op_bind (op_lift (apply_build_meta target build_meta)) (\<lambda>identifier.
     case parse_version (tag_or_latest identifier) of
       None \<Rightarrow> op_fail (VersionInvalid (tag_or_latest identifier))
     | Some v \<Rightarrow>
         op_bind
           (op_fold (push_cascade_step c identifier existing_versions v keep_tag default_track annotations) infos push_start)
           (\<lambda>st. op_lift (finish_push identifier st)))"

definition publisher_list_tags :: "('w, 'b, 'p) client \<Rightarrow> oci_identifier \<Rightarrow> ('w, package_error, string list) op" where
  "publisher_list_tags c identifier = op_map_err OciClient (list_tags_or_empty_addressed c identifier Canonical)"

definition parse_versions :: "string list \<Rightarrow> version list" where
  "parse_versions tags = bs_collect (List.map_filter parse_version tags)"


text \<open>The write of \<open>ocx package push\<close> (\<open>crates/ocx_cli/src/command/package_push.rs\<close>).\<close>

definition package_push ::
  "('w, 'b, 'p) client \<Rightarrow> bool \<Rightarrow> oci_identifier \<Rightarrow> ('w, 'p) push_info list \<Rightarrow> string option \<Rightarrow> bool \<Rightarrow> bool \<Rightarrow>
   annotations \<Rightarrow> ('w, package_error, 'p push_outcome) op" where
  "package_push c cascading target infos build_meta keep_tag default_track annotations =
     (if cascading then
        op_bind (publisher_list_tags c target) (\<lambda>existing_tags.
        push_cascade c target infos (parse_versions existing_tags) build_meta keep_tag default_track annotations)
      else push c target infos build_meta keep_tag default_track annotations)"

end
