(* ===== verification/Ocx_Cascade_Equivalence.thy ===== *)
theory Ocx_Cascade_Equivalence
  imports Ocx_Cascade_Repair Ocx_Publisher
begin

section \<open>A graph that cascading pushes built reads back clean\<close>

text \<open>
  The push path (\<open>cascade.rs\<close>, \<open>publisher.rs\<close>) moves rolling tags one push at a
  time, looking at the versions above the one it pushes. The check path
  (\<open>cascade/graph.rs\<close>) folds the whole graph at once. This theory proves that they
  agree: whatever the order in which versions and platforms are published, the
  repository the pushes leave has no findings. The abstract state is the set of
  publications, and the invariant says what every tag holds for it.
\<close>

subsection \<open>Publications\<close>

text \<open>The entry each version was last published with, per platform.\<close>

type_synonym 'p publications = "version \<times> 'p \<Rightarrow> 'p index_entry option"

definition published :: "'p publications \<Rightarrow> version set" where
  "published E = fst ` dom E"

definition feeds :: "version \<Rightarrow> alias_tag \<Rightarrow> bool" where
  "feeds v a \<longleftrightarrow> a = AliasVersion v \<or> a \<in> set (alias_chain v)"

definition nodes :: "version set \<Rightarrow> alias_tag set" where
  "nodes L = {a. \<exists>v \<in> L. feeds v a}"

text \<open>The newest version with platform \<open>p\<close> among those that cascade into \<open>a\<close>.\<close>

definition newest :: "'p publications \<Rightarrow> alias_tag \<Rightarrow> 'p \<Rightarrow> version \<Rightarrow> bool" where
  "newest E a p v \<longleftrightarrow>
     feeds v a \<and> E (v, p) \<noteq> None \<and> (\<forall>u. feeds u a \<and> E (u, p) \<noteq> None \<longrightarrow> u \<le> v)"

text \<open>
  Versions that may be published together: well formed, none is a rolling tag of
  another, every tag they lead to fits the tag grammar, and a variant's name
  reads as a plain tag.
\<close>

definition publishable :: "version set \<Rightarrow> bool" where
  "publishable L \<longleftrightarrow>
     (\<forall>v \<in> L. version_ok v \<and> (\<forall>u \<in> L. AliasVersion v \<notin> set (alias_chain u)) \<and>
        (\<forall>a. feeds v a \<longrightarrow> is_valid_oci_tag (alias_to_string a)) \<and>
        (\<forall>n. variant v = Some n \<longrightarrow> tag_from n = Other n))"

text \<open>What the repository holds after the publications.\<close>

definition graph_state :: "'p publications \<Rightarrow> (string \<Rightarrow> 'p image_index option) \<Rightarrow> bool" where
  "graph_state E D \<longleftrightarrow>
     dom D = alias_to_string ` nodes (published E) \<and>
     (\<forall>a \<in> nodes (published E). \<forall>ix. D (alias_to_string a) = Some ix \<longrightarrow>
        (\<forall>e \<in> set (ix_manifests ix). e_platform e \<noteq> None) \<and>
        (\<forall>p. (\<forall>v. newest E a p v \<longrightarrow> platform_entries ix p = [the (E (v, p))]) \<and>
             ((\<forall>v. feeds v a \<longrightarrow> E (v, p) = None) \<longrightarrow> platform_entries ix p = [])))"

lemma publishable_subset: "publishable L \<Longrightarrow> L' \<subseteq> L \<Longrightarrow> publishable L'"
  unfolding publishable_def by blast

lemma feeds_self [simp]: "feeds v (AliasVersion v)"
  by (simp add: feeds_def)

lemma feeds_le: "feeds v (AliasVersion t) \<Longrightarrow> v \<le> t"
  by (auto simp: feeds_def dest: alias_chain_greater)

lemma version_ok_parent: "version_ok v \<Longrightarrow> parent v = Some p \<Longrightarrow> version_ok p"
  by (cases v rule: version_shapes) (auto simp: parent_def version_ok_def accessor_defs)

lemma version_ok_ancestors: "version_ok v \<Longrightarrow> t \<in> set (ancestors v) \<Longrightarrow> version_ok t"
proof (induction v rule: ancestors.induct)
  case (1 v)
  then show ?case
    using version_ok_parent by (cases "parent v") (auto simp: ancestors.simps [of v])
qed

lemma chain_version_ok: "version_ok v \<Longrightarrow> feeds v (AliasVersion t) \<Longrightarrow> version_ok t"
  by (cases "has_prerelease v")
    (auto simp: feeds_def alias_chain_stable_iff alias_chain_prerelease_iff
      intro: version_ok_ancestors version_ok_parent)

text \<open>Every node of the graph is the one its tag reads as.\<close>

lemma tag_from_version: "version_ok v \<Longrightarrow> tag_from (version_to_string v) = VersionTag v"
  using parse_to_string [of v] latest_not_version internal_not_version [of "version_to_string v"]
  by (auto simp: tag_from_def)

lemma node_parse:
  assumes "publishable L" "a \<in> nodes L" "\<And>v n. v \<in> L \<Longrightarrow> variant v = Some n \<Longrightarrow> n \<in> set variants"
  shows "alias_parse (alias_to_string a) variants = Some a"
proof -
  obtain v where v: "v \<in> L" "feeds v a" using assms(2) by (auto simp: nodes_def)
  then have ok: "version_ok v" and other: "\<And>n. variant v = Some n \<Longrightarrow> tag_from n = Other n"
    using assms(1) by (auto simp: publishable_def)
  show ?thesis
  proof (cases a)
    case (AliasVersion t)
    then show ?thesis using chain_version_ok [OF ok] v(2) by (simp add: alias_parse_def tag_from_version)
  next
    case (Root n)
    then have track: "variant v = n"
      using alias_chain_track [of a v] v(2) by (auto simp: feeds_def)
    show ?thesis
    proof (cases n)
      case None
      then show ?thesis using Root by (simp add: alias_parse_def tag_from_def)
    next
      case (Some name)
      then show ?thesis
        using Root other track assms(3) [OF v(1)] by (simp add: alias_parse_def list_ex_iff)
    qed
  qed
qed

lemma node_string_inj:
  assumes "publishable L" "finite L" "a \<in> nodes L" "b \<in> nodes L" "alias_to_string a = alias_to_string b"
  shows "a = b"
proof -
  obtain vs where vs: "set vs = L" using finite_list [OF assms(2)] by blast
  have "n \<in> set (List.map_filter variant vs)" if "v \<in> L" "variant v = Some n" for v n
    using that vs by (auto simp: map_filter_ex)
  then show ?thesis
    using node_parse [OF assms(1,3)] node_parse [OF assms(1,4)] assms(5) by (metis option.inject)
qed

subsection \<open>Which tags a push moves\<close>

definition carried :: "(string \<Rightarrow> 'p image_index option) \<Rightarrow> 'p \<Rightarrow> version \<Rightarrow> bool" where
  "carried D p b = (case D (version_to_string b) of Some ix \<Rightarrow> has_platform (ImageIndex ix) p | None \<Rightarrow> False)"

definition cascade_moves :: "(string \<Rightarrow> 'p image_index option) \<Rightarrow> version list \<Rightarrow> version \<Rightarrow> 'p \<Rightarrow> alias_tag list" where
  "cascade_moves D others v p =
     (let d = decompose v others; cleared = cleared_targets (carried D p) (cd_levels d)
      in map AliasVersion cleared
         @ (if length cleared = length (cd_levels d) \<and> cd_latest_eligible d \<and> \<not> list_ex (carried D p) (cd_latest_blockers d)
            then [Root (variant v)] else []))"

lemma exists_newest:
  assumes "finite (dom E)" "feeds u a" "E (u, p) \<noteq> None"
  shows "\<exists>v. newest E a p v \<and> u \<le> v"
proof -
  let ?S = "{u. feeds u a \<and> E (u, p) \<noteq> None}"
  have "?S \<subseteq> fst ` dom E" by force
  then have "finite ?S" using assms(1) finite_surj by blast
  moreover have "u \<in> ?S" using assms(2,3) by simp
  ultimately have "Max ?S \<in> ?S" "\<And>x. x \<in> ?S \<Longrightarrow> x \<le> Max ?S"
    using Max_in Max_ge by blast+
  then have "newest E a p (Max ?S)" "u \<le> Max ?S"
    using \<open>u \<in> ?S\<close> unfolding newest_def by blast+
  then show ?thesis by blast
qed

lemma carried_iff:
  assumes "graph_state E D" "finite (dom E)" "AliasVersion b \<in> nodes (published E)"
  shows "carried D p b \<longleftrightarrow> (\<exists>u. feeds u (AliasVersion b) \<and> E (u, p) \<noteq> None)"
proof -
  have "alias_to_string (AliasVersion b) \<in> dom D"
    using assms(1,3) unfolding graph_state_def by blast
  then obtain ix where ix: "D (version_to_string b) = Some ix" by auto
  then have slot: "(\<forall>v. newest E (AliasVersion b) p v \<longrightarrow> platform_entries ix p = [the (E (v, p))]) \<and>
      ((\<forall>v. feeds v (AliasVersion b) \<longrightarrow> E (v, p) = None) \<longrightarrow> platform_entries ix p = [])"
    using assms(1,3) unfolding graph_state_def by force
  show ?thesis
  proof (cases "\<exists>u. feeds u (AliasVersion b) \<and> E (u, p) \<noteq> None")
    case True
    then obtain v where "newest E (AliasVersion b) p v" using exists_newest [OF assms(2)] by blast
    then have "platform_entries ix p \<noteq> []" using slot by simp
    with True ix show ?thesis by (simp add: carried_def has_platform_entries)
  next
    case False
    then have "platform_entries ix p = []" using slot by blast
    with False ix show ?thesis by (simp add: carried_def has_platform_entries)
  qed
qed

lemma feeds_stable_iff:
  assumes "\<not> has_prerelease t"
  shows "feeds u (AliasVersion t) \<longleftrightarrow> t = u \<or> t \<in> set (ancestors u) \<and> \<not> has_prerelease u"
proof (cases "has_prerelease u")
  case True
  then show ?thesis
    using assms parent_prerelease [OF True, of t] by (auto simp: feeds_def alias_chain_prerelease_iff)
next
  case False
  then show ?thesis by (auto simp: feeds_def alias_chain_stable_iff)
qed

lemma feeds_root_iff: "feeds u (Root n) \<longleftrightarrow> \<not> has_prerelease u \<and> variant u = n"
  by (cases "has_prerelease u") (auto simp: feeds_def alias_chain_stable_iff alias_chain_prerelease_iff)

text \<open>
  A blocker that carries the platform stands for a newer version that cascades
  where the pushed version would, and every such version is a blocker.
\<close>

definition known_versions :: "'p publications \<Rightarrow> version \<Rightarrow> version list \<Rightarrow> bool" where
  "known_versions E v others \<longleftrightarrow> bs_ok others \<and> (\<forall>b \<in> set others. AliasVersion b \<in> nodes (published E)) \<and>
     (\<forall>b. AliasVersion b \<in> nodes (published E) \<and> \<not> feeds v (AliasVersion b) \<longrightarrow> b \<in> set others)"

lemma stable_blockers:
  assumes "graph_state E D" "finite (dom E)" "known_versions E v others"
    "publishable (insert v (published E))" "\<not> has_prerelease v"
  shows "t \<in> set (ancestors v) \<Longrightarrow> unblocked others (carried D p) v (ancestors v) t \<longleftrightarrow>
      (\<forall>u. feeds u (AliasVersion t) \<and> E (u, p) \<noteq> None \<longrightarrow> u \<le> v)"
    and "top_unblocked others (carried D p) v \<longleftrightarrow>
      (\<forall>u. feeds u (Root (variant v)) \<and> E (u, p) \<noteq> None \<longrightarrow> u \<le> v)"
proof -
  have member: "u \<noteq> v \<Longrightarrow> u \<in> set others" "carried D p u" "u \<notin> set (ancestors v)" if "E (u, p) \<noteq> None" for u
  proof -
    have L: "u \<in> published E" using that by (force simp: published_def)
    then have node: "AliasVersion u \<in> nodes (published E)" unfolding nodes_def using feeds_self by blast
    then show "carried D p u"
      using carried_iff [OF assms(1,2)] that feeds_self by blast
    have chain: "AliasVersion u \<notin> set (alias_chain v)" using L assms(4) by (auto simp: publishable_def)
    then show "u \<notin> set (ancestors v)" using assms(5) by (auto simp: alias_chain_stable_iff)
    show "u \<in> set others" if "u \<noteq> v"
      using that node chain assms(3) by (auto simp: known_versions_def feeds_def)
  qed
  have above: "\<exists>u. E (u, p) \<noteq> None \<and> v < u \<and> (b = u \<or> b \<in> set (ancestors u)) \<and> \<not> has_prerelease u \<and> variant u = variant b"
    if b: "b \<in> set others" "carried D p b" "v < b" "b \<notin> set (ancestors v)" "\<not> has_prerelease b" for b
  proof -
    obtain u where u: "feeds u (AliasVersion b)" "E (u, p) \<noteq> None"
      using b(1,2) assms(3) carried_iff [OF assms(1,2)] by (auto simp: known_versions_def)
    then have "b = u \<or> b \<in> set (ancestors u) \<and> \<not> has_prerelease u"
      using feeds_stable_iff [OF b(5)] by blast
    moreover have "\<not> covers b v" using b(3,4) by (auto simp: covers_def)
    ultimately have "v < u" "\<not> has_prerelease u" "variant u = variant b" "b = u \<or> b \<in> set (ancestors u)"
      using covered_above [OF b(3)] b(5) ancestors_variant by (auto simp: covers_def)
    then show ?thesis using u(2) by blast
  qed
  show "unblocked others (carried D p) v (ancestors v) t \<longleftrightarrow>
      (\<forall>u. feeds u (AliasVersion t) \<and> E (u, p) \<noteq> None \<longrightarrow> u \<le> v)" if t: "t \<in> set (ancestors v)"
  proof
    have stable: "\<not> has_prerelease t" using t assms(5) ancestors_prerelease by blast
    assume free: "unblocked others (carried D p) v (ancestors v) t"
    show "\<forall>u. feeds u (AliasVersion t) \<and> E (u, p) \<noteq> None \<longrightarrow> u \<le> v"
    proof (intro allI impI, elim conjE, rule ccontr)
      fix u assume u: "feeds u (AliasVersion t)" "E (u, p) \<noteq> None" "\<not> u \<le> v"
      have "t \<in> set (ancestors u)" "\<not> has_prerelease u"
        using u(1) feeds_stable_iff [OF stable, of u] member(3) [OF u(2)] t by auto
      then show False
        using free u(2,3) member [OF u(2)] ancestor_greater by (auto simp: unblocked_def)
    qed
  next
    assume newest: "\<forall>u. feeds u (AliasVersion t) \<and> E (u, p) \<noteq> None \<longrightarrow> u \<le> v"
    have stable: "\<not> has_prerelease t" using t assms(5) ancestors_prerelease by blast
    show "unblocked others (carried D p) v (ancestors v) t"
      unfolding unblocked_def
    proof (intro ballI impI notI, elim conjE)
      fix b assume b: "b \<in> set others" "carried D p b" "v < b" "b < t" "b \<notin> set (ancestors v)" "\<not> has_prerelease b"
      then obtain u where u: "E (u, p) \<noteq> None" "v < u" "b = u \<or> b \<in> set (ancestors u)" "\<not> has_prerelease u"
        using above by blast
      have "covers t b"
        using covers_convex [of t v b] t b(3,4) by (auto simp: covers_def)
      then have "t \<in> set (ancestors u)"
        using u(3) b(4) ancestors_trans by (auto simp: covers_def)
      then have "feeds u (AliasVersion t)" using feeds_stable_iff [OF stable] u(4) by blast
      then show False using newest u(1,2) by (meson leD)
    qed
  qed
  show "top_unblocked others (carried D p) v \<longleftrightarrow>
      (\<forall>u. feeds u (Root (variant v)) \<and> E (u, p) \<noteq> None \<longrightarrow> u \<le> v)"
  proof
    assume "top_unblocked others (carried D p) v"
    then show "\<forall>u. feeds u (Root (variant v)) \<and> E (u, p) \<noteq> None \<longrightarrow> u \<le> v"
      using member unfolding top_unblocked_def feeds_root_iff by (metis not_le order_refl)
  next
    assume newest: "\<forall>u. feeds u (Root (variant v)) \<and> E (u, p) \<noteq> None \<longrightarrow> u \<le> v"
    show "top_unblocked others (carried D p) v"
      unfolding top_unblocked_def
    proof (intro ballI impI notI, elim conjE)
      fix b assume b: "b \<in> set others" "carried D p b" "v < b" "variant b = variant v" "b \<notin> set (ancestors v)" "\<not> has_prerelease b"
      then obtain u where "E (u, p) \<noteq> None" "v < u" "\<not> has_prerelease u" "variant u = variant b"
        using above by blast
      then show False using newest b(4) by (metis feeds_root_iff leD)
    qed
  qed
qed


text \<open>The builds of one pre-release are the interval below it.\<close>

lemma prerelease_cluster:
  assumes "has_prerelease v" "has_build v" "parent v = Some par"
  shows "variant w = variant v \<and> major w = major v \<and> minor w = minor v \<and> patch w = patch v
      \<and> prerelease w = prerelease v \<and> has_build w \<longleftrightarrow> par \<in> set (ancestors w)"
  using assms
  by (cases v rule: version_shapes; cases w rule: version_shapes)
    (auto simp: parent_def has_prerelease_def has_build_def accessor_defs)

lemma ancestor_of_build:
  assumes "par \<in> set (ancestors w)" "has_prerelease par"
  shows "has_prerelease w" "has_build w" "parent w = Some par"
  using assms
  by (cases w rule: version_shapes; cases par rule: version_shapes;
      auto simp: parent_def has_prerelease_def has_build_def)+

lemma decompose_prerelease_build:
  assumes "bs_ok others" "has_prerelease v" "has_build v" "parent v = Some par"
  shows "decompose v others =
    \<lparr>cd_levels = [\<lparr>cl_target = par, cl_blockers = filter (\<lambda>w. v < w \<and> par \<in> set (ancestors w)) others\<rparr>],
     cd_latest_eligible = False, cd_latest_blockers = []\<rparr>"
proof -
  have v: "par \<in> set (ancestors v)" using assms(4) by (simp add: ancestors_parent)
  have "takeWhile (\<lambda>w. par \<in> set (ancestors w)) (set_after v others) = filter (\<lambda>w. par \<in> set (ancestors w)) (set_after v others)"
  proof (rule takeWhile_eq_filter)
    show "sorted_wrt (<) (set_after v others)" using assms(1) by (simp add: set_after_def sorted_wrt_filter)
    fix a b assume "a \<in> set (set_after v others)" "a < b" "par \<in> set (ancestors b)"
    then have "v < a" "a < par" using ancestor_greater [of par b] by (auto simp: set_after_def)
    then show "par \<in> set (ancestors a)"
      using covers_convex [of par v a, OF _ less_imp_le less_imp_le] v by (auto simp: covers_def)
  qed
  then show ?thesis
    using assms(2-4) prerelease_cluster [OF assms(2-4)]
    by (simp add: decompose_def decompose_targets_def set_after_def conj_commute)
qed

lemma cleared_length: "length (cleared_targets B ls) = length ls \<longleftrightarrow> cleared_targets B ls = map cl_target ls"
  by (induction ls) auto

lemma build_feeds: "has_build b \<Longrightarrow> feeds u (AliasVersion b) \<longleftrightarrow> u = b"
  using ancestors_build [of b u] parent_prerelease [of u b]
  by (cases "has_prerelease u") (auto simp: feeds_def alias_chain_stable_iff alias_chain_prerelease_iff)

lemma prerelease_feeds:
  assumes "has_prerelease par" "\<not> has_build par"
  shows "feeds u (AliasVersion par) \<longleftrightarrow> u = par \<or> par \<in> set (ancestors u)"
  using ancestor_of_build [of par u] assms ancestors_prerelease [of par u] parent_prerelease [of u par]
  by (cases "has_prerelease u")
    (auto simp: feeds_def alias_chain_stable_iff alias_chain_prerelease_iff ancestors_parent)

text \<open>
  A push moves exactly the tags of its chain for which it becomes the newest
  publication of its platform.
\<close>

lemma moves_iff:
  assumes "graph_state E D" "finite (dom E)" "known_versions E v others" "publishable (insert v (published E))"
  shows "set (cascade_moves D others v p) = {a \<in> set (alias_chain v). \<forall>u. feeds u a \<and> E (u, p) \<noteq> None \<longrightarrow> u \<le> v}"
proof (cases "has_prerelease v")
  note ok = assms(3) [unfolded known_versions_def, THEN conjunct1]
  case False
  note blockers = stable_blockers [OF assms False]
  let ?cleared = "cleared_targets (carried D p) (cd_levels (decompose v others))"
  have sub: "set ?cleared \<subseteq> set (ancestors v)"
    using decompose_levels_targets [of others v "ancestors v"] set_takeWhileD
    unfolding cleared_targets_def decompose_stable(1) [OF False] by (metis (no_types, lifting) image_mono list.set_map subsetI)
  then have targets: "set ?cleared = {t \<in> set (ancestors v). \<forall>u. feeds u (AliasVersion t) \<and> E (u, p) \<noteq> None \<longrightarrow> u \<le> v}"
    using cleared_levels_iff [OF ancestors_ascending] blockers(1) by (auto simp: decompose_stable(1) [OF False])
  have "length ?cleared = length (cd_levels (decompose v others)) \<longleftrightarrow> ?cleared = ancestors v"
    using cleared_length [of "carried D p" "cd_levels (decompose v others)"]
    by (simp add: decompose_stable(1) [OF False] decompose_levels_targets)
  then have "(length ?cleared = length (cd_levels (decompose v others)) \<and> cd_latest_eligible (decompose v others)
      \<and> \<not> list_ex (carried D p) (cd_latest_blockers (decompose v others)))
      \<longleftrightarrow> (\<forall>u. feeds u (Root (variant v)) \<and> E (u, p) \<noteq> None \<longrightarrow> u \<le> v)"
    using top_unblocked_iff [OF ok False] blockers(2) decompose_stable(2) [OF False] by blast
  then show ?thesis
    using targets by (auto simp: cascade_moves_def Let_def alias_chain_stable_iff [OF False])
next
  note ok = assms(3) [unfolded known_versions_def, THEN conjunct1]
  case pre: True
  show ?thesis
  proof (cases "has_build v")
    case False
    then show ?thesis
      using pre by (auto simp: cascade_moves_def decompose_def decompose_targets_def alias_chain_prerelease)
  next
    case True
    then obtain par where par: "parent v = Some par" using prerelease_parent [OF pre] by auto
    then have kind: "has_prerelease par" "\<not> has_build par" "par \<in> set (ancestors v)"
      using parent_prerelease [OF pre True] by (simp_all add: ancestors_parent)
    have chain: "set (alias_chain v) = {AliasVersion par}"
      using pre True par by (simp add: alias_chain_prerelease)
    have blocked: "(\<exists>b \<in> set others. v < b \<and> par \<in> set (ancestors b) \<and> carried D p b)
        \<longleftrightarrow> (\<exists>u. feeds u (AliasVersion par) \<and> E (u, p) \<noteq> None \<and> v < u)"
    proof
      assume "\<exists>b \<in> set others. v < b \<and> par \<in> set (ancestors b) \<and> carried D p b"
      then obtain b where b: "b \<in> set others" "v < b" "par \<in> set (ancestors b)" "carried D p b" by blast
      then have "E (b, p) \<noteq> None"
        using carried_iff [OF assms(1,2)] assms(3) build_feeds [OF ancestor_of_build(2) [OF b(3) kind(1)]]
        by (auto simp: known_versions_def)
      then show "\<exists>u. feeds u (AliasVersion par) \<and> E (u, p) \<noteq> None \<and> v < u"
        using b prerelease_feeds [OF kind(1,2)] by blast
    next
      assume "\<exists>u. feeds u (AliasVersion par) \<and> E (u, p) \<noteq> None \<and> v < u"
      then obtain u where u: "feeds u (AliasVersion par)" "E (u, p) \<noteq> None" "v < u" by blast
      have L: "u \<in> published E" using u(2) by (force simp: published_def)
      then have node: "AliasVersion u \<in> nodes (published E)" unfolding nodes_def using feeds_self by blast
      have "u \<noteq> par" using L assms(4) chain by (auto simp: publishable_def)
      then have "par \<in> set (ancestors u)" using u(1) prerelease_feeds [OF kind(1,2)] by blast
      then show "\<exists>b \<in> set others. v < b \<and> par \<in> set (ancestors b) \<and> carried D p b"
        using u node assms(3) \<open>u \<noteq> par\<close> chain carried_iff [OF assms(1,2) node] feeds_self
        unfolding known_versions_def feeds_def by blast
    qed
    have "set (cascade_moves D others v p) =
        (if \<exists>b \<in> set others. v < b \<and> par \<in> set (ancestors b) \<and> carried D p b then {} else {AliasVersion par})"
      by (auto simp: cascade_moves_def decompose_prerelease_build [OF ok pre True par] list_ex_iff)
    then show ?thesis
      unfolding blocked chain by (auto simp: not_le)
  qed
qed


subsection \<open>One publication keeps the state of the graph\<close>

text \<open>The documents after one entry was merged into the tags \<open>ts\<close>.\<close>

definition merged_tags ::
  "(string \<Rightarrow> 'p image_index option) \<Rightarrow> string set \<Rightarrow> 'p \<Rightarrow> string \<Rightarrow> i64 \<Rightarrow> annotations \<Rightarrow> string \<Rightarrow> 'p image_index option" where
  "merged_tags D ts p sha sz ann = (\<lambda>t. if t \<in> ts then Some (merged_index D t p sha sz ann) else D t)"

lemma published_update: "published (E((v, p) \<mapsto> e)) = insert v (published E)"
  by (simp add: published_def)

lemma nodes_insert: "nodes (insert v L) = {a. feeds v a} \<union> nodes L"
  by (auto simp: nodes_def)

lemma merged_entries:
  "platform_entries (merged_index D t p sha sz ann) q =
     (if q = p then [plain_entry sha sz (Some p)]
      else case D t of Some ix \<Rightarrow> platform_entries ix q | None \<Rightarrow> [])"
  unfolding merged_index_def platform_entries_merge
  by (auto simp: fresh_index_def platform_entries_def split: option.split)

lemma merged_platforms:
  assumes "\<And>ix e. D t = Some ix \<Longrightarrow> e \<in> set (ix_manifests ix) \<Longrightarrow> e_platform e \<noteq> None"
    "e \<in> set (ix_manifests (merged_index D t p sha sz ann))"
  shows "e_platform e \<noteq> None"
  using assms by (auto simp: merged_index_def merge_entry_def plain_entry_def fresh_index_def split: option.splits)

text \<open>What a tag holds, read off the state.\<close>

lemma state_slot:
  assumes "graph_state E D" "a \<in> nodes (published E)"
  obtains ix where "D (alias_to_string a) = Some ix" "\<And>e. e \<in> set (ix_manifests ix) \<Longrightarrow> e_platform e \<noteq> None"
    "\<And>p v. newest E a p v \<Longrightarrow> platform_entries ix p = [the (E (v, p))]"
    "\<And>p. (\<And>v. feeds v a \<Longrightarrow> E (v, p) = None) \<Longrightarrow> platform_entries ix p = []"
proof -
  have "alias_to_string a \<in> dom D" using assms unfolding graph_state_def by blast
  then obtain ix where "D (alias_to_string a) = Some ix" by blast
  then show ?thesis using that assms unfolding graph_state_def by blast
qed

lemma tag_before:
  assumes state: "graph_state E D" and ok: "publishable (insert v (published E))" and fin: "finite (insert v (published E))"
    and a: "a \<in> nodes (insert v (published E))"
  shows "newest E a q u \<Longrightarrow>
      (case D (alias_to_string a) of Some ix \<Rightarrow> platform_entries ix q | None \<Rightarrow> []) = [the (E (u, q))]"
    and "(\<And>u. feeds u a \<Longrightarrow> E (u, q) = None) \<Longrightarrow>
      (case D (alias_to_string a) of Some ix \<Rightarrow> platform_entries ix q | None \<Rightarrow> []) = []"
    and "D (alias_to_string a) = Some ix \<Longrightarrow> e \<in> set (ix_manifests ix) \<Longrightarrow> e_platform e \<noteq> None"
proof -
  have new: "D (alias_to_string a) = None" "\<not> newest E a q u" if "a \<notin> nodes (published E)" for q u
  proof -
    show "\<not> newest E a q u" using that by (force simp: newest_def nodes_def published_def)
    have "alias_to_string a \<notin> alias_to_string ` nodes (published E)"
      using that node_string_inj [OF ok fin a] by (auto simp: nodes_insert)
    then show "D (alias_to_string a) = None" using state by (auto simp: graph_state_def)
  qed
  show "newest E a q u \<Longrightarrow>
      (case D (alias_to_string a) of Some ix \<Rightarrow> platform_entries ix q | None \<Rightarrow> []) = [the (E (u, q))]"
    using new(2) state_slot [OF state, of a] by (metis option.simps(5))
  show "(\<And>u. feeds u a \<Longrightarrow> E (u, q) = None) \<Longrightarrow>
      (case D (alias_to_string a) of Some ix \<Rightarrow> platform_entries ix q | None \<Rightarrow> []) = []"
    using new(1) state_slot [OF state, of a] by (metis option.simps(4,5))
  show "D (alias_to_string a) = Some ix \<Longrightarrow> e \<in> set (ix_manifests ix) \<Longrightarrow> e_platform e \<noteq> None"
    using new(1) state_slot [OF state, of a] by (metis option.distinct(1) option.inject)
qed

lemma publish_step:
  assumes state: "graph_state E D" and finite: "finite (dom E)"
    and ok: "publishable (insert v (published E))"
    and moved: "M = {a \<in> set (alias_chain v). \<forall>u. feeds u a \<and> E (u, p) \<noteq> None \<longrightarrow> u \<le> v}"
  shows "graph_state (E((v, p) \<mapsto> plain_entry sha sz (Some p)))
    (merged_tags D (alias_to_string ` insert (AliasVersion v) M) p sha sz ann)"
proof -
  let ?e = "plain_entry sha sz (Some p)"
  let ?E = "E((v, p) \<mapsto> ?e)" and ?W = "insert (AliasVersion v) M"
  let ?D = "merged_tags D (alias_to_string ` ?W) p sha sz ann"
  let ?N = "nodes (insert v (published E))"
  have fin: "finite (insert v (published E))" using finite by (simp add: published_def)
  have written: "?W \<subseteq> ?N" using moved by (auto simp: nodes_insert feeds_def)
  have inj: "alias_to_string a \<in> alias_to_string ` ?W \<longleftrightarrow> a \<in> ?W" if "a \<in> ?N" for a
    using node_string_inj [OF ok fin that] written by blast
  have old: "a \<in> nodes (published E)" if a: "a \<in> ?N" "a \<notin> ?W" for a
  proof (cases "a \<in> set (alias_chain v)")
    case True
    then obtain u where "feeds u a" "E (u, p) \<noteq> None" using a(2) moved by blast
    then show ?thesis by (force simp: nodes_def published_def)
  qed (use a in \<open>auto simp: nodes_insert feeds_def\<close>)
  have top: "u \<le> v" if "a \<in> ?W" "feeds u a" "E (u, p) \<noteq> None" for a u
    using that moved feeds_le by auto
  note before = tag_before [OF state ok fin]
  have dom: "dom ?D = alias_to_string ` ?N"
  proof -
    have "?N = ?W \<union> nodes (published E)" using written old nodes_insert by blast
    then have "alias_to_string ` ?N = alias_to_string ` ?W \<union> dom D"
      using state by (simp only: graph_state_def image_Un)
    then show ?thesis by (auto simp: merged_tags_def split: if_splits)
  qed
  have slots: "(\<forall>e \<in> set (ix_manifests ix). e_platform e \<noteq> None) \<and>
      (\<forall>q. (\<forall>u. newest ?E a q u \<longrightarrow> platform_entries ix q = [the (?E (u, q))]) \<and>
           ((\<forall>u. feeds u a \<longrightarrow> ?E (u, q) = None) \<longrightarrow> platform_entries ix q = []))"
    if a: "a \<in> ?N" and ix: "?D (alias_to_string a) = Some ix" for a ix
  proof (cases "a \<in> ?W")
    case True
    then have feeds: "feeds v a" using moved by (auto simp: feeds_def)
    have ix': "ix = merged_index D (alias_to_string a) p sha sz ann"
      using ix inj [OF a] True unfolding merged_tags_def by (simp only: if_True option.inject)
    have "platform_entries ix p = [the (?E (u, p))]" if "newest ?E a p u" for u
    proof -
      have "v \<le> u" "u = v \<or> u \<le> v"
        using that top [OF True, of u] feeds by (auto simp: newest_def)
      then show ?thesis by (simp add: ix' merged_entries)
    qed
    moreover have "platform_entries ix q = [the (?E (u, q))]" if "newest ?E a q u" "q \<noteq> p" for q u
      using that before(1,2) [OF a, of q] by (auto simp: ix' merged_entries newest_def)
    moreover have "platform_entries ix q = []" if "\<And>u. feeds u a \<Longrightarrow> ?E (u, q) = None" for q
      using that [OF feeds] that before(1,2) [OF a, of q] by (auto simp: ix' merged_entries split: if_splits)
    moreover have "\<forall>e \<in> set (ix_manifests ix). e_platform e \<noteq> None"
      using merged_platforms [of D "alias_to_string a"] before(3) [OF a] by (auto simp: ix')
    ultimately show ?thesis by blast
  next
    case False
    then have same: "D (alias_to_string a) = Some ix"
      using ix inj [OF a] False unfolding merged_tags_def by (simp only: if_False)
    have unmoved: "(u, q) \<noteq> (v, p)" if u: "newest ?E a q u" for q u
    proof
      assume eq: "(u, q) = (v, p)"
      then have "a \<in> set (alias_chain v)" using u False by (auto simp: newest_def feeds_def)
      then obtain x where "feeds x a" "E (x, p) \<noteq> None" "\<not> x \<le> v" using False moved by blast
      then show False using u eq by (auto simp: newest_def split: if_splits)
    qed
    have "newest E a q u" if "newest ?E a q u" for q u
      using that unmoved [OF that] by (auto simp: newest_def split: if_splits)
    then have "platform_entries ix q = [the (?E (u, q))]" if "newest ?E a q u" for q u
      using unmoved [OF that] before(1) [OF a, of q u] same that by (auto simp del: prod.inject)
    moreover have "platform_entries ix q = []" if "\<And>u. feeds u a \<Longrightarrow> ?E (u, q) = None" for q
    proof -
      have "E (u, q) = None" if "feeds u a" for u
        using \<open>\<And>u. feeds u a \<Longrightarrow> ?E (u, q) = None\<close> [OF that] by (simp split: if_splits)
      then show ?thesis using before(2) [OF a, of q] same by simp
    qed
    ultimately show ?thesis using before(3) [OF a same] by blast
  qed
  show ?thesis
    unfolding graph_state_def published_update using dom slots by blast
qed


subsection \<open>The push path on a registry\<close>

lemma blocking_holds:
  assumes "registry_promises c location view" "codec_promises c" "holds c view D w"
    "\<And>b. b \<in> set bs \<Longrightarrow> D (version_to_string b) \<noteq> None"
  shows "has_blocking_platform c (clone_with_tag location x) bs p w = Some (Inr (list_ex (carried D p) bs), w)"
  using assms(4)
proof (induction bs)
  case Nil
  then show ?case by (simp add: op_defs)
next
  case (Cons b bs)
  then obtain ix where ix: "D (version_to_string b) = Some ix" by fastforce
  from fetch_manifest_holds [OF assms(1-3) ix] obtain d where
    "fetch_manifest c (clone_with_tag location (version_to_string b)) w = Some (Inr (d, ImageIndex ix), w)" by blast
  then show ?case using Cons ix by (simp add: op_defs carried_def)
qed

lemma resolve_levels_holds:
  assumes "registry_promises c location view" "codec_promises c" "holds c view D w"
    "\<And>l b. l \<in> set ls \<Longrightarrow> b \<in> set (cl_blockers l) \<Longrightarrow> D (version_to_string b) \<noteq> None"
  shows "resolve_levels c (clone_with_tag location x) p ls tags w =
    Some (Inr (tags @ map version_to_string (cleared_targets (carried D p) ls),
               length (cleared_targets (carried D p) ls) = length ls), w)"
  using assms(4)
proof (induction ls arbitrary: tags)
  case Nil
  then show ?case by (simp add: op_defs)
next
  case (Cons l ls)
  have "has_blocking_platform c (clone_with_tag location x) (cl_blockers l) p w
      = Some (Inr (list_ex (carried D p) (cl_blockers l)), w)"
    by (rule blocking_holds [OF assms(1-3)]) (use Cons.prems in auto)
  moreover have "\<And>l b. l \<in> set ls \<Longrightarrow> b \<in> set (cl_blockers l) \<Longrightarrow> D (version_to_string b) \<noteq> None"
    using Cons.prems by (meson list.set_intros(2))
  ultimately show ?case using Cons.IH by (simp add: op_match_ok op_return_apply)
qed

text \<open>The blockers of a push come from the versions it was given.\<close>

lemma decompose_blockers:
  "l \<in> set (cd_levels (decompose v others)) \<Longrightarrow> b \<in> set (cl_blockers l) \<Longrightarrow> b \<in> set others"
  "b \<in> set (cd_latest_blockers (decompose v others)) \<Longrightarrow> b \<in> set others"
proof -
  have levels: "l \<in> set (fst (decompose_levels others c ts)) \<Longrightarrow> b \<in> set (cl_blockers l) \<Longrightarrow> b \<in> set others" for c ts
    by (induction ts arbitrary: c) (auto simp: decompose_levels_Cons set_range_def simp del: decompose_levels.simps(2))
  show "l \<in> set (cd_levels (decompose v others)) \<Longrightarrow> b \<in> set (cl_blockers l) \<Longrightarrow> b \<in> set others"
    using levels [of v "ct_targets (decompose_targets v)"]
    by (auto simp: decompose_def Let_def set_after_def split: if_splits prod.splits dest!: set_takeWhileD)
  show "b \<in> set (cd_latest_blockers (decompose v others)) \<Longrightarrow> b \<in> set others"
    by (auto simp: decompose_def Let_def set_after_def split: if_splits prod.splits dest!: set_takeWhileD)
qed

lemma resolve_holds:
  assumes "registry_promises c location view" "codec_promises c" "holds c view D w"
    "\<And>b. b \<in> set others \<Longrightarrow> D (version_to_string b) \<noteq> None"
  shows "\<exists>latest. resolve_cascade_tags c (clone_with_tag location x) v others p w =
    Some (Inr (map alias_to_string (cascade_moves D others v p), latest), w)"
proof -
  let ?d = "decompose v others"
  have levels: "resolve_levels c (clone_with_tag location x) p (cd_levels ?d) [] w =
      Some (Inr (map version_to_string (cleared_targets (carried D p) (cd_levels ?d)),
                 length (cleared_targets (carried D p) (cd_levels ?d)) = length (cd_levels ?d)), w)"
    using resolve_levels_holds [OF assms(1-3), of "cd_levels ?d" x p "[]"] assms(4) decompose_blockers(1) by auto
  have latest: "has_blocking_platform c (clone_with_tag location x) (cd_latest_blockers ?d) p w
      = Some (Inr (list_ex (carried D p) (cd_latest_blockers ?d)), w)"
    by (rule blocking_holds [OF assms(1-3)]) (use assms(4) decompose_blockers(2) in auto)
  show ?thesis
    by (rule exI [of _ "length (cleared_targets (carried D p) (cd_levels ?d)) = length (cd_levels ?d)
          \<and> cd_latest_eligible ?d \<and> \<not> list_ex (carried D p) (cd_latest_blockers ?d)"])
      (simp add: resolve_cascade_tags_def Let_def op_defs levels latest cascade_moves_def comp_def split: option.split)
qed

lemma merges_hold:
  assumes "registry_promises c location view" "codec_promises c" "holds c view D w"
    "distinct ts" "\<And>t. t \<in> set ts \<Longrightarrow> CHR ''+'' \<notin> set t" "sha \<noteq> []" "0 \<le> sz"
  shows "\<exists>rs w'. op_each (\<lambda>tag. merge_platform_into_index c (clone_with_tag location x) tag p sha sz ann) ts w = Some (Inr rs, w')
    \<and> holds c view (merged_tags D (set ts) p sha sz ann) w'"
  using assms(3-5)
proof (induction ts arbitrary: D w)
  case Nil
  then show ?case by (simp add: op_defs merged_tags_def)
next
  case (Cons t ts)
  let ?D = "D(t \<mapsto> merged_index D t p sha sz ann)"
  obtain d w1 where one: "merge_platform_into_index c (clone_with_tag location x) t p sha sz ann w
      = Some (Inr (d, merged_index D t p sha sz ann), w1)" "holds c view ?D w1"
    using merge_holds [OF assms(1,2) Cons.prems(1) _ assms(6,7)] Cons.prems(3) by (meson list.set_intros(1))
  obtain rs w2 where rest: "op_each (\<lambda>tag. merge_platform_into_index c (clone_with_tag location x) tag p sha sz ann) ts w1 = Some (Inr rs, w2)"
    "holds c view (merged_tags ?D (set ts) p sha sz ann) w2"
    using Cons.IH [OF one(2)] Cons.prems(2,3) by (metis distinct.simps(2) list.set_intros(2))
  have "merged_tags ?D (set ts) p sha sz ann = merged_tags D (set (t # ts)) p sha sz ann"
    using Cons.prems(2) by (auto simp: merged_tags_def merged_index_def fun_eq_iff)
  then show ?case using one rest by (simp add: op_defs)
qed


text \<open>
  The upload of a manifest of \<open>len\<close> bytes with digest text \<open>sha\<close>: it reports
  both, and pushes by digest, so no tag changes.
\<close>

definition upload_promises ::
  "(nat \<Rightarrow> string \<Rightarrow> ('w, client_error, nat \<times> string \<times> 'l) op) \<Rightarrow> ('w \<Rightarrow> string \<Rightarrow> 'b option) \<Rightarrow> bool" where
  "upload_promises upload view \<longleftrightarrow>
     (\<forall>len sha w. \<exists>counts w'. upload len sha w = Some (Inr (len, sha, counts), w') \<and> view w' = view w)"

lemma holds_view:
  assumes "holds c view D w" "view w' = view w"
  shows "holds c view D w'"
  using assms(1) unfolding holds_def assms(2) .

lemma tag_or_latest_clone: "CHR ''+'' \<notin> set t \<Longrightarrow> tag_or_latest (clone_with_tag location t) = t"
  by (simp add: tag_or_latest_def clone_with_tag_fields)

lemma node_valid:
  "publishable L \<Longrightarrow> a \<in> nodes L \<Longrightarrow> is_valid_oci_tag (alias_to_string a)"
  unfolding publishable_def nodes_def by blast

lemma distinct_moves: "distinct (AliasVersion v # cascade_moves D others v p)"
proof -
  let ?ls = "cd_levels (decompose v others)"
  have targets: "map cl_target ?ls = ct_targets (decompose_targets v)"
    using decompose_levels_targets [of others v "ct_targets (decompose_targets v)"]
    by (auto simp: decompose_def Let_def comp_def split: prod.split)
  have "sorted_wrt (<) (v # ct_targets (decompose_targets v))"
    using ancestors_ascending [of v] parent_greater by (auto simp: decompose_targets_def split: option.split)
  then have "distinct (v # map cl_target ?ls)"
    unfolding targets by (auto simp: strict_sorted_iff)
  moreover have "set (cleared_targets (carried D p) ?ls) \<subseteq> set (map cl_target ?ls)"
    by (auto simp: cleared_targets_def dest: set_takeWhileD)
  moreover have "distinct (map cl_target ?ls) \<Longrightarrow> distinct (cleared_targets (carried D p) ?ls)"
    unfolding cleared_targets_def by (metis distinct_takeWhile takeWhile_map comp_apply distinct_append map_append takeWhile_dropWhile_id)
  ultimately show ?thesis
    by (auto simp: cascade_moves_def Let_def distinct_map inj_on_def)
qed

lemma publish_platform:
  assumes "registry_promises c location view" "codec_promises c" "upload_promises upload view"
    "holds c view D w" "graph_state E D" "finite (dom E)" "known_versions E v others"
    "publishable (insert v (published E))" "sha \<noteq> []" "len \<le> i64_max"
  shows "\<exists>r w' D'. push_with_cascade c (clone_with_tag location (version_to_string v)) p (Inr (upload len sha)) others v
      False False ann w = Some (Inr r, w') \<and> holds c view D' w' \<and>
    graph_state (E((v, p) \<mapsto> plain_entry sha (int len) (Some p))) D'"
proof -
  let ?id = "clone_with_tag location (version_to_string v)" and ?moves = "cascade_moves D others v p"
  let ?tags = "map alias_to_string (AliasVersion v # ?moves)"
  have listed: "D (version_to_string b) \<noteq> None" if "b \<in> set others" for b
    using that assms(5,7) by (force simp: known_versions_def graph_state_def elim: state_slot)
  have moves: "set ?moves = {a \<in> set (alias_chain v). \<forall>u. feeds u a \<and> E (u, p) \<noteq> None \<longrightarrow> u \<le> v}"
    by (rule moves_iff [OF assms(5,6,7,8)])
  then have sub: "set (AliasVersion v # ?moves) \<subseteq> nodes (insert v (published E))"
    by (auto simp: nodes_insert feeds_def)
  have plain: "CHR ''+'' \<notin> set t" if "t \<in> set ?tags" for t
    using that sub node_valid [OF assms(8)] valid_tag_plain by (metis (no_types, lifting) image_iff list.set_map subsetD)
  have "inj_on alias_to_string (set (AliasVersion v # ?moves))"
    using sub node_string_inj [OF assms(8)] assms(6) by (auto simp: inj_on_def published_def)
  then have distinct: "distinct ?tags" using distinct_moves by (metis distinct_map)
  obtain latest where resolve: "resolve_cascade_tags c ?id v others p w = Some (Inr (map alias_to_string ?moves, latest), w)"
    using resolve_holds [OF assms(1,2,4) listed] by blast
  obtain counts w1 where upload: "upload len sha w = Some (Inr (len, sha, counts), w1)" "view w1 = view w"
    using assms(3) unfolding upload_promises_def by blast
  obtain rs w2 where merges: "op_each (\<lambda>tag. merge_platform_into_index c ?id tag p sha (int len) ann) ?tags w1 = Some (Inr rs, w2)"
    "holds c view (merged_tags D (set ?tags) p sha (int len) ann) w2"
    using merges_hold [OF assms(1,2) holds_view [OF assms(4) upload(2)] distinct plain assms(9), of "int len"
        "version_to_string v" p ann] by auto
  then obtain r w3 where first: "merge_platform_into_index c ?id (version_to_string v) p sha (int len) ann w1 = Some (Inr r, w3)"
    "\<exists>rs. op_each (\<lambda>tag. merge_platform_into_index c ?id tag p sha (int len) ann) (map alias_to_string ?moves) w3 = Some (Inr rs, w2)"
    by (auto simp: op_return_def elim!: op_bind_Some_cases)
  have "\<exists>r. push_manifest_and_merge_tags c ?id p (upload len sha) (map alias_to_string ?moves) ann w = Some (Inr r, w2)"
    using first upload(1) assms(10) plain
    by (auto simp: push_manifest_and_merge_tags_def op_defs Let_def promises_auth(1) [OF assms(1)] tag_or_latest_clone split: prod.split)
  then have "\<exists>r. push_with_cascade c ?id p (Inr (upload len sha)) others v False False ann w = Some (Inr r, w2)"
    by (auto simp: push_with_cascade_def op_defs Let_def resolve write_default_variant_aliases_def)
  moreover have "graph_state (E((v, p) \<mapsto> plain_entry sha (int len) (Some p))) (merged_tags D (set ?tags) p sha (int len) ann)"
    using publish_step [OF assms(5,6,8) moves] by (simp only: list.set_map list.set)
  ultimately show ?thesis using merges(2) by blast
qed


subsection \<open>A history of releases\<close>

text \<open>
  One release: \<open>ocx package push --cascade\<close> of a version, for its platforms in
  turn, without keep tags and without \<open>--default\<close>.
\<close>

record 'p release =
  rl_version :: version
  rl_platforms :: "('p \<times> nat \<times> string) list"
  rl_annotations :: annotations

definition release_ok :: "'p release \<Rightarrow> bool" where
  "release_ok r \<longleftrightarrow> rl_platforms r \<noteq> [] \<and> (\<forall>(p, len, sha) \<in> set (rl_platforms r). sha \<noteq> [] \<and> len \<le> i64_max)"

definition run_release ::
  "('w, 'b, 'p) client \<Rightarrow> oci_identifier \<Rightarrow> (nat \<Rightarrow> string \<Rightarrow> ('w, client_error, nat \<times> string \<times> layer_counts) op) \<Rightarrow>
   'p release \<Rightarrow> ('w, package_error, 'p push_outcome) op" where
  "run_release c location upload r =
     package_push c True (clone_with_tag location (version_to_string (rl_version r)))
       (map (\<lambda>(p, len, sha). (p, Inr (upload len sha))) (rl_platforms r)) None False False (rl_annotations r)"

fun add_entries :: "version \<Rightarrow> ('p \<times> nat \<times> string) list \<Rightarrow> 'p publications \<Rightarrow> 'p publications" where
  "add_entries v [] E = E"
| "add_entries v ((p, len, sha) # xs) E = add_entries v xs (E((v, p) \<mapsto> plain_entry sha (int len) (Some p)))"

definition released :: "'p release list \<Rightarrow> 'p publications" where
  "released rs = foldl (\<lambda>E r. add_entries (rl_version r) (rl_platforms r) E) (\<lambda>_. None) rs"

lemma add_entries_published:
  "finite (dom (add_entries v xs E)) \<longleftrightarrow> finite (dom E)"
  "published (add_entries v xs E) = (if xs = [] then published E else insert v (published E))"
  by (induction v xs E rule: add_entries.induct) (auto simp: published_update)

lemma known_versions_update:
  assumes "known_versions E v others"
  shows "known_versions (E((v, p) \<mapsto> e)) v others"
  using assms by (auto simp: known_versions_def published_update nodes_insert)

text \<open>The loop over the platforms of a release.\<close>

lemma platforms_hold:
  assumes "registry_promises c location view" "codec_promises c" "upload_promises upload view"
    "holds c view D w" "graph_state E D" "finite (dom E)" "known_versions E v others"
    "publishable (insert v (published E))" "\<forall>(p, len, sha) \<in> set xs. sha \<noteq> [] \<and> len \<le> i64_max"
  shows "\<exists>st' w' D'. op_fold (push_cascade_step c (clone_with_tag location (version_to_string v)) others v False False ann)
      (map (\<lambda>(p, len, sha). (p, Inr (upload len sha))) xs) st w = Some (Inr st', w') \<and>
    holds c view D' w' \<and> graph_state (add_entries v xs E) D' \<and>
    (xs \<noteq> [] \<or> pp_manifest_digest st \<noteq> None \<longrightarrow> pp_manifest_digest st' \<noteq> None)"
  using assms(4-)
proof (induction v xs E arbitrary: D w st rule: add_entries.induct)
  case (1 v E)
  then show ?case by (auto simp: op_defs)
next
  case (2 v p len sha xs E)
  let ?E = "E((v, p) \<mapsto> plain_entry sha (int len) (Some p))"
  have "sha \<noteq> []" "len \<le> i64_max" using "2.prems"(6) by auto
  from publish_platform [OF assms(1-3) "2.prems"(1-5) this, of p ann]
  obtain r w1 D1 where one: "push_with_cascade c (clone_with_tag location (version_to_string v)) p (Inr (upload len sha)) others v
      False False ann w = Some (Inr r, w1)" "holds c view D1 w1" "graph_state ?E D1"
    by blast
  obtain st1 where step: "push_cascade_step c (clone_with_tag location (version_to_string v)) others v False False ann
      (p, Inr (upload len sha)) st w = Some (Inr st1, w1)" "pp_manifest_digest st1 \<noteq> None"
    using one(1) by (simp add: push_cascade_step_def op_defs Let_def)
  have "finite (dom ?E)" "known_versions ?E v others" "publishable (insert v (published ?E))"
    using "2.prems"(3-5) known_versions_update by (auto simp: published_update)
  moreover have "\<forall>(p, len, sha) \<in> set xs. sha \<noteq> [] \<and> len \<le> i64_max" using "2.prems"(6) by simp
  ultimately obtain st' w' D' where run:
    "op_fold (push_cascade_step c (clone_with_tag location (version_to_string v)) others v False False ann)
      (map (\<lambda>(p, len, sha). (p, Inr (upload len sha))) xs) st1 w1 = Some (Inr st', w')"
    "holds c view D' w'" "graph_state (add_entries v xs ?E) D'" "pp_manifest_digest st' \<noteq> None"
    using "2.IH" [OF one(2,3), of st1] step(2) by blast
  then have "op_fold (push_cascade_step c (clone_with_tag location (version_to_string v)) others v False False ann)
      (map (\<lambda>(p, len, sha). (p, Inr (upload len sha))) ((p, len, sha) # xs)) st w = Some (Inr st', w')"
    using step(1) by (simp add: op_bind_def)
  then show ?case using run(2-4) unfolding add_entries.simps by blast
qed

text \<open>The versions a listing reads are the version nodes of the graph.\<close>

lemma node_version:
  assumes "publishable L" "a \<in> nodes L"
  shows "parse_version (alias_to_string a) = (case a of AliasVersion b \<Rightarrow> Some b | Root _ \<Rightarrow> None)"
proof (cases a)
  case (AliasVersion b)
  then obtain v where "v \<in> L" "feeds v (AliasVersion b)" using assms(2) by (auto simp: nodes_def)
  then show ?thesis
    using assms(1) AliasVersion chain_version_ok [of v b] parse_to_string [of b] by (auto simp: publishable_def)
next
  case (Root n)
  then obtain v where "v \<in> L" "variant v = n"
    using assms(2) by (auto simp: nodes_def feeds_root_iff)
  then have "tag_from name = Other name" if "n = Some name" for name
    using assms(1) that by (auto simp: publishable_def)
  then have "parse_version name = None" if "n = Some name" for name
    using that by (auto simp: tag_from_def split: if_splits option.splits prod.splits)
  then show ?thesis
    using Root latest_not_version by (cases n) auto
qed

lemma release_holds:
  assumes "registry_promises c location view" "codec_promises c" "upload_promises upload view"
    "holds c view D w" "graph_state E D" "finite (dom E)" "publishable (insert (rl_version r) (published E))" "release_ok r"
  shows "\<exists>out w' D'. run_release c location upload r w = Some (Inr out, w') \<and> holds c view D' w' \<and>
    graph_state (add_entries (rl_version r) (rl_platforms r) E) D'"
proof -
  let ?v = "rl_version r"
  let ?id = "clone_with_tag location (version_to_string ?v)"
  have pub: "publishable (published E)" using publishable_subset [OF assms(7)] by blast
  have dom: "dom D = alias_to_string ` nodes (published E)" using assms(5) by (simp add: graph_state_def)
  moreover have "alias_to_string a \<noteq> []" if "a \<in> nodes (published E)" for a
    using node_valid [OF pub that] valid_tag_plain by blast
  ultimately have "[] \<notin> dom D" by (metis imageE)
  then have "D [] = None" by blast
  then obtain items where items: "list_tags_addressed c ?id Canonical w = Some (Inr items, w)" "set items = dom D"
    using list_tags_holds [OF assms(1,2,4)] by blast
  have "b \<in> set (parse_versions items) \<longleftrightarrow> AliasVersion b \<in> nodes (published E)" for b
  proof -
    have "b \<in> set (parse_versions items) \<longleftrightarrow> (\<exists>a \<in> nodes (published E). parse_version (alias_to_string a) = Some b)"
      by (auto simp: parse_versions_def map_filter_ex items(2) dom)
    also have "\<dots> \<longleftrightarrow> (\<exists>a \<in> nodes (published E). (case a of AliasVersion b \<Rightarrow> Some b | Root _ \<Rightarrow> None) = Some b)"
      by (rule bex_cong [OF refl]) (simp only: node_version [OF pub])
    also have "\<dots> \<longleftrightarrow> (\<exists>a \<in> nodes (published E). a = AliasVersion b)"
      by (rule bex_cong [OF refl]) (simp split: alias_tag.split)
    finally show ?thesis by blast
  qed
  then have known: "known_versions E ?v (parse_versions items)"
    by (auto simp: known_versions_def parse_versions_def)
  have plain: "CHR ''+'' \<notin> set (version_to_string ?v)"
    using node_valid [OF assms(7), of "AliasVersion ?v"] valid_tag_plain by (simp add: nodes_insert)
  have ok: "version_ok ?v" using assms(7) by (simp add: publishable_def)
  obtain st' w' D' where run: "op_fold (push_cascade_step c ?id (parse_versions items) ?v False False (rl_annotations r))
      (map (\<lambda>(p, len, sha). (p, Inr (upload len sha))) (rl_platforms r)) push_start w = Some (Inr st', w')"
    "holds c view D' w'" "graph_state (add_entries ?v (rl_platforms r) E) D'" "pp_manifest_digest st' \<noteq> None"
    using platforms_hold [OF assms(1-6) known assms(7), of "rl_platforms r" "rl_annotations r" push_start] assms(8)
    by (auto simp: release_ok_def)
  have "\<exists>out. finish_push ?id st' = Inr out" using run(4) by (auto simp: finish_push_def)
  then have "\<exists>out. run_release c location upload r w = Some (Inr out, w')"
    using run(1) items(1) parse_to_string [OF ok]
    by (auto simp: run_release_def package_push_def publisher_list_tags_def list_tags_or_empty_addressed_def
        push_cascade_def apply_build_meta_def op_defs tag_or_latest_clone [OF plain])
  then show ?thesis using run(2,3) by blast
qed


lemma releases_hold:
  assumes "registry_promises c location view" "codec_promises c" "upload_promises upload view"
    "holds c view D w" "graph_state E D" "finite (dom E)"
    "publishable (published E \<union> rl_version ` set rs)" "\<forall>r \<in> set rs. release_ok r"
  shows "\<exists>outs w' D'. op_each (run_release c location upload) rs w = Some (Inr outs, w') \<and> holds c view D' w' \<and>
    graph_state (foldl (\<lambda>E r. add_entries (rl_version r) (rl_platforms r) E) E rs) D'"
  using assms(4-)
proof (induction rs arbitrary: E D w)
  case Nil
  then show ?case by (auto simp: op_defs)
next
  case (Cons r rs)
  let ?E = "add_entries (rl_version r) (rl_platforms r) E"
  have "publishable (insert (rl_version r) (published E))" "release_ok r"
    using publishable_subset [OF Cons.prems(4), of "insert (rl_version r) (published E)"] Cons.prems(5) by auto
  from release_holds [OF assms(1-3) Cons.prems(1-3) this] obtain out w1 D1 where one:
    "run_release c location upload r w = Some (Inr out, w1)" "holds c view D1 w1" "graph_state ?E D1"
    by blast
  have "finite (dom ?E)" using Cons.prems(3) by (simp add: add_entries_published)
  moreover have "publishable (published ?E \<union> rl_version ` set rs)"
    by (rule publishable_subset [OF Cons.prems(4)]) (auto simp: add_entries_published split: if_splits)
  ultimately obtain outs w' D' where "op_each (run_release c location upload) rs w1 = Some (Inr outs, w')"
    "holds c view D' w'" "graph_state (foldl (\<lambda>E r. add_entries (rl_version r) (rl_platforms r) E) ?E rs) D'"
    using Cons.IH [OF one(2,3)] Cons.prems(5) by (meson list.set_intros(2))
  then show ?case using one(1) by (auto simp: op_defs)
qed

lemma released_published:
  assumes "\<forall>r \<in> set rs. release_ok r"
  shows "published (released rs) = rl_version ` set rs" "finite (dom (released rs))"
proof -
  have "published (foldl (\<lambda>E r. add_entries (rl_version r) (rl_platforms r) E) E rs) = published E \<union> rl_version ` set rs"
    "finite (dom E) \<Longrightarrow> finite (dom (foldl (\<lambda>E r. add_entries (rl_version r) (rl_platforms r) E) E rs))" for E
    using assms by (induction rs arbitrary: E) (auto simp: add_entries_published release_ok_def)
  from this [of "\<lambda>_. None"] show "published (released rs) = rl_version ` set rs" "finite (dom (released rs))"
    by (simp_all add: released_def published_def dom_def)
qed

lemma empty_graph: "graph_state (\<lambda>_. None) (\<lambda>_. None)"
  by (auto simp: graph_state_def published_def nodes_def)

subsection \<open>The check on that registry\<close>

lemma classify_all:
  assumes "\<And>t. t \<in> set ts \<Longrightarrow> alias_parse t variants \<noteq> None"
  shows "classify_nodes variants ts = (map (\<lambda>t. (t, the (alias_parse t variants))) ts, [])"
  using assms by (induction ts) (auto split: option.split)

lemma op_each_reads:
  assumes "\<And>x. x \<in> set xs \<Longrightarrow> \<exists>y. f x w = Some (Inr y, w) \<and> P x y"
  shows "\<exists>ys. op_each f xs w = Some (Inr ys, w) \<and> list_all2 P xs ys"
  using assms
proof (induction xs)
  case Nil
  then show ?case by (simp add: op_defs)
next
  case (Cons x xs)
  then obtain y ys where "f x w = Some (Inr y, w)" "P x y" "op_each f xs w = Some (Inr ys, w)" "list_all2 P xs ys"
    by (meson list.set_intros)
  then show ?case by (simp add: op_defs)
qed

lemma gather_holds:
  assumes "registry_promises c location view" "codec_promises c" "holds c view D w"
    "graph_state E D" "publishable (published E)"
    "\<forall>t b. view w t = Some b \<longrightarrow> body_len c b \<le> max_index_document_bytes"
  shows "\<exists>ob. gather c location package None w = Some (Inr ob, w) \<and> og_index_root ob = None \<and> og_ignored_tags ob = [] \<and>
    (\<forall>a. observed_index ob a = (if a \<in> nodes (published E) then D (alias_to_string a) else None)) \<and>
    (\<forall>a. bt_get (og_tags ob) a \<noteq> None \<longleftrightarrow> a \<in> nodes (published E))"
proof -
  have dom: "dom D = alias_to_string ` nodes (published E)" using assms(4) by (simp add: graph_state_def)
  have valid: "is_valid_oci_tag t" if "t \<in> dom D" for t
    using that node_valid [OF assms(5)] by (auto simp: dom)
  then have "D [] = None" using valid_tag_plain by blast
  then obtain items where items: "list_tags_addressed c location Canonical w = Some (Inr items, w)" "set items = dom D"
    using list_tags_holds [OF assms(1-3)] by blast
  have variants: "n \<in> set (variant_names items)" if v: "v \<in> published E" "variant v = Some n" for v n
  proof -
    have node: "AliasVersion v \<in> nodes (published E)" unfolding nodes_def using v(1) feeds_self by blast
    then have "version_to_string v \<in> set items" unfolding items(2) dom by (metis alias_to_string.simps(3) imageI)
    moreover have "parse_version (version_to_string v) = Some v"
      using node_version [OF assms(5) node] by simp
    ultimately have "v \<in> set (List.map_filter parse_version items)" by (subst map_filter_ex) blast
    then show ?thesis
      unfolding variant_names_def bs_collect_set using v(2) by (subst map_filter_ex) blast
  qed
  have parse: "alias_parse (alias_to_string a) (variant_names items) = Some a" if "a \<in> nodes (published E)" for a
    by (rule node_parse [OF assms(5) that variants])
  let ?nodes = "map (\<lambda>t. (t, the (alias_parse t (variant_names items)))) items"
  have "alias_parse t (variant_names items) \<noteq> None" if "t \<in> set items" for t
    using that parse unfolding items(2) dom by auto
  then have classify: "classify items = (?nodes, [])"
    by (simp add: classify_def classify_all)
  have nodes: "(t, a) \<in> set ?nodes \<longleftrightarrow> a \<in> nodes (published E) \<and> t = alias_to_string a" for t a
  proof -
    have "(t, a) \<in> set ?nodes \<longleftrightarrow> t \<in> alias_to_string ` nodes (published E) \<and> a = the (alias_parse t (variant_names items))"
      using items(2) dom by auto
    also have "\<dots> \<longleftrightarrow> a \<in> nodes (published E) \<and> t = alias_to_string a"
      using parse by (metis (no_types, lifting) image_iff option.sel)
    finally show ?thesis .
  qed
  let ?P = "\<lambda>(t, a) (a', o'). a' = a \<and> (\<exists>ix. D t = Some ix \<and> ob_manifest o' = ImageIndex ix)"
  have "\<exists>y. gather_tag c location x w = Some (Inr y, w) \<and> ?P x y" if "x \<in> set ?nodes" for x
  proof -
    obtain t a where x: "x = (t, a)" by (cases x)
    then have t: "t \<in> dom D" using that nodes dom by blast
    then obtain ix where ix: "D t = Some ix" by blast
    obtain b where "fetch_manifest_raw_bytes_addressed c (clone_with_tag location t) Canonical w
        = Some (Inr (Some (b, hash_body c Sha256 b, ImageIndex ix)), w)"
      using fetch_raw_holds [OF assms(1-3) ix valid [OF t]] assms(6) by blast
    then show ?thesis by (simp add: gather_tag_def x op_defs ix)
  qed
  then obtain ys where ys: "op_each (gather_tag c location) ?nodes w = Some (Inr ys, w)" "list_all2 ?P ?nodes ys"
    using op_each_reads [of ?nodes "gather_tag c location" w ?P] by blast
  define ob where "ob = \<lparr>og_identifier = location,
    og_logical = (if \<not> is_located_at package location then Some package else None),
    og_tags = bt_collect ys, og_ignored_tags = [], og_index_root = None\<rparr>"
  have gather: "gather c location package None w = Some (Inr ob, w)"
    by (simp add: gather_def op_defs items(1) classify ys(1) ob_def)
  have get: "bt_get (og_tags ob) = map_of (rev ys)" by (simp add: ob_def bt_collect_get)
  have "fst ` set ys = snd ` set ?nodes"
    using ys(2) by (induction rule: list_all2_induct) auto
  then have keys: "bt_get (og_tags ob) a \<noteq> None \<longleftrightarrow> a \<in> nodes (published E)" for a
    unfolding get map_of_eq_None_iff using nodes by (metis (no_types, lifting) image_iff set_rev snd_conv surj_pair)
  have "\<exists>ix. D (alias_to_string a) = Some ix \<and> ob_manifest o' = ImageIndex ix" if "bt_get (og_tags ob) a = Some o'" for a o'
  proof -
    have "(a, o') \<in> set ys" using that map_of_SomeD unfolding get by fastforce
    then obtain x where "x \<in> set ?nodes" "?P x (a, o')"
      using ys(2) by (metis (no_types, lifting) in_set_conv_nth list_all2_conv_all_nth)
    moreover obtain t b where "x = (t, b)" by (cases x)
    ultimately show ?thesis using nodes [of t b] by auto
  qed
  then have "observed_index ob a = (if a \<in> nodes (published E) then D (alias_to_string a) else None)" for a
    using keys [of a] by (cases "bt_get (og_tags ob) a") (fastforce simp: observed_index_def)+
  moreover have "og_index_root ob = None" "og_ignored_tags ob = []" by (simp_all add: ob_def)
  ultimately show ?thesis using gather keys by blast
qed


text \<open>The slots of an index, by the entries of each platform.\<close>

definition known_platform :: "'p platform_names \<Rightarrow> 'p \<Rightarrow> bool" where
  "known_platform pn p \<longleftrightarrow> \<not> (pn_os pn p = ''unknown'' \<and> pn_architecture pn p = ''unknown'')"

lemma platform_slot_known: "platform_slot pn e = Some p \<longleftrightarrow> e_platform e = Some p \<and> known_platform pn p"
  by (auto simp: platform_slot_def known_platform_def split: option.splits if_splits)

lemma index_slot_entries:
  assumes "\<And>p. length (platform_entries ix p) \<le> 1"
  shows "index_slot pn ix p = Some e \<longleftrightarrow> known_platform pn p \<and> platform_entries ix p = [e]"
proof
  assume "index_slot pn ix p = Some e"
  then have "known_platform pn p" "e \<in> set (platform_entries ix p)"
    using index_slot_platform [of pn ix p e] by (simp_all add: platform_slot_known platform_entries_def)
  then show "known_platform pn p \<and> platform_entries ix p = [e]"
    using assms [of p] by (cases "platform_entries ix p") auto
next
  assume e: "known_platform pn p \<and> platform_entries ix p = [e]"
  then have "e \<in> set (platform_entries ix p)" by simp
  then have "(p, e) \<in> set (slot_entries pn ix)"
    using e by (simp add: slot_entries_platform platform_slot_known platform_entries_def)
  then obtain e' where e': "index_slot pn ix p = Some e'"
    unfolding index_slot_def by (cases "map_of (rev (slot_entries pn ix)) p") (auto simp: map_of_eq_None_iff rev_image_eqI)
  then have "e' \<in> set (platform_entries ix p)"
    using index_slot_platform [of pn ix p e'] by (simp add: platform_slot_known platform_entries_def)
  then show "index_slot pn ix p = Some e" using e e' by simp
qed

lemma distinct_slots:
  assumes "\<And>p. length (platform_entries ix p) \<le> 1"
  shows "distinct (map fst (slot_entries pn ix))"
proof -
  have "distinct (map fst (List.map_filter (\<lambda>e. map_option (\<lambda>p. (p, e)) (platform_slot pn e)) es))"
    if "\<And>p. length (filter (\<lambda>e. e_platform e = Some p) es) \<le> 1" for es
    using that
  proof (induction es)
    case Nil
    then show ?case by (simp add: map_filter_simps)
  next
    case (Cons e es)
    have tail: "length (filter (\<lambda>e. e_platform e = Some p) es) \<le> 1" for p
      using Cons.prems [of p] by (auto split: if_splits)
    show ?case
    proof (cases "platform_slot pn e")
      case None
      then show ?thesis using Cons.IH [OF tail] by (simp add: map_filter_simps)
    next
      case (Some p)
      then have "e_platform e = Some p" by (simp add: platform_slot_known)
      then have "filter (\<lambda>e. e_platform e = Some p) es = []" using Cons.prems [of p] by simp
      then have "\<forall>e' \<in> set es. platform_slot pn e' \<noteq> Some p"
        by (auto simp: filter_empty_conv platform_slot_known)
      then show ?thesis
        using Some Cons.IH [OF tail] by (auto simp: map_filter_simps map_filter_ex)
    qed
  qed
  then show ?thesis using assms by (simp add: slot_entries_def platform_entries_def)
qed

text \<open>What an observation of the graph shows.\<close>

definition observes :: "'p tag_graph_observation \<Rightarrow> 'p publications \<Rightarrow> (string \<Rightarrow> 'p image_index option) \<Rightarrow> bool" where
  "observes ob E D \<longleftrightarrow> og_index_root ob = None \<and>
     (\<forall>a. observed_index ob a = (if a \<in> nodes (published E) then D (alias_to_string a) else None)) \<and>
     (\<forall>a. bt_get (og_tags ob) a \<noteq> None \<longleftrightarrow> a \<in> nodes (published E))"

lemma slots_single:
  assumes "graph_state E D" "finite (dom E)" "a \<in> nodes (published E)" "D (alias_to_string a) = Some ix"
  shows "length (platform_entries ix p) \<le> 1"
    "platform_entries ix p = [e] \<longleftrightarrow> (\<exists>v. newest E a p v \<and> E (v, p) = Some e)"
proof -
  obtain ix' where ix': "D (alias_to_string a) = Some ix'"
    "\<And>p v. newest E a p v \<Longrightarrow> platform_entries ix' p = [the (E (v, p))]"
    "\<And>p. (\<And>v. feeds v a \<Longrightarrow> E (v, p) = None) \<Longrightarrow> platform_entries ix' p = []"
    using state_slot [OF assms(1,3)] by metis
  have "length (platform_entries ix p) \<le> 1 \<and> (platform_entries ix p = [e] \<longleftrightarrow> (\<exists>v. newest E a p v \<and> E (v, p) = Some e))"
  proof (cases "\<exists>u. feeds u a \<and> E (u, p) \<noteq> None")
    case True
    then obtain v where v: "newest E a p v" using exists_newest [OF assms(2)] by blast
    moreover have "u = v" if "newest E a p u" for u
      using that v unfolding newest_def by (meson antisym)
    moreover have "E (v, p) \<noteq> None" using v by (simp add: newest_def)
    ultimately show ?thesis using ix'(1,2) assms(4) by (metis One_nat_def length_Cons list.inject list.size(3) option.inject option.sel option.collapse order_refl)
  next
    case False
    then have "platform_entries ix p = []" "\<And>v. \<not> newest E a p v"
      using ix'(1,3) assms(4) by (auto simp: newest_def)
    then show ?thesis by simp
  qed
  then show "length (platform_entries ix p) \<le> 1"
    "platform_entries ix p = [e] \<longleftrightarrow> (\<exists>v. newest E a p v \<and> E (v, p) = Some e)" by blast+
qed

lemma observed_newest:
  assumes "graph_state E D" "finite (dom E)" "observes ob E D" "a \<in> nodes (published E)"
  shows "observed_slot pn ob a p = Some e \<longleftrightarrow> known_platform pn p \<and> (\<exists>v. newest E a p v \<and> E (v, p) = Some e)"
    "unique_slots pn ob a"
proof -
  obtain ix where ix: "D (alias_to_string a) = Some ix" using state_slot [OF assms(1,4)] by metis
  then have ob: "observed_index ob a = Some ix" using assms(3,4) by (simp add: observes_def)
  have single: "length (platform_entries ix q) \<le> 1" for q
    by (rule slots_single(1) [OF assms(1,2,4) ix])
  show "observed_slot pn ob a p = Some e \<longleftrightarrow> known_platform pn p \<and> (\<exists>v. newest E a p v \<and> E (v, p) = Some e)"
    using index_slot_entries [of ix pn p e] single slots_single(2) [OF assms(1,2,4) ix, of p e]
    by (simp only: observed_slot_def ob bind.bind_lunit)
  show "unique_slots pn ob a"
    using distinct_slots [of ix pn] single by (simp only: unique_slots_def ob option.case)
qed


lemma observed_leaves:
  assumes "observes ob E D" "publishable (published E)"
  shows "set (alias_universe (observed_versions ob)) = (\<Union>v \<in> published E. set (alias_chain v))"
    "set (leaves (observed_versions ob)) = published E"
proof -
  have versions: "b \<in> set (observed_versions ob) \<longleftrightarrow> AliasVersion b \<in> nodes (published E)" for b
    using assms(1) by (simp add: observed_versions_iff observes_def)
  then have sub: "published E \<subseteq> set (observed_versions ob)"
    by (auto simp: nodes_def intro: feeds_self)
  have "set (alias_chain b) \<subseteq> (\<Union>v \<in> published E. set (alias_chain v))" if "b \<in> set (observed_versions ob)" for b
    using that alias_chain_closed by (fastforce simp: versions nodes_def feeds_def)
  then show universe: "set (alias_universe (observed_versions ob)) = (\<Union>v \<in> published E. set (alias_chain v))"
    using sub by (fastforce simp: alias_universe_set)
  show "set (leaves (observed_versions ob)) = published E"
    using assms(2) sub unfolding leaves_set universe
    by (auto simp: versions nodes_def feeds_def publishable_def)
qed

lemma leaf_newest:
  assumes "publishable (published E)" "v \<in> published E"
  shows "newest E (AliasVersion v) p u \<longleftrightarrow> u = v \<and> E (v, p) \<noteq> None"
proof -
  have "w = v" if "feeds w (AliasVersion v)" "E (w, p) \<noteq> None" for w
  proof -
    have "w \<in> published E" using that(2) by (force simp: published_def)
    then show ?thesis using that(1) assms by (auto simp: publishable_def feeds_def)
  qed
  then show ?thesis by (auto simp: newest_def)
qed

text \<open>The fold expects in every rolling tag what the pushes put there.\<close>

lemma expected_newest:
  assumes "graph_state E D" "finite (dom E)" "observes ob E D" "publishable (published E)"
    "a \<in> set (alias_universe (observed_versions ob))"
  shows "bt_get (wanted_slots (fold_expected pn ob) a) p = Some s \<longleftrightarrow>
    known_platform pn p \<and> newest E a p (ex_source s) \<and> E (ex_source s, p) = Some (ex_entry s)"
proof -
  note sets = observed_leaves [OF assms(3,4)]
  have leaf: "observed_slot pn ob (AliasVersion v) p = (if known_platform pn p then E (v, p) else None)" if "v \<in> published E" for v
  proof -
    have "AliasVersion v \<in> nodes (published E)" unfolding nodes_def using that feeds_self by blast
    then have "observed_slot pn ob (AliasVersion v) p = Some e \<longleftrightarrow> known_platform pn p \<and> E (v, p) = Some e" for e
      by (auto simp: observed_newest(1) [OF assms(1-3)] leaf_newest [OF assms(4) that])
    then have "observed_slot pn ob (AliasVersion v) p = Some e \<longleftrightarrow> (if known_platform pn p then E (v, p) else None) = Some e" for e
      by simp
    then show ?thesis by (metis not_None_eq)
  qed
  have feeds: "feeds v a \<longleftrightarrow> a \<in> set (alias_chain v)" if "v \<in> published E" for v
    using that assms(4,5) unfolding sets by (auto simp: feeds_def publishable_def)
  have released: "v \<in> published E" if "E (v, p) = Some e" for v e
    using that by (force simp: published_def)
  show ?thesis
  proof (cases "known_platform pn p")
    case True
    have "newest E a p v \<longleftrightarrow> v \<in> published E \<and> a \<in> set (alias_chain v) \<and> E (v, p) \<noteq> None \<and>
        (\<forall>z \<in> published E. v < z \<and> a \<in> set (alias_chain z) \<longrightarrow> E (z, p) = None)" for v
      unfolding newest_def using feeds released by (metis not_None_eq not_le)
    then show ?thesis
      unfolding expected_slot_iff sets(2) using True leaf by (auto simp: released)
  next
    case False
    then show ?thesis unfolding expected_slot_iff sets(2) using leaf by auto
  qed
qed

lemma graph_clean:
  assumes "graph_state E D" "finite (dom E)" "observes ob E D" "publishable (published E)"
    "set scope \<subseteq> set (alias_universe (observed_versions ob))"
  shows "\<not> has_findings (diff pn ob (fold_expected pn ob) scope)"
proof -
  have "observed_index ob a \<noteq> None \<and> alias_clean pn ob (fold_expected pn ob) a \<and> index_agrees ob a" if "a \<in> set scope" for a
  proof -
    have universe: "a \<in> set (alias_universe (observed_versions ob))" using that assms(5) by blast
    then have node: "a \<in> nodes (published E)"
      unfolding observed_leaves(1) [OF assms(3,4)] by (auto simp: nodes_def feeds_def)
    have "map_option ex_entry (bt_get (wanted_slots (fold_expected pn ob) a) p) = Some e \<longleftrightarrow> observed_slot pn ob a p = Some e" for p e
    proof -
      have "map_option ex_entry (bt_get (wanted_slots (fold_expected pn ob) a) p) = Some e \<longleftrightarrow>
          (\<exists>s. bt_get (wanted_slots (fold_expected pn ob) a) p = Some s \<and> ex_entry s = e)"
        by auto
      also have "\<dots> \<longleftrightarrow> known_platform pn p \<and> (\<exists>v. newest E a p v \<and> E (v, p) = Some e)"
        unfolding expected_newest [OF assms(1-4) universe] by (metis expected_slot.select_convs)
      finally show ?thesis unfolding observed_newest(1) [OF assms(1-3) node] .
    qed
    then have "map_option ex_entry (bt_get (wanted_slots (fold_expected pn ob) a) p) = observed_slot pn ob a p" for p
      by (metis not_None_eq)
    moreover have "observed_index ob a \<noteq> None"
      using assms(3) node state_slot [OF assms(1) node] by (metis observes_def option.distinct(1))
    moreover have "index_agrees ob a" using assms(3) by (simp add: index_agrees_def observes_def)
    ultimately show ?thesis using observed_newest(2) [OF assms(1-3) node] by (simp add: alias_clean_def)
  qed
  then show ?thesis unfolding diff_clean by blast
qed


subsection \<open>A concrete history\<close>

text \<open>The versions of a list, checked by computation.\<close>

lemma publishable_list:
  "publishable (set vs) \<longleftrightarrow>
     list_all (\<lambda>v. version_ok v \<and> list_all (\<lambda>u. AliasVersion v \<notin> set (alias_chain u)) vs \<and>
       list_all (\<lambda>a. is_valid_oci_tag (alias_to_string a)) (AliasVersion v # alias_chain v) \<and>
       (case variant v of None \<Rightarrow> True | Some n \<Rightarrow> tag_from n = Other n)) vs"
  by (auto simp: publishable_def list_all_iff feeds_def split: option.splits)

lemma nodes_list: "a \<in> nodes (set vs) \<longleftrightarrow> list_ex (\<lambda>v. a \<in> set (AliasVersion v # alias_chain v)) vs"
  by (auto simp: nodes_def feeds_def list_ex_iff)

lemma version_ok_cases [code]:
  "version_ok v \<longleftrightarrow>
     (case variant v of None \<Rightarrow> True | Some n \<Rightarrow> variant_name_ok n \<and> n \<noteq> ''latest'') \<and>
     (case build v of None \<Rightarrow> True | Some b \<Rightarrow> ident_ok b) \<and> (case prerelease v of None \<Rightarrow> True | Some x \<Rightarrow> ident_ok x)"
  by (auto simp: version_ok_def split: option.split)

declare feeds_def [code]

definition memory_upload :: "nat \<Rightarrow> string \<Rightarrow> ('w, client_error, nat \<times> string \<times> layer_counts) op" where
  "memory_upload len sha = op_return (len, sha, layer_counts_default)"

lemma memory_upload_promises: "upload_promises memory_upload view"
  by (simp add: upload_promises_def memory_upload_def op_defs)

text \<open>A newer release first, then an older one for two platforms.\<close>

definition example_releases :: "string release list" where
  "example_releases =
     [\<lparr>rl_version = new_patch 1 1 0, rl_platforms = [(''linux'', 4, ''b'')], rl_annotations = []\<rparr>,
      \<lparr>rl_version = new_patch 1 0 0, rl_platforms = [(''linux'', 3, ''a''), (''plan9'', 5, ''c'')],
       rl_annotations = [(''k'', ''v'')]\<rparr>]"

lemma example_release_ok: "\<forall>r \<in> set example_releases. release_ok r"
  by code_simp

lemma example_publishable: "publishable (rl_version ` set example_releases)"
  unfolding set_map [symmetric] publishable_list by code_simp

lemma newest_released:
  assumes "\<forall>r \<in> set rs. release_ok r" "feeds v a" "released rs (v, p) \<noteq> None"
    "\<forall>r \<in> set rs. feeds (rl_version r) a \<longrightarrow> rl_version r \<le> v"
  shows "newest (released rs) a p v"
  using assms released_published(1) [OF assms(1)]
  unfolding newest_def by (force simp: published_def)

subsection \<open>Properties\<close>





end
