(* ===== verification/Ocx_Prune.thy ===== *)
theory Ocx_Prune
  imports Ocx_Cascade_Graph
begin

section \<open>Pruning tags\<close>

text \<open>
  \<open>crates/ocx_package/src/prune.rs\<close>: the deletion of tags behind
  \<open>ocx package prune\<close>. A run selects tags, judges the whole selection against
  the published index, and only then deletes, each tag confirmed gone. The
  outcome is filled in as the run goes; a run that stops carries what it has so
  far next to its error. The index source (\<open>crates/ocx_index\<close>) is the record
  \<open>index_source\<close>, its errors the type \<open>'x\<close>.
\<close>

subsection \<open>Requests, targets and outcomes\<close>

definition confirm_tries :: nat where
  "confirm_tries = 3"

datatype prune_selection = SelectTags "string list" | SelectPrerelease version "u32 option"

record prune_request =
  rq_selection :: prune_selection
  rq_force :: bool
  rq_dry_run :: bool

record indexed_root =
  xr_url :: string
  xr_root_sha256 :: digest
  xr_root :: index_root

record prune_target =
  pt_package :: oci_identifier
  pt_repository :: oci_identifier
  pt_index :: "indexed_root option"

datatype prune_action = Deleted | AlreadyAbsent | WouldDelete | Kept | Refused | NotAttempted

datatype prune_reason = Newest | Rolling | Durable | Unindexed

fun prune_action_to_string :: "prune_action \<Rightarrow> string" where
  "prune_action_to_string Deleted = ''deleted''"
| "prune_action_to_string AlreadyAbsent = ''absent''"
| "prune_action_to_string WouldDelete = ''would_delete''"
| "prune_action_to_string Kept = ''kept''"
| "prune_action_to_string Refused = ''refused''"
| "prune_action_to_string NotAttempted = ''not_attempted''"

fun prune_reason_to_string :: "prune_reason \<Rightarrow> string" where
  "prune_reason_to_string Newest = ''newest''"
| "prune_reason_to_string Rolling = ''rolling''"
| "prune_reason_to_string Durable = ''durable''"
| "prune_reason_to_string Unindexed = ''not_in_index''"

record prune_tag =
  pg_tag :: string
  pg_digest :: "digest option"
  pg_action :: prune_action
  pg_reason :: "prune_reason option"
  pg_in_root :: bool

record prune_index_report =
  ri_url :: string
  ri_root_sha256 :: digest

record prune_outcome =
  po_package :: oci_identifier
  po_repository :: oci_identifier
  po_selection :: prune_selection
  po_force :: bool
  po_dry_run :: bool
  po_index :: "prune_index_report option"
  po_tags :: "prune_tag list"
  po_selected :: bool

definition tags_file_entries :: "prune_outcome \<Rightarrow> string list option" where
  "tags_file_entries out =
     (if po_dry_run out \<or> \<not> po_selected out then None
      else Some (map pg_tag (filter (\<lambda>r. pg_in_root r \<and> pg_action r \<in> {Deleted, AlreadyAbsent}) (po_tags out))))"

datatype 'x prune_error =
    NotAPrereleaseFamily string
  | DigestTag string
  | PruneInvalidTag string string
  | PackageNotBare string
  | RootUnreadable string string 'x
  | NotInIndex string string
  | RepositoryPointer string 'x
  | NoIndex string
  | PruneRefused string string "string list" "string list"
  | DeleteDenied string string client_error
  | StillPresent string string
  | PruneRegistry client_error

record 'x prune_run =
  pr_outcome :: prune_outcome
  pr_error :: "'x prune_error option"

text \<open>The exit code of a stopped run; the errors of the index classify themselves.\<close>

fun prune_exit_code :: "('x \<Rightarrow> exit_code option) \<Rightarrow> 'x prune_error \<Rightarrow> exit_code option" where
  "prune_exit_code source (NotAPrereleaseFamily _) = Some UsageError"
| "prune_exit_code source (DigestTag _) = Some UsageError"
| "prune_exit_code source (PruneInvalidTag _ _) = Some UsageError"
| "prune_exit_code source (PackageNotBare _) = Some UsageError"
| "prune_exit_code source (RootUnreadable _ _ e) = source e"
| "prune_exit_code source (NotInIndex _ _) = Some NotFound"
| "prune_exit_code source (RepositoryPointer _ e) = source e"
| "prune_exit_code source (NoIndex _) = Some PolicyBlocked"
| "prune_exit_code source (PruneRefused _ _ durable _) = Some (if durable \<noteq> [] then PolicyBlocked else TempFail)"
| "prune_exit_code source (DeleteDenied _ _ e) = client_exit_code e"
| "prune_exit_code source (StillPresent _ _) = Some TempFail"
| "prune_exit_code source (PruneRegistry e) = client_exit_code e"

definition listed_tags :: "string list \<Rightarrow> string" where
  "listed_tags tags = join_with '', '' tags @ '' '' @ (if length tags = 1 then ''is'' else ''are'')"

definition refusal_message :: "string \<Rightarrow> string \<Rightarrow> string list \<Rightarrow> string list \<Rightarrow> string" where
  "refusal_message package url durable not_in_index =
     (let reasons =
        (if durable = [] then [] else [listed_tags durable @ '' durable in the index at '' @ url])
        @ (if not_in_index = [] then [] else [listed_tags not_in_index @ '' not in the index at '' @ url @ '' yet''])
      in ''refusing to delete '' @ show_nat (length durable + length not_in_index) @ '' tag(s) of '' @ package @ '': ''
         @ join_with ''; '' reasons @ ''; nothing was deleted''
         @ (if durable = [] then []
            else if length durable = 1 then
              ''; hint: pass --force to delete it anyway; the index row stays until a reviewed announce removes it''
            else ''; hint: pass --force to delete them anyway; the index rows stay until a reviewed announce removes them'')
         @ (if not_in_index = [] then []
            else if length not_in_index = 1 then
              ''; hint: retry once its announce has merged, or announce it with `ocx package announce --ephemeral --tags-file PATH`''
            else
              ''; hint: retry once their announce has merged, or announce them with `ocx package announce --ephemeral --tags-file PATH`''))"

subsection \<open>Arguments\<close>

definition parse_prerelease_family :: "string \<Rightarrow> ('x prune_error, version) result" where
  "parse_prerelease_family value =
     (case parse_version value of
        Some v \<Rightarrow> (if has_prerelease v \<and> \<not> has_build v then Inr v else Inl (NotAPrereleaseFamily value))
      | None \<Rightarrow> Inl (NotAPrereleaseFamily value))"

definition parse_prune_tag :: "string \<Rightarrow> ('x prune_error, string) result" where
  "parse_prune_tag value =
     (if CHR '':'' \<in> set value \<or> CHR ''@'' \<in> set value then Inl (DigestTag value)
      else if \<not> is_valid_oci_tag value then
        Inl (PruneInvalidTag value ''a tag is 1 to 128 of A-Z a-z 0-9 _ . - and starts with a letter, digit or _'')
      else if starts_with keep_tag_prefix value then
        Inl (PruneInvalidTag value ''keep tags protect their manifest and are never pruned'')
      else Inr value)"

text \<open>What the run uses of an index source (\<open>OcxIndex\<close>).\<close>

record ('w, 'x) index_source =
  redacted_base_url :: string
  fetch_root_uncached :: "string \<Rightarrow> ('w, 'x, (digest \<times> index_root) option) op"
  guard_repository_pointer :: "index_root \<Rightarrow> ('w, 'x, oci_identifier) op"

definition locate ::
  "oci_identifier \<Rightarrow> ('w, 'x) index_source option \<Rightarrow> ('w, 'x prune_error, prune_target) op" where
  "locate package index =
     (if pr_tag package \<noteq> None \<or> pr_digest package \<noteq> None then
        op_fail (PackageNotBare (package_ref_to_string package))
      else case index of
        None \<Rightarrow> op_return \<lparr>pt_package = package, pt_repository = package, pt_index = None\<rparr>
      | Some source \<Rightarrow>
          (let url = redacted_base_url source
           in op_bind (op_map_err (RootUnreadable (package_ref_to_string package) url)
                (fetch_root_uncached source (pr_repository package))) (\<lambda>fetched.
              case fetched of
                None \<Rightarrow> op_fail (NotInIndex (package_ref_to_string package) url)
              | Some (root_sha256, root) \<Rightarrow>
                  op_bind (op_map_err (RepositoryPointer (package_ref_to_string package))
                    (guard_repository_pointer source root)) (\<lambda>repository.
                  op_return
                    \<lparr>pt_package = package, pt_repository = without_specifiers repository,
                     pt_index = Some \<lparr>xr_url = url, xr_root_sha256 = root_sha256, xr_root = root\<rparr>\<rparr>))))"

subsection \<open>Selecting\<close>

text \<open>\<open>filter(|tag| seen.insert(tag))\<close>: the first of each, in order.\<close>

fun first_seen :: "'a list \<Rightarrow> 'a set \<Rightarrow> 'a list" where
  "first_seen [] seen = []"
| "first_seen (x # xs) seen = (if x \<in> seen then first_seen xs seen else x # first_seen xs (insert x seen))"

fun family_tags :: "version \<Rightarrow> string list \<Rightarrow> (version \<times> string) list \<times> string option \<Rightarrow> (version \<times> string) list \<times> string option" where
  "family_tags pre [] (builds, rolling) = (builds, rolling)"
| "family_tags pre (tag # listing) (builds, rolling) =
     (case parse_version tag of
        None \<Rightarrow> family_tags pre listing (builds, rolling)
      | Some v \<Rightarrow>
          (if v = pre then family_tags pre listing (builds, Some tag)
           else if has_build v \<and> parent v = Some pre then family_tags pre listing (builds @ [(v, tag)], rolling)
           else family_tags pre listing (builds, rolling)))"

definition select_family :: "version \<Rightarrow> u32 option \<Rightarrow> string list \<Rightarrow> (string \<times> prune_reason option) list" where
  "select_family pre keep_builds listing =
     (case family_tags pre listing ([], None) of (found, rolling) \<Rightarrow>
        (let builds = sort_key fst found;
             keep = (case keep_builds of None \<Rightarrow> 0 | Some n \<Rightarrow> unat n);
             first_kept = length builds - keep
         in map (\<lambda>(i, (_, tag)). (tag, if first_kept \<le> i then Some Newest else None)) (enumerate 0 builds)
            @ (case rolling of Some tag \<Rightarrow> [(tag, map_option (\<lambda>_. Rolling) keep_builds)] | None \<Rightarrow> [])))"

definition select ::
  "('w, 'b, 'p) client \<Rightarrow> prune_target \<Rightarrow> prune_selection \<Rightarrow> ('w, 'x prune_error, (string \<times> prune_reason option) list) op" where
  "select c target selection =
     (case selection of
        SelectTags tags \<Rightarrow> op_return (map (\<lambda>tag. (tag, None)) (first_seen tags {}))
      | SelectPrerelease pre keep_builds \<Rightarrow>
          op_bind (op_map_err PruneRegistry
            (list_tags_or_empty_addressed c (without_specifiers (pt_repository target)) Canonical)) (\<lambda>listing.
          op_return (select_family pre keep_builds listing)))"

subsection \<open>Judging\<close>

datatype prune_verdict = VKeep prune_reason | VDelete | VAbsent | VRefuse prune_reason

definition root_row :: "prune_target \<Rightarrow> string \<Rightarrow> root_tag option" where
  "root_row target tag = (case pt_index target of None \<Rightarrow> None | Some x \<Rightarrow> bt_get (ir_tags (xr_root x)) tag)"

definition judge ::
  "('w, 'b, 'p) client \<Rightarrow> prune_target \<Rightarrow> string \<Rightarrow> prune_reason option \<Rightarrow> bool \<Rightarrow>
   ('w, 'x prune_error, prune_verdict \<times> digest option \<times> bool) op" where
  "judge c target tag kept force =
     (let row = root_row target tag; root_digest = map_option rt_content row
      in case kept of
           Some reason \<Rightarrow> op_return (VKeep reason, root_digest, row \<noteq> None)
         | None \<Rightarrow>
             (case row of
                Some r \<Rightarrow> op_return (if rt_ephemeral r \<or> force then VDelete else VRefuse Durable, root_digest, True)
              | None \<Rightarrow>
                  op_bind (op_map_err PruneRegistry
                    (probe_manifest_canonical c (clone_with_tag (pt_repository target) tag))) (\<lambda>presence.
                  case presence of
                    ManifestPresent d \<Rightarrow> op_return (if force then VDelete else VRefuse Unindexed, Some d, False)
                  | ManifestAbsent _ \<Rightarrow> op_return (VAbsent, None, False))))"

definition verdict_row :: "bool \<Rightarrow> string \<Rightarrow> prune_verdict \<Rightarrow> digest option \<Rightarrow> bool \<Rightarrow> prune_tag" where
  "verdict_row dry_run tag v d in_root =
     (case (case v of
              VKeep reason \<Rightarrow> (Kept, Some reason)
            | VRefuse reason \<Rightarrow> (Refused, Some reason)
            | VAbsent \<Rightarrow> (AlreadyAbsent, None)
            | VDelete \<Rightarrow> (if dry_run then WouldDelete else NotAttempted, None)) of (action, reason) \<Rightarrow>
        \<lparr>pg_tag = tag, pg_digest = d, pg_action = action, pg_reason = reason, pg_in_root = in_root\<rparr>)"

text \<open>
  The loop over the selection. The rows so far travel with the error of a probe
  that fails.
\<close>

fun judge_all ::
  "('w, 'b, 'p) client \<Rightarrow> prune_target \<Rightarrow> bool \<Rightarrow> bool \<Rightarrow> (string \<times> prune_reason option) list \<Rightarrow> (prune_verdict \<times> prune_tag) list \<Rightarrow>
   ('w, prune_tag list \<times> 'x prune_error, (prune_verdict \<times> prune_tag) list) op" where
  "judge_all c target force dry_run [] rows = op_return rows"
| "judge_all c target force dry_run ((tag, kept) # selected) rows =
     op_bind (op_map_err (\<lambda>e. (map snd rows, e)) (judge c target tag kept force)) (\<lambda>(v, d, in_root).
     judge_all c target force dry_run selected (rows @ [(v, verdict_row dry_run tag v d in_root)]))"

definition refused_tags :: "prune_reason \<Rightarrow> prune_tag list \<Rightarrow> string list" where
  "refused_tags reason rows = map pg_tag (filter (\<lambda>r. pg_action r = Refused \<and> pg_reason r = Some reason) rows)"

subsection \<open>Deleting\<close>

text \<open>The confirmation GETs; the pause between two of them is left out.\<close>

fun confirm_gone ::
  "('w, 'b, 'p) client \<Rightarrow> oci_identifier \<Rightarrow> nat \<Rightarrow> ('w, client_error, bool) op" where
  "confirm_gone c reference 0 = op_return False"
| "confirm_gone c reference (Suc tries) =
     op_bind (probe_manifest_canonical c reference) (\<lambda>presence.
     case presence of ManifestAbsent _ \<Rightarrow> op_return True | ManifestPresent _ \<Rightarrow> confirm_gone c reference tries)"

definition delete_and_confirm ::
  "('w, 'b, 'p) client \<Rightarrow> oci_identifier \<Rightarrow> string \<Rightarrow> ('w, 'x prune_error, prune_action) op" where
  "delete_and_confirm c repository tag =
     (let reference = clone_with_tag repository tag
      in op_match (delete_tag c reference)
           (\<lambda>outcome.
              op_bind (op_map_err PruneRegistry (confirm_gone c reference confirm_tries)) (\<lambda>gone.
              if gone then op_return (case outcome of TagDeleted \<Rightarrow> Deleted | TagAlreadyAbsent \<Rightarrow> AlreadyAbsent)
              else op_fail (StillPresent (package_ref_to_string repository) tag)))
           (\<lambda>e. case e of
                  Authentication message \<Rightarrow> op_fail (DeleteDenied (package_ref_to_string repository) tag (Authentication message))
                | _ \<Rightarrow> op_fail (PruneRegistry e)))"

fun delete_all ::
  "('w, 'b, 'p) client \<Rightarrow> oci_identifier \<Rightarrow> (prune_verdict \<times> prune_tag) list \<Rightarrow> prune_tag list \<Rightarrow>
   ('w, prune_tag list \<times> 'x prune_error, prune_tag list) op" where
  "delete_all c repository [] done = op_return done"
| "delete_all c repository ((v, row) # todo) done =
     (if v \<noteq> VDelete then delete_all c repository todo (done @ [row])
      else
        op_bind (op_map_err (\<lambda>e. (done @ row # map snd todo, e)) (delete_and_confirm c repository (pg_tag row))) (\<lambda>action.
        delete_all c repository todo (done @ [row\<lparr>pg_action := action\<rparr>])))"

text \<open>
  The run: a result is the rows of a finished run, an error the rows at the point
  where it stopped, whether the selection was known, and why.
\<close>

definition run ::
  "('w, 'b, 'p) client \<Rightarrow> prune_target \<Rightarrow> prune_request \<Rightarrow>
   ('w, bool \<times> prune_tag list \<times> 'x prune_error, prune_tag list) op" where
  "run c target request =
     (if pt_index target = None \<and> \<not> rq_force request then
        op_fail (False, [], NoIndex (package_ref_to_string (pt_package target)))
      else
        op_bind (op_map_err (\<lambda>e. (False, [], e)) (select c target (rq_selection request))) (\<lambda>selected.
        op_bind (op_map_err (\<lambda>(rows, e). (True, rows, e))
          (judge_all c target (rq_force request) (rq_dry_run request) selected [])) (\<lambda>judged.
        let rows = map snd judged; durable = refused_tags Durable rows; not_in_index = refused_tags Unindexed rows
        in if durable \<noteq> [] \<or> not_in_index \<noteq> [] then
             op_fail (True,
               map (\<lambda>r. if pg_action r \<in> {WouldDelete, AlreadyAbsent} then r\<lparr>pg_action := NotAttempted\<rparr> else r) rows,
               PruneRefused (package_ref_to_string (pt_package target))
                 (case pt_index target of Some x \<Rightarrow> xr_url x | None \<Rightarrow> []) durable not_in_index)
           else if rq_dry_run request then op_return rows
           else op_map_err (\<lambda>(rows, e). (True, rows, e)) (delete_all c (pt_repository target) judged []))))"

definition outcome_of :: "prune_target \<Rightarrow> prune_request \<Rightarrow> prune_tag list \<Rightarrow> bool \<Rightarrow> prune_outcome" where
  "outcome_of target request rows selected =
     \<lparr>po_package = pt_package target, po_repository = pt_repository target, po_selection = rq_selection request,
      po_force = rq_force request, po_dry_run = rq_dry_run request,
      po_index = map_option (\<lambda>x. \<lparr>ri_url = xr_url x, ri_root_sha256 = xr_root_sha256 x\<rparr>) (pt_index target),
      po_tags = rows, po_selected = selected\<rparr>"

definition prune ::
  "('w, 'b, 'p) client \<Rightarrow> prune_target \<Rightarrow> prune_request \<Rightarrow> ('w, unit, 'x prune_run) op" where
  "prune c target request =
     op_match (run c target request)
       (\<lambda>rows. op_return \<lparr>pr_outcome = outcome_of target request rows True, pr_error = None\<rparr>)
       (\<lambda>(selected, rows, e).
          op_return \<lparr>pr_outcome = outcome_of target request rows selected, pr_error = Some e\<rparr>)"

subsection \<open>What a run may do to a registry\<close>

text \<open>
  What the registry is relied on for: reads change no tag, a listing names tags
  of the tag grammar, a deletion that is asked for removes its tag or nothing, and
  a manifest reported absent is absent. Any request may fail.
\<close>

definition removal_promises :: "('w, 'b, 'p) client \<Rightarrow> oci_identifier \<Rightarrow> ('w \<Rightarrow> string \<Rightarrow> 'd option) \<Rightarrow> bool" where
  "removal_promises c location view \<longleftrightarrow>
     (\<forall>ref operation. op_within (\<lambda>w w'. view w' = view w) (t_ensure_auth c ref operation)) \<and>
     (\<forall>ref n cursor. op_within (\<lambda>w w'. view w' = view w) (t_list_tags c ref n cursor)) \<and>
     (\<forall>ref. op_within (\<lambda>w w'. view w' = view w) (t_probe_manifest c ref)) \<and>
     (\<forall>ref n cursor w page w'. t_list_tags c ref n cursor w = Some (Inr page, w') \<longrightarrow> list_all is_valid_oci_tag page) \<and>
     (\<forall>t w code w'. is_valid_oci_tag t \<and> t_probe_manifest c (tag_ref location t) w = Some (Inr (ManifestAbsent code), w')
        \<longrightarrow> view w t = None) \<and>
     (\<forall>t w r w'. is_valid_oci_tag t \<and> t_delete_manifest c (tag_ref location t) w = Some (r, w')
        \<longrightarrow> view w' = view w \<or> view w' = (view w)(t := None))"

lemma view_preorder: "reflp (\<lambda>w w'. view w' = view w)" "transp (\<lambda>w w'. view w' = view w)"
  by (simp_all add: reflp_def transp_def)

lemmas view_rules = op_within_bind [OF view_preorder(2)] op_within_match [OF view_preorder(2)] op_within_map_err
  op_within_pure [OF view_preorder(1)]

lemma auth_reads:
  assumes "removal_promises c location view" "t_ensure_auth c ref operation w = Some (r, w')"
  shows "view w' = view w"
proof -
  have "op_within (\<lambda>w w'. view w' = view w) (t_ensure_auth c ref operation)"
    using assms(1) by (simp add: removal_promises_def)
  from op_withinD [OF this assms(2)] show ?thesis .
qed

lemma probe_reads:
  assumes "removal_promises c location view"
  shows "op_within (\<lambda>w w'. view w' = view w) (probe_manifest_canonical c identifier)"
  using assms unfolding removal_promises_def probe_manifest_canonical_def Let_def
  by (auto intro!: view_rules split: option.split)

lemma probe_absent:
  assumes "removal_promises c location view" "is_valid_oci_tag t"
    "probe_manifest_canonical c (clone_with_tag location t) w = Some (Inr (ManifestAbsent code), w')"
  shows "view w' t = None"
proof -
  have "pr_tag (clone_with_tag location t) = Some t" using valid_tag_plain [OF assms(2)] by (simp add: clone_with_tag_fields)
  then have "op_bind (t_ensure_auth c (tag_ref location t) OpPull) (\<lambda>_. t_probe_manifest c (tag_ref location t)) w
      = Some (Inr (ManifestAbsent code), w')"
    using assms(2,3) by (simp add: probe_manifest_canonical_def Let_def)
  then obtain u where u: "t_probe_manifest c (tag_ref location t) u = Some (Inr (ManifestAbsent code), w')"
    by (auto elim: op_bind_Some_cases)
  then have "view u t = None" "view w' = view u"
    using assms(1,2) unfolding removal_promises_def op_within_def by blast+
  then show ?thesis by simp
qed

lemma list_reads:
  assumes "removal_promises c location view"
  shows "op_within (\<lambda>w w'. view w' = view w) (list_tags_or_empty_addressed c identifier addressing)"
  using assms unfolding removal_promises_def list_tags_or_empty_addressed_def list_tags_addressed_def Let_def
  by (auto intro!: view_rules paginate_within view_preorder split: client_error.split)

lemma list_valid:
  assumes "removal_promises c location view" "list_tags_or_empty_addressed c identifier addressing w = Some (Inr ts, w')"
  shows "list_all is_valid_oci_tag ts"
proof -
  have "list_all is_valid_oci_tag ts" if listed: "list_tags_addressed c identifier addressing w = Some (Inr ts, w')" for ts
  proof -
    let ?img = "read_reference c identifier addressing"
    obtain u where "paginate (tag_chunk_size c) (t_list_tags c ?img) [] u = Some (Inr ts, w')"
      using listed by (auto simp: list_tags_addressed_def Let_def elim!: op_bind_Some_cases)
    moreover have "\<And>n cursor w page w'. t_list_tags c ?img n cursor w = Some (Inr page, w') \<Longrightarrow> list_all is_valid_oci_tag page"
      using assms(1) unfolding removal_promises_def by blast
    ultimately show ?thesis using paginate_pages [of "t_list_tags c ?img" is_valid_oci_tag "[]"] by auto
  qed
  then show ?thesis
    using assms(2) unfolding list_tags_or_empty_addressed_def
    by (auto simp: op_rules elim!: op_match_Some_cases split: client_error.splits)
qed

lemma select_reads:
  assumes "removal_promises c location view"
  shows "op_within (\<lambda>w w'. view w' = view w) (select c target selection)"
  using assms unfolding select_def by (auto intro!: view_rules list_reads split: prune_selection.split)

lemma judge_reads:
  assumes "removal_promises c location view"
  shows "op_within (\<lambda>w w'. view w' = view w) (judge c target tag kept force)"
  using assms unfolding judge_def Let_def
  by (auto intro!: view_rules probe_reads split: option.split manifest_presence.split)

lemma judge_all_reads:
  assumes "removal_promises c location view"
  shows "op_within (\<lambda>w w'. view w' = view w) (judge_all c target force dry_run selected rows)"
  using assms
  by (induction c target force dry_run selected rows rule: judge_all.induct)
    (auto intro!: view_rules judge_reads split: prod.split)

lemma confirm_reads:
  assumes "removal_promises c location view"
  shows "op_within (\<lambda>w w'. view w' = view w) (confirm_gone c reference tries)"
  using assms by (induction tries) (auto intro!: view_rules probe_reads split: manifest_presence.split)

lemma first_seen_set: "set (first_seen xs seen) = set xs - seen" "distinct (first_seen xs seen)"
  by (induction xs seen rule: first_seen.induct) auto

lemma family_tags_found:
  "set (fst (family_tags pre listing (builds, rolling))) =
     set builds \<union> {(v, t). t \<in> set listing \<and> parse_version t = Some v \<and> v \<noteq> pre \<and> has_build v \<and> parent v = Some pre}"
  "snd (family_tags pre listing (builds, rolling)) = Some t \<Longrightarrow> rolling = Some t \<or> t \<in> set listing \<and> parse_version t = Some pre"
  by (induction pre listing "(builds, rolling)" arbitrary: builds rolling rule: family_tags.induct)
    (auto split: option.splits if_splits)

lemma select_family_listed:
  assumes "(t, kept) \<in> set (select_family pre keep listing)"
  shows "t \<in> set listing \<and> (\<exists>v. parse_version t = Some v \<and> (v = pre \<or> has_build v \<and> parent v = Some pre))"
proof -
  obtain found rolling where found: "family_tags pre listing ([], None) = (found, rolling)" by fastforce
  let ?first = "length found - (case keep of None \<Rightarrow> 0 | Some n \<Rightarrow> unat n)"
  have "t \<in> snd ` set found \<or> rolling = Some t"
  proof -
    have "(t, kept) \<in> (\<lambda>(i, _, tag). (tag, if ?first \<le> i then Some Newest else None)) ` set (enumerate 0 (sort_key fst found))
        \<or> rolling = Some t"
      using assms by (auto simp: select_family_def found Let_def split: option.splits)
    moreover have "snd x \<in> set found" if "x \<in> set (enumerate 0 (sort_key fst found))" for x
    proof -
      have "snd x \<in> set (sort_key fst found)"
        using that nth_mem [of "fst x" "sort_key fst found"] by (simp add: in_set_enumerate_eq)
      then show ?thesis by simp
    qed
    ultimately show ?thesis by force
  qed
  moreover have "v \<in> set listing \<and> parse_version v = Some u \<and> has_build u \<and> parent u = Some pre" if "(u, v) \<in> set found" for u v
    using that family_tags_found(1) [of pre listing "[]" None] by (auto simp: found)
  ultimately show ?thesis
    using family_tags_found(2) [of pre listing "[]" None t] by (auto simp: found)
qed

text \<open>Tags that a selection can name: given ones as they are, found ones as listed.\<close>

definition selection_valid :: "prune_selection \<Rightarrow> bool" where
  "selection_valid selection = (case selection of SelectTags tags \<Rightarrow> list_all is_valid_oci_tag tags | SelectPrerelease _ _ \<Rightarrow> True)"

definition selectable :: "prune_selection \<Rightarrow> string \<Rightarrow> bool" where
  "selectable selection t =
     (case selection of
        SelectTags tags \<Rightarrow> t \<in> set tags
      | SelectPrerelease pre _ \<Rightarrow> \<exists>v. parse_version t = Some v \<and> (v = pre \<or> has_build v \<and> parent v = Some pre))"

lemma select_valid:
  assumes "removal_promises c location view" "selection_valid selection" "select c target selection w = Some (Inr selected, w')"
    "(t, kept) \<in> set selected"
  shows "is_valid_oci_tag t \<and> selectable selection t"
proof (cases selection)
  case (SelectTags tags)
  then show ?thesis
    using assms(2-4) first_seen_set(1) [of tags "{}"] by (auto simp: select_def op_rules selection_valid_def selectable_def list_all_iff)
next
  case (SelectPrerelease pre keep)
  then obtain listing where "list_tags_or_empty_addressed c (without_specifiers (pt_repository target)) Canonical w = Some (Inr listing, w')"
    "selected = select_family pre keep listing"
    using assms(3) by (auto simp: select_def op_rules elim!: op_bind_Some_cases op_map_err_Some_cases)
  then show ?thesis
    using list_valid [OF assms(1)] select_family_listed [of t kept pre keep listing] assms(4) SelectPrerelease
    by (auto simp: list_all_iff selectable_def)
qed

text \<open>The verdicts, as the safeguard gives them.\<close>

lemma judge_verdict:
  assumes "judge c target tag kept force w = Some (Inr (v, d, in_root), w')"
  shows "in_root = (root_row target tag \<noteq> None)"
    "kept = Some reason \<Longrightarrow> v = VKeep reason"
    "v = VDelete \<Longrightarrow> kept = None \<and> (force \<or> (\<exists>row. root_row target tag = Some row \<and> rt_ephemeral row))"
    "v = VAbsent \<Longrightarrow> root_row target tag = None"
    "v = VRefuse refusal \<Longrightarrow> refusal \<in> {Durable, Unindexed}"
  using assms
  by (auto simp: judge_def Let_def op_rules split: option.splits manifest_presence.splits if_splits
      elim!: op_bind_Some_cases op_map_err_Some_cases)

text \<open>How the verdict and the row of a selected tag come about.\<close>

definition safeguarded :: "prune_target \<Rightarrow> bool \<Rightarrow> bool \<Rightarrow> string \<times> prune_reason option \<Rightarrow> prune_verdict \<times> prune_tag \<Rightarrow> bool" where
  "safeguarded target force dry_run = (\<lambda>(tag, kept) (v, row).
     (\<exists>d. row = verdict_row dry_run tag v d (root_row target tag \<noteq> None)) \<and>
     (\<forall>reason. kept = Some reason \<longrightarrow> v = VKeep reason) \<and>
     (v = VDelete \<longrightarrow> kept = None \<and> (force \<or> (\<exists>row. root_row target tag = Some row \<and> rt_ephemeral row))) \<and>
     (v = VAbsent \<longrightarrow> root_row target tag = None) \<and> (\<forall>reason. v = VRefuse reason \<longrightarrow> reason \<in> {Durable, Unindexed}))"

lemma safeguarded_tag: "safeguarded target force dry_run (tag, kept) (v, row) \<Longrightarrow> pg_tag row = tag"
  by (cases v) (auto simp: safeguarded_def verdict_row_def)

lemma list_all2_right: "list_all2 P xs ys \<Longrightarrow> y \<in> set ys \<Longrightarrow> \<exists>x \<in> set xs. P x y"
  by (induction rule: list_all2_induct) auto

lemma judge_all_rows:
  fixes c :: "('w, 'b, 'p) client"
  assumes "(judge_all c target force dry_run selected rows :: ('w, prune_tag list \<times> 'x prune_error, _) op) w = Some (Inr judged, w')"
  shows "\<exists>new. judged = rows @ new \<and>
    list_all2 (safeguarded target force dry_run) selected new"
  using assms
proof (induction c target force dry_run selected rows arbitrary: w rule: judge_all.induct)
  case (1 c target force dry_run rows)
  then show ?case by (simp add: op_rules)
next
  case (2 c target force dry_run tag kept selected rows)
  from "2.prems" obtain x u where x: "(judge c target tag kept force :: ('w, 'x prune_error, _) op) w = Some (Inr x, u)"
    "((case x of (v, d, in_root) \<Rightarrow>
       judge_all c target force dry_run selected (rows @ [(v, verdict_row dry_run tag v d in_root)]))
         :: ('w, prune_tag list \<times> 'x prune_error, _) op) u = Some (Inr judged, w')"
    by (auto elim!: op_bind_Some_cases op_map_err_Some_cases)
  obtain v d in_root where "x = (v, d, in_root)" by (cases x)
  with x have one: "(judge c target tag kept force :: ('w, 'x prune_error, _) op) w = Some (Inr (v, d, in_root), u)"
    "(judge_all c target force dry_run selected (rows @ [(v, verdict_row dry_run tag v d in_root)])
       :: ('w, prune_tag list \<times> 'x prune_error, _) op) u = Some (Inr judged, w')"
    by simp_all
  from "2.IH" [OF one(2)] obtain new where new:
    "judged = (rows @ [(v, verdict_row dry_run tag v d in_root)]) @ new"
    "list_all2 (safeguarded target force dry_run) selected new"
    by blast
  show ?case
    by (rule exI [of _ "(v, verdict_row dry_run tag v d in_root) # new"])
      (use new judge_verdict [OF one(1)] in \<open>auto simp: safeguarded_def\<close>)
qed

lemma delete_tag_removes:
  assumes "removal_promises c location view" "is_valid_oci_tag t" "delete_tag c (clone_with_tag location t) w = Some (r, w')"
  shows "view w' = view w \<or> view w' = (view w)(t := None)"
proof -
  have "pr_tag (clone_with_tag location t) = Some t" "pr_digest (clone_with_tag location t) = None"
    using valid_tag_plain [OF assms(2)] by (simp_all add: clone_with_tag_fields)
  then have "op_bind (t_ensure_auth c (tag_ref location t) OpDelete) (\<lambda>_. t_delete_manifest c (tag_ref location t)) w = Some (r, w')"
    using assms(2,3) by (simp add: delete_tag_def Let_def)
  then show ?thesis
  proof (cases rule: op_bind_Some_cases)
    case (err e)
    show ?thesis using auth_reads [OF assms(1) err(1)] by simp
  next
    case (ok a u)
    have "view u = view w" by (rule auth_reads [OF assms(1) ok(1)])
    moreover have "view w' = view u \<or> view w' = (view u)(t := None)"
      using assms(1,2) ok(2) unfolding removal_promises_def by blast
    ultimately show ?thesis by simp
  qed
qed

lemma confirm_gone_absent:
  assumes "removal_promises c location view" "is_valid_oci_tag t"
    "confirm_gone c (clone_with_tag location t) tries w = Some (Inr True, w')"
  shows "view w' t = None"
  using assms(3)
proof (induction tries arbitrary: w)
  case 0
  then show ?case by (simp add: op_rules)
next
  case (Suc tries)
  from Suc.prems obtain presence u where u: "probe_manifest_canonical c (clone_with_tag location t) w = Some (Inr presence, u)"
    "(case presence of ManifestAbsent _ \<Rightarrow> op_return True
       | ManifestPresent _ \<Rightarrow> confirm_gone c (clone_with_tag location t) tries) u = Some (Inr True, w')"
    by (auto elim!: op_bind_Some_cases)
  show ?case
  proof (cases presence)
    case (ManifestPresent d)
    then show ?thesis using Suc.IH u(2) by simp
  next
    case (ManifestAbsent code)
    then show ?thesis using probe_absent [OF assms(1,2)] u by (auto simp: op_rules)
  qed
qed

lemma delete_and_confirm_removes:
  assumes "removal_promises c location view" "is_valid_oci_tag t" "delete_and_confirm c location t w = Some (r, w')"
  shows "view w' = view w \<or> view w' = (view w)(t := None)"
    "r = Inr action \<Longrightarrow> view w' t = None \<and> action \<in> {Deleted, AlreadyAbsent}"
proof -
  let ?ref = "clone_with_tag location t"
  have confirm: "view b = view a" if "confirm_gone c ?ref n a = Some (x, b)" for n a x b
    using op_withinD [OF confirm_reads [OF assms(1)] that] .
  have "(view w' = view w \<or> view w' = (view w)(t := None)) \<and>
      (\<forall>action. r = Inr action \<longrightarrow> view w' t = None \<and> action \<in> {Deleted, AlreadyAbsent})"
    using assms(3) unfolding delete_and_confirm_def Let_def
  proof (cases rule: op_match_Some_cases)
    case (err e u)
    then have "w' = u" "\<forall>action. r \<noteq> Inr action" by (auto simp: op_rules split: client_error.splits)
    then show ?thesis using delete_tag_removes [OF assms(1,2) err(1)] by simp
  next
    case (ok outcome u)
    note removed = delete_tag_removes [OF assms(1,2) ok(1)]
    from ok(2) show ?thesis
    proof (cases rule: op_bind_Some_cases)
      case (err e)
      then show ?thesis using removed confirm by (auto elim!: op_map_err_Some_cases)
    next
      case ok2: (ok gone u2)
      have gone: "confirm_gone c ?ref confirm_tries u = Some (Inr gone, u2)"
        using ok2(1) by (auto elim!: op_map_err_Some_cases)
      have "w' = u2" "\<forall>action. r = Inr action \<longrightarrow> gone \<and> action \<in> {Deleted, AlreadyAbsent}"
        using ok2(2) by (auto simp: op_rules split: if_splits delete_outcome.splits)
      then show ?thesis
        using removed confirm [OF gone] confirm_gone_absent [OF assms(1,2), of confirm_tries u u2] gone by auto
    qed
  qed
  then show "view w' = view w \<or> view w' = (view w)(t := None)"
    "r = Inr action \<Longrightarrow> view w' t = None \<and> action \<in> {Deleted, AlreadyAbsent}" by blast+
qed

text \<open>
  The deletion loop: the rows it has passed are settled, the one where it stopped
  and those behind it are as they were, and only tags it was to delete are gone.
\<close>

definition row_settled :: "(string \<Rightarrow> 'd option) \<Rightarrow> prune_verdict \<times> prune_tag \<Rightarrow> prune_tag \<Rightarrow> bool" where
  "row_settled docs = (\<lambda>(v, row) row'.
     if v \<noteq> VDelete then row' = row
     else docs (pg_tag row) = None \<and> (row' = row\<lparr>pg_action := Deleted\<rparr> \<or> row' = row\<lparr>pg_action := AlreadyAbsent\<rparr>))"

definition rows_of :: "(prune_tag list \<times> 'e, prune_tag list) result \<Rightarrow> prune_tag list" where
  "rows_of r = (case r of Inr rows \<Rightarrow> rows | Inl (rows, e) \<Rightarrow> rows)"

lemma row_settled_mono:
  assumes "\<And>t. docs t = None \<Longrightarrow> docs' t = None" "row_settled docs x row"
  shows "row_settled docs' x row"
  using assms by (cases x) (auto simp: row_settled_def)

lemma delete_all_settles:
  fixes c :: "('w, 'b, 'p) client"
  assumes "removal_promises c location view" "\<forall>(v, row) \<in> set todo. is_valid_oci_tag (pg_tag row)"
    "(delete_all c location todo done :: ('w, prune_tag list \<times> 'x prune_error, _) op) w = Some (r, w')"
  shows "\<exists>settled ahead rows. todo = settled @ ahead \<and> rows_of r = done @ rows @ map snd ahead \<and>
      list_all2 (row_settled (view w')) settled rows \<and> (\<forall>x. r = Inr x \<longrightarrow> ahead = []) \<and>
      (\<forall>t. view w' t \<noteq> view w t \<longrightarrow> view w' t = None \<and> (\<exists>row. (VDelete, row) \<in> set todo \<and> pg_tag row = t))"
  using assms(2,3)
proof (induction todo arbitrary: "done" w)
  case Nil
  then show ?case by (auto simp: op_rules rows_of_def intro!: exI [of _ "[]"])
next
  case (Cons x todo)
  obtain v row where x: "x = (v, row)" by (cases x)
  have valid: "is_valid_oci_tag (pg_tag row)" "\<forall>(v, row) \<in> set todo. is_valid_oci_tag (pg_tag row)"
    using Cons.prems(1) x by auto
  show ?case
  proof (cases "v = VDelete")
    case False
    then have "(delete_all c location todo (done @ [row]) :: ('w, prune_tag list \<times> 'x prune_error, _) op) w = Some (r, w')"
      using Cons.prems(2) x by simp
    from Cons.IH [OF valid(2) this] obtain settled ahead rows where IH:
      "todo = settled @ ahead" "rows_of r = (done @ [row]) @ rows @ map snd ahead"
      "list_all2 (row_settled (view w')) settled rows" "\<forall>x. r = Inr x \<longrightarrow> ahead = []"
      "\<forall>t. view w' t \<noteq> view w t \<longrightarrow> view w' t = None \<and> (\<exists>row. (VDelete, row) \<in> set todo \<and> pg_tag row = t)"
      by blast
    have "row_settled (view w') x row" using False x by (simp add: row_settled_def)
    then show ?thesis
      using IH by (intro exI [of _ "x # settled"] exI [of _ ahead] exI [of _ "row # rows"]) (auto simp: x)
  next
    case True
    from Cons.prems(2) x True have
      "op_bind (op_map_err (\<lambda>e. (done @ row # map snd todo, e))
          (delete_and_confirm c location (pg_tag row) :: ('w, 'x prune_error, _) op))
        (\<lambda>action. delete_all c location todo (done @ [row\<lparr>pg_action := action\<rparr>])) w = Some (r, w')"
      by simp
    then show ?thesis
    proof (cases rule: op_bind_Some_cases)
      case (err e)
      then obtain e' where e': "(delete_and_confirm c location (pg_tag row) :: ('w, 'x prune_error, _) op) w = Some (Inl e', w')"
        "r = Inl (done @ row # map snd todo, e')"
        by (auto elim!: op_map_err_Some_cases)
      have "\<forall>t. view w' t \<noteq> view w t \<longrightarrow> view w' t = None \<and> t = pg_tag row"
        using delete_and_confirm_removes(1) [OF assms(1) valid(1) e'(1)] by (auto split: if_splits)
      then show ?thesis
        using e'(2) True
        by (intro exI [of _ "[]"] exI [of _ "x # todo"] exI [of _ "[]"]) (auto simp: rows_of_def x)
    next
      case (ok action u)
      then have one: "(delete_and_confirm c location (pg_tag row) :: ('w, 'x prune_error, _) op) w = Some (Inr action, u)"
        by (auto elim!: op_map_err_Some_cases)
      note here = delete_and_confirm_removes [OF assms(1) valid(1) one]
      from Cons.IH [OF valid(2) ok(2)] obtain settled ahead rows where IH:
        "todo = settled @ ahead" "rows_of r = (done @ [row\<lparr>pg_action := action\<rparr>]) @ rows @ map snd ahead"
        "list_all2 (row_settled (view w')) settled rows" "\<forall>x. r = Inr x \<longrightarrow> ahead = []"
        "\<forall>t. view w' t \<noteq> view u t \<longrightarrow> view w' t = None \<and> (\<exists>row. (VDelete, row) \<in> set todo \<and> pg_tag row = t)"
        by blast
      have "view w' (pg_tag row) = None" using here(2) IH(5) by force
      then have "row_settled (view w') x (row\<lparr>pg_action := action\<rparr>)"
        using here(2) x True by (auto simp: row_settled_def)
      moreover have "\<forall>t. view w' t \<noteq> view w t \<longrightarrow> view w' t = None \<and> (\<exists>row. (VDelete, row) \<in> set (x # todo) \<and> pg_tag row = t)"
      proof (intro allI impI)
        fix t assume "view w' t \<noteq> view w t"
        then consider "view w' t \<noteq> view u t" | "view u t \<noteq> view w t" "view w' t = view u t" by fastforce
        then show "view w' t = None \<and> (\<exists>row. (VDelete, row) \<in> set (x # todo) \<and> pg_tag row = t)"
        proof cases
          case 1
          then show ?thesis using IH(5) by auto
        next
          case 2
          then have "view u t = None \<and> t = pg_tag row" using here(1) by (auto split: if_splits)
          then show ?thesis using 2 x True by auto
        qed
      qed
      ultimately show ?thesis
        using IH(1-4) by (intro exI [of _ "x # settled"] exI [of _ ahead] exI [of _ "row\<lparr>pg_action := action\<rparr> # rows"]) auto
    qed
  qed
qed

text \<open>The rows before any deletion, finished or not.\<close>

definition row_fresh :: "prune_target \<Rightarrow> prune_tag \<Rightarrow> bool" where
  "row_fresh target row \<longleftrightarrow>
     pg_in_root row = (root_row target (pg_tag row) \<noteq> None) \<and> pg_action row \<noteq> Deleted \<and>
     (pg_action row = AlreadyAbsent \<longrightarrow> \<not> pg_in_root row)"

lemma verdict_row_fresh:
  "v \<noteq> VAbsent \<or> root_row target tag = None \<Longrightarrow> row_fresh target (verdict_row dry_run tag v d (root_row target tag \<noteq> None))"
  by (cases v) (auto simp: row_fresh_def verdict_row_def)

lemma judge_all_fresh:
  fixes c :: "('w, 'b, 'p) client"
  assumes "(judge_all c target force dry_run selected rows :: ('w, prune_tag list \<times> 'x prune_error, _) op) w = Some (r, w')"
    "\<forall>x \<in> set rows. row_fresh target (snd x)"
  shows "\<forall>row \<in> set (case r of Inr judged \<Rightarrow> map snd judged | Inl (rows, e) \<Rightarrow> rows). row_fresh target row"
  using assms
proof (induction c target force dry_run selected rows arbitrary: w rule: judge_all.induct)
  case (1 c target force dry_run rows)
  then show ?case by (auto simp: op_rules)
next
  case (2 c target force dry_run tag kept selected rows)
  from "2.prems"(1) have "op_bind (op_map_err (\<lambda>e. (map snd rows, e)) (judge c target tag kept force :: ('w, 'x prune_error, _) op))
      (\<lambda>(v, d, in_root). judge_all c target force dry_run selected (rows @ [(v, verdict_row dry_run tag v d in_root)])) w = Some (r, w')"
    by simp
  then show ?case
  proof (cases rule: op_bind_Some_cases)
    case (err e)
    then show ?thesis using "2.prems"(2) by (auto elim!: op_map_err_Some_cases)
  next
    case (ok x u)
    obtain v d in_root where x: "x = (v, d, in_root)" by (cases x)
    have one: "(judge c target tag kept force :: ('w, 'x prune_error, _) op) w = Some (Inr (v, d, in_root), u)"
      using ok(1) x by (auto elim!: op_map_err_Some_cases)
    have rows: "\<forall>x \<in> set (rows @ [(v, verdict_row dry_run tag v d in_root)]). row_fresh target (snd x)"
      using "2.prems"(2) judge_verdict(1,4) [OF one] verdict_row_fresh [of v target tag dry_run d] by auto
    show ?thesis using "2.IH" [OF _ rows] ok(2) x by simp
  qed
qed

text \<open>A run only reads, or it deletes what passed the safeguard as a whole.\<close>

lemma run_cases:
  fixes c :: "('w, 'b, 'p) client"
  assumes "removal_promises c (pt_repository target) view" "selection_valid (rq_selection request)"
    "(run c target request :: ('w, bool \<times> prune_tag list \<times> 'x prune_error, _) op) w = Some (r, w')"
  obtains (reads) "view w' = view w"
      "\<forall>row \<in> set (case r of Inr rows \<Rightarrow> rows | Inl (_, rows, e) \<Rightarrow> rows). row_fresh target row"
      "\<forall>rows. r = Inr rows \<longrightarrow> rq_dry_run request"
  | (deletes) selected judged u r0 where "view u = view w" "\<not> rq_dry_run request"
      "list_all2 (safeguarded target (rq_force request) False) selected judged"
      "\<forall>(tag, kept) \<in> set selected. is_valid_oci_tag tag \<and> selectable (rq_selection request) tag" "\<forall>(v, row) \<in> set judged. \<forall>reason. v \<noteq> VRefuse reason"
      "(delete_all c (pt_repository target) judged [] :: ('w, prune_tag list \<times> 'x prune_error, _) op) u = Some (r0, w')"
      "r = (case r0 of Inr rows \<Rightarrow> Inr rows | Inl (rows, e) \<Rightarrow> Inl (True, rows, e))"
proof (cases "pt_index target = None \<and> \<not> rq_force request")
  case True
  then have "r = Inl (False, [], NoIndex (package_ref_to_string (pt_package target)))" "w' = w"
    using assms(3) by (auto simp: run_def op_rules)
  then show ?thesis using reads by simp
next
  case False
  let ?judge = "judge_all c target (rq_force request) (rq_dry_run request)"
  let ?after = "\<lambda>judged. let rows = map snd judged; durable = refused_tags Durable rows; not_in_index = refused_tags Unindexed rows
        in if durable \<noteq> [] \<or> not_in_index \<noteq> [] then
             op_fail (True,
               map (\<lambda>r. if pg_action r \<in> {WouldDelete, AlreadyAbsent} then r\<lparr>pg_action := NotAttempted\<rparr> else r) rows,
               PruneRefused (package_ref_to_string (pt_package target))
                 (case pt_index target of Some x \<Rightarrow> xr_url x | None \<Rightarrow> []) durable not_in_index)
           else if rq_dry_run request then op_return rows
           else op_map_err (\<lambda>(rows, e). (True, rows, e)) (delete_all c (pt_repository target) judged [])"
  from assms(3) False have
    "op_bind (op_map_err (\<lambda>e. (False, [], e)) (select c target (rq_selection request) :: ('w, 'x prune_error, _) op)) (\<lambda>selected.
     op_bind (op_map_err (\<lambda>(rows, e). (True, rows, e)) (?judge selected [])) ?after) w = Some (r, w')"
    by (simp only: run_def if_False)
  then show ?thesis
  proof (cases rule: op_bind_Some_cases)
    case (err e)
    then have "view w' = view w" "\<exists>e. r = Inl (False, [], e)"
      using op_withinD [OF select_reads [OF assms(1)]] by (auto elim!: op_map_err_Some_cases)
    then show ?thesis using reads by auto
  next
    case (ok selected u1)
    have sel: "(select c target (rq_selection request) :: ('w, 'x prune_error, _) op) w = Some (Inr selected, u1)"
      using ok(1) by (auto elim!: op_map_err_Some_cases)
    have view1: "view u1 = view w" by (rule op_withinD [OF select_reads [OF assms(1)] sel])
    from ok(2) show ?thesis
    proof (cases rule: op_bind_Some_cases)
      case (err e)
      then obtain rows e' where "(?judge selected [] :: ('w, prune_tag list \<times> 'x prune_error, _) op) u1 = Some (Inl (rows, e'), w')"
        "r = Inl (True, rows, e')"
        by (auto elim!: op_map_err_Some_cases)
      then show ?thesis
        using reads view1 op_withinD [OF judge_all_reads [OF assms(1)]] judge_all_fresh by fastforce
    next
      case ok2: (ok judged u)
      have judged: "(?judge selected [] :: ('w, prune_tag list \<times> 'x prune_error, _) op) u1 = Some (Inr judged, u)"
        using ok2(1) by (auto elim!: op_map_err_Some_cases)
      have view2: "view u = view w" using op_withinD [OF judge_all_reads [OF assms(1)] judged] view1 by simp
      have fresh: "\<forall>row \<in> set (map snd judged). row_fresh target row"
        using judge_all_fresh [OF judged] by simp
      show ?thesis
      proof (cases "refused_tags Durable (map snd judged) \<noteq> [] \<or> refused_tags Unindexed (map snd judged) \<noteq> []")
        case True
        then obtain e where "r = Inl (True, map (\<lambda>r. if pg_action r \<in> {WouldDelete, AlreadyAbsent} then r\<lparr>pg_action := NotAttempted\<rparr> else r)
            (map snd judged), e)" "w' = u"
          using ok2(2) by (auto simp: Let_def op_rules)
        then show ?thesis using reads view2 fresh by (fastforce simp: row_fresh_def)
      next
        case unrefused: False
        show ?thesis
        proof (cases "rq_dry_run request")
          case True
          then have "r = Inr (map snd judged)" "w' = u" using ok2(2) unrefused by (auto simp: Let_def op_rules)
          then show ?thesis using reads view2 fresh True by simp
        next
          case wet: False
          then have "op_map_err (\<lambda>(rows, e). (True, rows, e))
              (delete_all c (pt_repository target) judged [] :: ('w, prune_tag list \<times> 'x prune_error, _) op) u = Some (r, w')"
            using ok2(2) unrefused by (simp add: Let_def)
          then obtain r0 where r0: "(delete_all c (pt_repository target) judged [] :: ('w, prune_tag list \<times> 'x prune_error, _) op) u = Some (r0, w')"
            "r = (case r0 of Inr rows \<Rightarrow> Inr rows | Inl (rows, e) \<Rightarrow> Inl (True, rows, e))"
            by (elim op_map_err_Some_cases) (auto split: prod.splits)
          have rows: "list_all2 (safeguarded target (rq_force request) False) selected judged"
            using judge_all_rows [OF judged] wet by simp
          have free: "\<forall>(v, row) \<in> set judged. \<forall>reason. v \<noteq> VRefuse reason"
          proof (clarify)
            fix reason row assume "(VRefuse reason, row) \<in> set judged"
            moreover from this obtain x where "safeguarded target (rq_force request) False x (VRefuse reason, row)"
              using list_all2_right [OF rows] by blast
            then have "reason \<in> {Durable, Unindexed}" "pg_action row = Refused" "pg_reason row = Some reason"
              by (cases x; auto simp: safeguarded_def verdict_row_def)+
            ultimately show False using unrefused by (auto simp: refused_tags_def filter_empty_conv)
          qed
          have "\<forall>(tag, kept) \<in> set selected. is_valid_oci_tag tag \<and> selectable (rq_selection request) tag" using select_valid [OF assms(1,2) sel] by blast
          then show ?thesis using deletes [OF view2 wet rows _ free r0] by blast
        qed
      qed
    qed
  qed
qed

text \<open>A refusal comes before any deletion.\<close>

lemma delete_all_error:
  fixes c :: "('w, 'b, 'p) client"
  assumes "(delete_all c location todo done :: ('w, prune_tag list \<times> 'x prune_error, _) op) w = Some (Inl (rows, e), w')"
  shows "e \<noteq> PruneRefused package url durable pending"
proof -
  have one: "e \<noteq> PruneRefused package url durable pending"
    if "(delete_and_confirm c location t :: ('w, 'x prune_error, _) op) w = Some (Inl e, w')" for t w w' e
    using that
    by (auto simp: delete_and_confirm_def Let_def op_rules split: client_error.splits if_splits
        elim!: op_match_Some_cases op_bind_Some_cases op_map_err_Some_cases)
  show ?thesis using assms
  proof (induction todo arbitrary: "done" w)
    case Nil
    then show ?case by (simp add: op_rules)
  next
    case (Cons x todo)
    obtain v row where x: "x = (v, row)" by (cases x)
    show ?case
    proof (cases "v = VDelete")
      case False
      then show ?thesis using Cons x by simp
    next
      case True
      from Cons.prems x True have
        "op_bind (op_map_err (\<lambda>e. (done @ row # map snd todo, e))
            (delete_and_confirm c location (pg_tag row) :: ('w, 'x prune_error, _) op))
          (\<lambda>action. delete_all c location todo (done @ [row\<lparr>pg_action := action\<rparr>])) w = Some (Inl (rows, e), w')"
        by simp
      then show ?thesis
      proof (cases rule: op_bind_Some_cases)
        case (err e')
        then have "(delete_and_confirm c location (pg_tag row) :: ('w, 'x prune_error, _) op) w = Some (Inl e, w')"
          by (auto elim!: op_map_err_Some_cases)
        then show ?thesis by (rule one)
      next
        case (ok action u)
        show ?thesis by (rule Cons.IH [OF ok(2)])
      qed
    qed
  qed
qed

text \<open>What a deletion run does to a row.\<close>

lemma settled_row:
  assumes "safeguarded target force False (tag, kept) (v, row)" "\<forall>reason. v \<noteq> VRefuse reason" "row_settled docs (v, row) row'"
  shows "pg_tag row' = tag" "pg_in_root row' = (root_row target tag \<noteq> None)"
    "pg_action row' = Deleted \<Longrightarrow> docs tag = None \<and> kept = None"
    "pg_action row' = AlreadyAbsent \<and> pg_in_root row' \<Longrightarrow> docs tag = None"
    "pg_action row' \<noteq> NotAttempted"
proof -
  have row: "pg_tag row = tag" "pg_in_root row = (root_row target tag \<noteq> None)"
    using assms(1) by (cases v; auto simp: safeguarded_def verdict_row_def)+
  have "pg_tag row' = tag \<and> pg_in_root row' = (root_row target tag \<noteq> None) \<and>
    (pg_action row' = Deleted \<longrightarrow> docs tag = None \<and> kept = None) \<and>
    (pg_action row' = AlreadyAbsent \<and> pg_in_root row' \<longrightarrow> docs tag = None) \<and> pg_action row' \<noteq> NotAttempted"
  proof (cases "v = VDelete")
    case True
    then show ?thesis using assms(1,3) row by (auto simp: row_settled_def safeguarded_def)
  next
    case False
    then have same: "row' = row" using assms(3) by (simp add: row_settled_def)
    obtain d where d: "row = verdict_row False tag v d (root_row target tag \<noteq> None)"
      using assms(1) by (auto simp: safeguarded_def)
    have "v = VAbsent \<Longrightarrow> root_row target tag = None" using assms(1) by (simp add: safeguarded_def)
    then show ?thesis
      unfolding same d using False assms(2) by (cases v) (simp_all add: verdict_row_def)
  qed
  then show "pg_tag row' = tag" "pg_in_root row' = (root_row target tag \<noteq> None)"
    "pg_action row' = Deleted \<Longrightarrow> docs tag = None \<and> kept = None"
    "pg_action row' = AlreadyAbsent \<and> pg_in_root row' \<Longrightarrow> docs tag = None"
    "pg_action row' \<noteq> NotAttempted" by blast+
qed

lemma unsettled_row:
  assumes "safeguarded target force False (tag, kept) (v, row)"
  shows "pg_tag row = tag" "pg_in_root row = (root_row target tag \<noteq> None)" "pg_action row \<noteq> Deleted"
    "pg_action row = AlreadyAbsent \<Longrightarrow> \<not> pg_in_root row"
  using assms by (cases v; auto simp: safeguarded_def verdict_row_def)+

text \<open>A run, seen as a whole.\<close>

lemma prune_facts:
  fixes c :: "('w, 'b, 'p) client"
  assumes "removal_promises c (pt_repository target) view" "selection_valid (rq_selection request)"
    "(prune c target request :: ('w, unit, 'x prune_run) op) w = Some (Inr out, w')"
  shows "view w' t \<noteq> view w t \<Longrightarrow> \<not> rq_dry_run request \<and> view w' t = None \<and> selectable (rq_selection request) t \<and>
      (rq_force request \<or> (\<exists>row. root_row target t = Some row \<and> rt_ephemeral row))"
    "row \<in> set (po_tags (pr_outcome out)) \<Longrightarrow> pg_action row = Deleted \<Longrightarrow> view w' (pg_tag row) = None"
    "row \<in> set (po_tags (pr_outcome out)) \<Longrightarrow> pg_in_root row = (root_row target (pg_tag row) \<noteq> None)"
    "row \<in> set (po_tags (pr_outcome out)) \<Longrightarrow> pg_in_root row \<and> pg_action row = AlreadyAbsent \<Longrightarrow> view w' (pg_tag row) = None"
proof -
  have "\<exists>r. (run c target request :: ('w, bool \<times> prune_tag list \<times> 'x prune_error, _) op) w = Some (r, w') \<and>
      po_tags (pr_outcome out) = (case r of Inr rows \<Rightarrow> rows | Inl (_, rows, e) \<Rightarrow> rows)"
    using assms(3) unfolding prune_def
    by (elim op_match_Some_cases) (auto simp: op_rules outcome_of_def split: prod.splits)
  then obtain r where r: "(run c target request :: ('w, bool \<times> prune_tag list \<times> 'x prune_error, _) op) w = Some (r, w')"
    "po_tags (pr_outcome out) = (case r of Inr rows \<Rightarrow> rows | Inl (_, rows, e) \<Rightarrow> rows)" by blast
  have "(\<forall>t. view w' t \<noteq> view w t \<longrightarrow> \<not> rq_dry_run request \<and> view w' t = None \<and> selectable (rq_selection request) t \<and>
        (rq_force request \<or> (\<exists>row. root_row target t = Some row \<and> rt_ephemeral row))) \<and>
      (\<forall>row \<in> set (po_tags (pr_outcome out)). pg_in_root row = (root_row target (pg_tag row) \<noteq> None) \<and>
        (pg_action row = Deleted \<or> pg_in_root row \<and> pg_action row = AlreadyAbsent \<longrightarrow> view w' (pg_tag row) = None))"
  proof (cases rule: run_cases [OF assms(1,2) r(1)])
    case 1
    then show ?thesis by (auto simp: r(2) row_fresh_def)
  next
    case (2 selected judged u r0)
    have right: "\<exists>tag kept. (tag, kept) \<in> set selected \<and> safeguarded target (rq_force request) False (tag, kept) (v, row)"
      if "(v, row) \<in> set judged" for v row
      using list_all2_right [OF 2(3) that] by fastforce
    have "\<forall>(v, row) \<in> set judged. is_valid_oci_tag (pg_tag row)"
      using right safeguarded_tag 2(4) by fastforce
    from delete_all_settles [OF assms(1) this 2(6)] obtain settled ahead rows where d:
      "judged = settled @ ahead" "rows_of r0 = rows @ map snd ahead" "list_all2 (row_settled (view w')) settled rows"
      "\<forall>t. view w' t \<noteq> view u t \<longrightarrow> view w' t = None \<and> (\<exists>row. (VDelete, row) \<in> set judged \<and> pg_tag row = t)"
      unfolding append_Nil by blast
    have tags: "po_tags (pr_outcome out) = rows @ map snd ahead"
      using 2(7) d(2) by (cases r0) (auto simp: r(2) rows_of_def split: prod.splits)
    have "\<not> rq_dry_run request \<and> view w' t = None \<and> selectable (rq_selection request) t \<and>
        (rq_force request \<or> (\<exists>row. root_row target t = Some row \<and> rt_ephemeral row))"
      if changed: "view w' t \<noteq> view w t" for t
    proof -
      obtain row where row: "view w' t = None" "(VDelete, row) \<in> set judged" "pg_tag row = t" using d(4) changed 2(1) by auto
      obtain tag kept where s: "(tag, kept) \<in> set selected" "safeguarded target (rq_force request) False (tag, kept) (VDelete, row)"
        using right [OF row(2)] by blast
      moreover have "selectable (rq_selection request) tag" using s(1) 2(4) by blast
      ultimately show ?thesis using row safeguarded_tag [OF s(2)] 2(2) by (auto simp: safeguarded_def)
    qed
    moreover have "pg_in_root row = (root_row target (pg_tag row) \<noteq> None) \<and>
        (pg_action row = Deleted \<or> pg_in_root row \<and> pg_action row = AlreadyAbsent \<longrightarrow> view w' (pg_tag row) = None)"
      if row: "row \<in> set (po_tags (pr_outcome out))" for row
    proof -
      consider "row \<in> set rows" | v where "(v, row) \<in> set ahead" using row tags by auto
      then show ?thesis
      proof cases
        case 1
        then obtain x where x: "x \<in> set settled" "row_settled (view w') x row" using list_all2_right [OF d(3)] by blast
        obtain v row0 where v: "x = (v, row0)" by (cases x)
        then have "(v, row0) \<in> set judged" using x(1) d(1) by simp
        then have "\<exists>tag kept. safeguarded target (rq_force request) False (tag, kept) (v, row0)" "\<forall>reason. v \<noteq> VRefuse reason"
          using right 2(5) by blast+
        then obtain tag kept where s: "safeguarded target (rq_force request) False (tag, kept) (v, row0)" "\<forall>reason. v \<noteq> VRefuse reason"
          by blast
        show ?thesis using settled_row [OF s x(2) [unfolded v]] by auto
      next
        case (2 v)
        then obtain tag kept where s: "safeguarded target (rq_force request) False (tag, kept) (v, row)"
          using right d(1) by fastforce
        show ?thesis using unsettled_row [OF s] by auto
      qed
    qed
    ultimately show ?thesis by blast
  qed
  then show "view w' t \<noteq> view w t \<Longrightarrow> \<not> rq_dry_run request \<and> view w' t = None \<and> selectable (rq_selection request) t \<and>
      (rq_force request \<or> (\<exists>row. root_row target t = Some row \<and> rt_ephemeral row))"
    "row \<in> set (po_tags (pr_outcome out)) \<Longrightarrow> pg_action row = Deleted \<Longrightarrow> view w' (pg_tag row) = None"
    "row \<in> set (po_tags (pr_outcome out)) \<Longrightarrow> pg_in_root row = (root_row target (pg_tag row) \<noteq> None)"
    "row \<in> set (po_tags (pr_outcome out)) \<Longrightarrow> pg_in_root row \<and> pg_action row = AlreadyAbsent \<Longrightarrow> view w' (pg_tag row) = None"
    by blast+
qed

lemma refused_unchanged:
  fixes c :: "('w, 'b, 'p) client"
  assumes "removal_promises c (pt_repository target) view" "selection_valid (rq_selection request)"
    "(prune c target request :: ('w, unit, 'x prune_run) op) w = Some (Inr out, w')"
    "pr_error out = Some (PruneRefused package url durable pending)"
  shows "view w' = view w"
proof -
  have "\<exists>selected rows. (run c target request :: ('w, bool \<times> prune_tag list \<times> 'x prune_error, _) op) w
      = Some (Inl (selected, rows, PruneRefused package url durable pending), w')"
    using assms(3,4) unfolding prune_def
    by (elim op_match_Some_cases) (auto simp: op_rules split: prod.splits)
  then obtain selected rows where r: "(run c target request :: ('w, bool \<times> prune_tag list \<times> 'x prune_error, _) op) w
      = Some (Inl (selected, rows, PruneRefused package url durable pending), w')" by blast
  show ?thesis
  proof (cases rule: run_cases [OF assms(1,2) r])
    case 1
    then show ?thesis by simp
  next
    case (2 selected judged u r0)
    obtain rows where "r0 = Inl (rows, PruneRefused package url durable pending)"
      using 2(7) by (cases r0) (auto split: prod.splits)
    then have "(delete_all c (pt_repository target) judged [] :: ('w, prune_tag list \<times> 'x prune_error, _) op) u
        = Some (Inl (rows, PruneRefused package url durable pending), w')"
      using 2(6) by simp
    from delete_all_error [OF this, of package url durable pending] show ?thesis by simp
  qed
qed

lemma keep_tag_internal: "starts_with keep_tag_prefix t \<Longrightarrow> is_internal_namespace t"
proof -
  assume "starts_with keep_tag_prefix t"
  then obtain r where "t = keep_tag_prefix @ r"
    by (auto simp: starts_with_def strip_prefix_Some_iff)
  moreover have "take (length reserved_internal_prefix) (keep_tag_prefix @ r) = ''__ocx''"
    by (simp add: reserved_internal_prefix_def keep_tag_prefix_def)
  ultimately show ?thesis
    by (simp add: is_internal_namespace_def eq_ignore_ascii_case_def reserved_internal_prefix_def keep_tag_prefix_def)
qed

lemma parse_prune_tag_iff:
  "parse_prune_tag value = Inr t \<longleftrightarrow> t = value \<and> is_valid_oci_tag value \<and> \<not> starts_with keep_tag_prefix value"
proof -
  have "\<not> is_ascii_alphanumeric CHR '':''" "\<not> is_ascii_alphanumeric CHR ''@''" by code_simp+
  then have "CHR '':'' \<notin> set value \<and> CHR ''@'' \<notin> set value" if "is_valid_oci_tag value"
    using that by (cases "value") (auto simp: is_valid_oci_tag_def list_all_iff)
  then show ?thesis by (auto simp: parse_prune_tag_def)
qed

text \<open>A request as the command line builds it: every named tag went through \<open>parse_tag\<close>.\<close>

definition request_parsed :: "prune_request \<Rightarrow> bool" where
  "request_parsed request =
     (case rq_selection request of
        SelectTags tags \<Rightarrow> list_all (\<lambda>t. parse_prune_tag t = (Inr t :: (unit prune_error, string) result)) tags
      | SelectPrerelease pre _ \<Rightarrow> True)"

lemma request_parsed_valid: "request_parsed request \<Longrightarrow> selection_valid (rq_selection request)"
  by (auto simp: request_parsed_def selection_valid_def parse_prune_tag_iff list_all_iff split: prune_selection.splits)

lemma request_parsed_keep:
  assumes "request_parsed request" "selectable (rq_selection request) t"
  shows "\<not> starts_with keep_tag_prefix t"
  using assms keep_tag_internal [of t] internal_not_version [of t]
  by (auto simp: request_parsed_def selectable_def parse_prune_tag_iff list_all_iff split: prune_selection.splits)

subsection \<open>An in-memory registry that deletes\<close>

definition prune_memory :: "((string \<times> 'p manifest) list, 'p manifest, 'p) client" where
  "prune_memory = memory_client
     \<lparr>t_list_tags := (\<lambda>_ n cursor w.
        Some (Inr (take n (filter (\<lambda>t. case cursor of Some x \<Rightarrow> x < t | None \<Rightarrow> True)
                    (filter is_valid_oci_tag (bs_collect (map fst w))))), w))\<rparr>"

lemma prune_memory_promises: "removal_promises prune_memory location map_of"
proof -
  have reads: "op_within (\<lambda>w w'. map_of w' = map_of w) (t_ensure_auth prune_memory ref operation)"
    "op_within (\<lambda>w w'. map_of w' = map_of w) (t_list_tags prune_memory ref n cursor)"
    "op_within (\<lambda>w w'. map_of w' = map_of w) (t_probe_manifest prune_memory ref)" for ref operation n cursor
    by (simp_all add: prune_memory_def memory_client_def op_within_def)
  have listed: "list_all is_valid_oci_tag page" if "t_list_tags prune_memory ref n cursor w = Some (Inr page, w')" for ref n cursor w page w'
    using that by (auto simp: prune_memory_def memory_client_def list_all_iff dest!: in_set_takeD)
  have absent: "map_of w t = None"
    if "is_valid_oci_tag t" "t_probe_manifest prune_memory (tag_ref location t) w = Some (Inr (ManifestAbsent code), w')" for t w code w'
    using that valid_tag_plain [OF that(1)]
    by (auto simp: prune_memory_def memory_client_def memory_read_def tag_ref_tag split: option.splits sum.splits)
  have removed: "map_of w' = (map_of w)(t := None)"
    if "is_valid_oci_tag t" "t_delete_manifest prune_memory (tag_ref location t) w = Some (r, w')" for t w r w'
  proof -
    have "w' = filter (\<lambda>(u, _). u \<noteq> t) w"
      using that valid_tag_plain [OF that(1)] by (auto simp: prune_memory_def memory_client_def tag_ref_tag)
    moreover have "map_of (filter (\<lambda>(u, _). u \<noteq> t) w) = (map_of w)(t := None)"
      by (induction w) (auto simp: fun_eq_iff)
    ultimately show ?thesis by simp
  qed
  show ?thesis unfolding removal_promises_def using reads listed absent removed by blast
qed

text \<open>A package whose index marks one build of a pre-release ephemeral.\<close>

definition prune_example_target :: prune_target where
  "prune_example_target =
     \<lparr>pt_package = new_registry ''tool'' ''example.com'', pt_repository = new_registry ''tool'' ''example.com'',
      pt_index = Some \<lparr>xr_url = ''https://index'', xr_root_sha256 = Digest Sha256 [],
        xr_root = \<lparr>ir_repository = ''oci://example.com/tool'',
          ir_tags = [(''1.0.0-rc_1'', \<lparr>rt_content = Digest Sha256 [], rt_yanked = None, rt_ephemeral = True\<rparr>),
                     (''latest'', \<lparr>rt_content = Digest Sha256 [], rt_yanked = None, rt_ephemeral = False\<rparr>)],
          ir_status = None, ir_deprecated_message = None, ir_superseded_by = None\<rparr>\<rparr>\<rparr>"

definition prune_example_world :: "(string \<times> string manifest) list" where
  "prune_example_world =
     [(''1.0.0-rc_1'', ImageIndex (fresh_index [])), (''latest'', ImageIndex (fresh_index []))]"

definition prune_example_request :: prune_request where
  "prune_example_request = \<lparr>rq_selection = SelectTags [''1.0.0-rc_1''], rq_force = False, rq_dry_run = False\<rparr>"

lemma prune_example_run:
  obtains out w' where
    "(prune prune_memory prune_example_target prune_example_request :: ((string \<times> string manifest) list, unit, string prune_run) op)
       prune_example_world = Some (Inr out, w')"
    "map pg_action (po_tags (pr_outcome out)) = [Deleted]" "tags_file_entries (pr_outcome out) = Some [''1.0.0-rc_1'']"
    "w' = tl prune_example_world"
proof -
  have "case (prune prune_memory prune_example_target prune_example_request :: ((string \<times> string manifest) list, unit, string prune_run) op)
       prune_example_world of
      Some (Inr out, w') \<Rightarrow> map pg_action (po_tags (pr_outcome out)) = [Deleted] \<and>
        tags_file_entries (pr_outcome out) = Some [''1.0.0-rc_1''] \<and> w' = tl prune_example_world
    | _ \<Rightarrow> False"
    by code_simp
  then show ?thesis by (rule op_result_ok) (elim conjE, rule that)
qed

subsection \<open>Properties\<close>

text \<open>
  C20: A prune only ever removes tags it may remove, however the run ends. A tag
  that changed is gone, was selected, is no keep tag, and the published index
  marks it ephemeral unless the run was forced; a dry run and a refused run
  change nothing; and a tag the report calls deleted is gone from the registry.
\<close>

theorem prune_safe:
  fixes c :: "('w, 'b, 'p) client"
  assumes "removal_promises c (pt_repository target) view" "request_parsed request"
    "(prune c target request :: ('w, unit, 'x prune_run) op) w = Some (Inr out, w')"
  shows "(\<forall>t. view w' t \<noteq> view w t \<longrightarrow>
        view w' t = None \<and> selectable (rq_selection request) t \<and> \<not> starts_with keep_tag_prefix t \<and> \<not> rq_dry_run request \<and>
        (rq_force request \<or> (\<exists>row. root_row target t = Some row \<and> rt_ephemeral row))) \<and>
    (\<forall>package url durable pending. pr_error out = Some (PruneRefused package url durable pending) \<longrightarrow> view w' = view w) \<and>
    (\<forall>row \<in> set (po_tags (pr_outcome out)). pg_action row = Deleted \<longrightarrow> view w' (pg_tag row) = None)"
  using prune_facts(1,2) [OF assms(1) request_parsed_valid [OF assms(2)] assms(3)]
    refused_unchanged [OF assms(1) request_parsed_valid [OF assms(2)] assms(3)] request_parsed_keep [OF assms(2)]
  by (metis (no_types, lifting))

theorem prune_safe_witness:
  "\<exists>out w'. (prune prune_memory prune_example_target prune_example_request :: ((string \<times> string manifest) list, unit, string prune_run) op)
     prune_example_world = Some (Inr out, w') \<and>
   map_of w' ''1.0.0-rc_1'' = None \<and> map_of w' ''latest'' = map_of prune_example_world ''latest''"
proof -
  obtain out w' where run:
    "(prune prune_memory prune_example_target prune_example_request :: ((string \<times> string manifest) list, unit, string prune_run) op)
       prune_example_world = Some (Inr out, w')" "w' = tl prune_example_world"
    by (rule prune_example_run)
  have parsed: "request_parsed prune_example_request" by code_simp
  have "\<not> selectable (rq_selection prune_example_request) ''latest''"
    "map_of (tl prune_example_world) ''1.0.0-rc_1'' \<noteq> map_of prune_example_world ''1.0.0-rc_1''"
    by (simp_all add: selectable_def prune_example_request_def prune_example_world_def)
  then show ?thesis
    using prune_safe [OF prune_memory_promises parsed run(1)] run by blast
qed

text \<open>
  C21: The tags file of a prune lists only tags that the published index lists and
  that are gone from the registry, so announcing it never removes the row of a
  tag that is still served.
\<close>

theorem tags_file_gone:
  fixes c :: "('w, 'b, 'p) client"
  assumes "removal_promises c (pt_repository target) view" "request_parsed request"
    "(prune c target request :: ('w, unit, 'x prune_run) op) w = Some (Inr out, w')"
    "tags_file_entries (pr_outcome out) = Some tags" "t \<in> set tags"
  shows "root_row target t \<noteq> None \<and> view w' t = None"
proof -
  obtain row where row: "row \<in> set (po_tags (pr_outcome out))" "pg_in_root row" "pg_action row \<in> {Deleted, AlreadyAbsent}" "t = pg_tag row"
    using assms(4,5) by (auto simp: tags_file_entries_def split: if_splits)
  note facts = prune_facts [OF assms(1) request_parsed_valid [OF assms(2)] assms(3)]
  show ?thesis
    using facts(2-4) [OF row(1)] row(2-4) by auto
qed

theorem tags_file_gone_witness:
  "\<exists>out w'. (prune prune_memory prune_example_target prune_example_request :: ((string \<times> string manifest) list, unit, string prune_run) op)
     prune_example_world = Some (Inr out, w') \<and>
   tags_file_entries (pr_outcome out) = Some [''1.0.0-rc_1''] \<and> map_of w' ''1.0.0-rc_1'' = None"
proof -
  obtain out w' where run:
    "(prune prune_memory prune_example_target prune_example_request :: ((string \<times> string manifest) list, unit, string prune_run) op)
       prune_example_world = Some (Inr out, w')" "tags_file_entries (pr_outcome out) = Some [''1.0.0-rc_1'']"
    by (rule prune_example_run)
  have parsed: "request_parsed prune_example_request" by code_simp
  show ?thesis
    using tags_file_gone [OF prune_memory_promises parsed run] run by auto
qed

text \<open>The tags of a listing that are builds of a pre-release.\<close>

definition family_builds :: "version \<Rightarrow> string list \<Rightarrow> (version \<times> string) list" where
  "family_builds pre listing =
     List.map_filter (\<lambda>t. case parse_version t of
        Some v \<Rightarrow> (if has_build v \<and> parent v = Some pre then Some (v, t) else None) | None \<Rightarrow> None) listing"

lemma parent_not_self: "parent v = Some p \<Longrightarrow> v \<noteq> p"
  using parent_greater by blast

lemma family_tags_builds: "fst (family_tags pre listing (builds, rolling)) = builds @ family_builds pre listing"
  by (induction pre listing "(builds, rolling)" arbitrary: builds rolling rule: family_tags.induct)
    (auto simp: family_builds_def map_filter_simps dest: parent_not_self split: option.splits if_splits)

lemma family_tags_rolling:
  "snd (family_tags pre listing (builds, rolling)) =
     (case rev (filter (\<lambda>t. parse_version t = Some pre) listing) of t # _ \<Rightarrow> Some t | [] \<Rightarrow> rolling)"
  by (induction pre listing "(builds, rolling)" arbitrary: builds rolling rule: family_tags.induct)
    (auto dest: parent_not_self split: option.splits if_splits list.splits)

lemma map_enumerate_split:
  "map (\<lambda>(i, x). if m \<le> i then f x else g x) (enumerate j xs) = map g (take (m - j) xs) @ map f (drop (m - j) xs)"
proof (induction xs arbitrary: j)
  case (Cons x xs)
  then show ?case by (cases "m \<le> j") (auto simp: Suc_diff_Suc [symmetric] not_le)
qed simp

lemma select_family_keep:
  "select_family pre (Some n) listing =
     (let builds = sort_key fst (family_builds pre listing); old = length builds - unat n
      in map (\<lambda>(_, t). (t, None)) (take old builds) @ map (\<lambda>(_, t). (t, Some Newest)) (drop old builds)
         @ (case rev (filter (\<lambda>t. parse_version t = Some pre) listing) of t # _ \<Rightarrow> [(t, Some Rolling)] | [] \<Rightarrow> []))"
proof -
  have *: "(\<lambda>(i, (_ :: version, t :: string)). (t, if m \<le> i then Some Newest else None))
      = (\<lambda>(i, x). if m \<le> i then (\<lambda>(_, t). (t, Some Newest)) x else (\<lambda>(_, t). (t, None)) x)" for m :: nat
    by auto
  obtain found rolling where found: "family_tags pre listing ([], None) = (found, rolling)" by fastforce
  have "found = family_builds pre listing"
    using family_tags_builds [of pre listing "[]" None] found by simp
  moreover have "rolling = (case rev (filter (\<lambda>t. parse_version t = Some pre) listing) of t # _ \<Rightarrow> Some t | [] \<Rightarrow> None)"
    using family_tags_rolling [of pre listing "[]" None] found by simp
  ultimately show ?thesis
    unfolding select_family_def found prod.case Let_def * map_enumerate_split
    by (simp split: list.split)
qed

text \<open>
  C22: Pruning a pre-release with \<open>--keep-builds n\<close> goes through the builds of the
  pre-release from oldest to newest, keeps exactly the newest \<open>n\<close> of them (all of
  them when there are fewer), and comes to the rolling tag last, which it keeps.
\<close>

theorem prune_keeps_newest:
  fixes pre :: version and n :: u32 and listing :: "string list"
  defines "builds \<equiv> sort_key fst (family_builds pre listing)" and "kept \<equiv> min (unat n) (length (family_builds pre listing))"
  shows "\<exists>old newest rolling. builds = old @ newest \<and> length newest = kept \<and>
    (\<forall>x \<in> set old. \<forall>y \<in> set newest. fst x \<le> fst y) \<and>
    select_family pre (Some n) listing =
      map (\<lambda>(_, t). (t, None)) old @ map (\<lambda>(_, t). (t, Some Newest)) newest @ map (\<lambda>t. (t, Some Rolling)) rolling \<and>
    length rolling = (if \<exists>t \<in> set listing. parse_version t = Some pre then 1 else 0) \<and>
    (\<forall>t \<in> set rolling. t \<in> set listing \<and> parse_version t = Some pre)"
proof -
  let ?named = "filter (\<lambda>t. parse_version t = Some pre) listing"
  let ?rolling = "case rev ?named of t # _ \<Rightarrow> [t] | [] \<Rightarrow> []"
  let ?old = "length builds - unat n"
  have named: "set (rev ?named) = {t \<in> set listing. parse_version t = Some pre}" by simp
  have 1: "length ?rolling = (if \<exists>t \<in> set listing. parse_version t = Some pre then 1 else 0)"
    "\<forall>t \<in> set ?rolling. t \<in> set listing \<and> parse_version t = Some pre"
    using named by (cases "rev ?named"; auto)+
  have "sorted (map fst (take ?old builds @ drop ?old builds))" by (simp add: builds_def)
  then have 2: "\<forall>x \<in> set (take ?old builds). \<forall>y \<in> set (drop ?old builds). fst x \<le> fst y"
    by (auto simp: sorted_append simp del: append_take_drop_id)
  have 3: "length (drop ?old builds) = kept" by (simp add: builds_def kept_def min_def)
  have 4: "select_family pre (Some n) listing = map (\<lambda>(_, t). (t, None)) (take ?old builds)
      @ map (\<lambda>(_, t). (t, Some Newest)) (drop ?old builds) @ map (\<lambda>t. (t, Some Rolling)) ?rolling"
    by (simp add: select_family_keep builds_def Let_def split: list.split)
  show ?thesis using 1 2 3 4 by (metis append_take_drop_id)
qed

theorem prune_keeps_newest_witness:
  "select_family (new_prerelease 1 0 0 ''rc'') (Some 1) [''1.0.0-rc'', ''1.0.0-rc_2'', ''1.0.0-rc_1'', ''latest'']
     = [(''1.0.0-rc_1'', None), (''1.0.0-rc_2'', Some Newest), (''1.0.0-rc'', Some Rolling)]"
proof -
  let ?pre = "new_prerelease 1 0 0 ''rc''" and ?listing = "[''1.0.0-rc'', ''1.0.0-rc_2'', ''1.0.0-rc_1'', ''latest'']"
  have builds: "map snd (sort_key fst (family_builds ?pre ?listing)) = [''1.0.0-rc_1'', ''1.0.0-rc_2'']" by code_simp
  then have "length (map snd (sort_key fst (family_builds ?pre ?listing))) = 2" by simp
  then have kept: "min (unat (1 :: u32)) (length (family_builds ?pre ?listing)) = 1" by simp
  have named: "filter (\<lambda>t. parse_version t = Some ?pre) ?listing = [''1.0.0-rc'']" by code_simp
  then have in_listing: "t \<in> set ?listing \<and> parse_version t = Some ?pre \<longleftrightarrow> t = ''1.0.0-rc''" for t
    using filter_set [of "\<lambda>t. parse_version t = Some ?pre" ?listing] by (auto simp: set_eq_iff)
  obtain old newest rolling where *: "sort_key fst (family_builds ?pre ?listing) = old @ newest" "length newest = 1"
    "select_family ?pre (Some 1) ?listing =
      map (\<lambda>(_, t). (t, None)) old @ map (\<lambda>(_, t). (t, Some Newest)) newest @ map (\<lambda>t. (t, Some Rolling)) rolling"
    "length rolling = (if \<exists>t \<in> set ?listing. parse_version t = Some ?pre then 1 else 0)"
    "\<forall>t \<in> set rolling. t \<in> set ?listing \<and> parse_version t = Some ?pre"
    using prune_keeps_newest [of ?pre ?listing 1, unfolded kept] by metis
  have "\<exists>t \<in> set ?listing. parse_version t = Some ?pre"
    using in_listing [of "''1.0.0-rc''"] by (intro bexI [of _ "''1.0.0-rc''"]) (simp_all only: simp_thms)
  then have "length rolling = 1" using *(4) by (simp only: if_True)
  then obtain t where t: "rolling = [t]" by (auto simp: length_Suc_conv)
  then have "t \<in> set ?listing \<and> parse_version t = Some ?pre" using *(5) by (simp only: list.set ball_simps simp_thms)
  then have rolling: "rolling = [''1.0.0-rc'']" using t by (simp only: in_listing)
  obtain y where newest: "newest = [y]" using *(2) by (auto simp: length_Suc_conv)
  then have "map snd old @ [snd y] = [''1.0.0-rc_1'', ''1.0.0-rc_2'']" using builds *(1) by simp
  then have "map snd old = [''1.0.0-rc_1'']" "snd y = ''1.0.0-rc_2''" by (auto simp: append_eq_Cons_conv)
  then show ?thesis using *(3) rolling newest by (auto simp: map_eq_Cons_conv split_beta)
qed

end
