(* ===== verification/Ocx_Disk.thy ===== *)
theory Ocx_Disk
  imports Ocx_Effects Ocx_Collections "HOL-Library.Sublist"
begin

section \<open>The local disk\<close>

text \<open>
  The file system as \<open>std::fs\<close> (and \<open>tokio::fs\<close>, its asynchronous twin) shows it
  on Unix: a tree of directories, files and symbolic links, some directories of
  which this process may not open. On it the helpers of
  \<open>crates/ocx_util/src/fs\<close>: the symlink primitives of \<open>symlink.rs\<close>, the
  existence probe of \<open>fs.rs\<close>, the identity check of \<open>same_dir.rs\<close> and the
  directory walker of \<open>dir_walker.rs\<close>.

  A path is absolute and given by its components, which are names (no \<open>.\<close> and
  no \<open>..\<close>), so the order of \<open>PathBuf\<close> is the lexicographic one; a link stores
  such a path, as every link OCX writes does. A directory that may not be opened
  can neither be listed nor searched.
\<close>

type_synonym path = "string list"

datatype node = DirNode | FileNode string | LinkNode path

record disk =
  nodes :: "(path, node) btree_map"
  denied :: "path list"

datatype io_error =
    IoNotFound
  | IoAlreadyExists
  | IoDenied
  | IoLoop
  | IoNotADirectory
  | IoIsADirectory
  | IoInvalidInput

text \<open>\<open>ocx_util::error::FileError\<close>\<close>

datatype file_error = FileError path io_error

subsection \<open>Looking up paths\<close>

definition node_at :: "disk \<Rightarrow> path \<Rightarrow> node option" where
  "node_at d p = (if p = [] then Some DirNode else bt_get (nodes d) p)"

text \<open>The number of links the kernel follows before it gives up with \<open>ELOOP\<close>.\<close>

definition max_links :: nat where
  "max_links = 40"

function resolve :: "disk \<Rightarrow> nat \<Rightarrow> path \<Rightarrow> path \<Rightarrow> (io_error, path) result" where
  "resolve d links here [] = Inr here"
| "resolve d links here (name # names) =
     (if here \<in> set (denied d) then Inl IoDenied
      else case node_at d (here @ [name]) of
        None \<Rightarrow> Inl IoNotFound
      | Some DirNode \<Rightarrow> resolve d links (here @ [name]) names
      | Some (FileNode _) \<Rightarrow> (if names = [] then Inr (here @ [name]) else Inl IoNotADirectory)
      | Some (LinkNode target) \<Rightarrow>
          (case links of 0 \<Rightarrow> Inl IoLoop | Suc n \<Rightarrow> resolve d n [] (target @ names)))"
  by pat_completeness auto
termination
  by (relation "measures [\<lambda>(d, links, here, names). links, \<lambda>(d, links, here, names). length names]") auto

text \<open>\<open>dunce::canonicalize\<close>, which is \<open>std::fs::canonicalize\<close> on Unix.\<close>

definition canonicalize :: "disk \<Rightarrow> path \<Rightarrow> (io_error, path) result" where
  "canonicalize d p = resolve d max_links [] p"

text \<open>Where an operation acts that does not follow a link at the end of its path.\<close>

definition place :: "disk \<Rightarrow> path \<Rightarrow> (io_error, path) result" where
  "place d p =
     (if p = [] then Inr []
      else case canonicalize d (butlast p) of
        Inl e \<Rightarrow> Inl e
      | Inr q \<Rightarrow>
          (if node_at d q \<noteq> Some DirNode then Inl IoNotADirectory
           else if q \<in> set (denied d) then Inl IoDenied
           else Inr (q @ [last p])))"

definition symlink_metadata :: "disk \<Rightarrow> path \<Rightarrow> (io_error, node) result" where
  "symlink_metadata d p =
     (case place d p of
        Inl e \<Rightarrow> Inl e
      | Inr q \<Rightarrow> (case node_at d q of Some n \<Rightarrow> Inr n | None \<Rightarrow> Inl IoNotFound))"

definition metadata :: "disk \<Rightarrow> path \<Rightarrow> (io_error, node) result" where
  "metadata d p =
     (case canonicalize d p of
        Inl e \<Rightarrow> Inl e
      | Inr q \<Rightarrow> (case node_at d q of Some n \<Rightarrow> Inr n | None \<Rightarrow> Inl IoNotFound))"

definition read_link :: "disk \<Rightarrow> path \<Rightarrow> (io_error, path) result" where
  "read_link d p =
     (case symlink_metadata d p of
        Inl e \<Rightarrow> Inl e
      | Inr (LinkNode target) \<Rightarrow> Inr target
      | Inr _ \<Rightarrow> Inl IoInvalidInput)"

definition path_exists :: "disk \<Rightarrow> path \<Rightarrow> bool" where
  "path_exists d p = (case metadata d p of Inr _ \<Rightarrow> True | Inl _ \<Rightarrow> False)"

definition try_exists :: "disk \<Rightarrow> path \<Rightarrow> (io_error, bool) result" where
  "try_exists d p =
     (case metadata d p of Inr _ \<Rightarrow> Inr True | Inl IoNotFound \<Rightarrow> Inr False | Inl e \<Rightarrow> Inl e)"

definition is_dir :: "disk \<Rightarrow> path \<Rightarrow> bool" where
  "is_dir d p \<longleftrightarrow> metadata d p = Inr DirNode"

definition is_file :: "disk \<Rightarrow> path \<Rightarrow> bool" where
  "is_file d p = (case metadata d p of Inr (FileNode _) \<Rightarrow> True | _ \<Rightarrow> False)"

definition read_file :: "disk \<Rightarrow> path \<Rightarrow> (io_error, string) result" where
  "read_file d p =
     (case metadata d p of
        Inl e \<Rightarrow> Inl e | Inr (FileNode bytes) \<Rightarrow> Inr bytes | Inr DirNode \<Rightarrow> Inl IoIsADirectory | Inr (LinkNode _) \<Rightarrow> Inl IoLoop)"

text \<open>The names in a directory; the order in which a listing gives them is not specified, here it is ascending.\<close>

definition entry_names :: "disk \<Rightarrow> path \<Rightarrow> string list" where
  "entry_names d q = map last (filter (\<lambda>k. k \<noteq> [] \<and> butlast k = q) (bt_keys (nodes d)))"

definition read_dir :: "disk \<Rightarrow> path \<Rightarrow> (io_error, string list) result" where
  "read_dir d p =
     (case canonicalize d p of
        Inl e \<Rightarrow> Inl e
      | Inr q \<Rightarrow>
          (if node_at d q \<noteq> Some DirNode then Inl IoNotADirectory
           else if q \<in> set (denied d) then Inl IoDenied
           else Inr (entry_names d q)))"

definition parent_path :: "path \<Rightarrow> path option" where
  "parent_path p = (if p = [] then None else Some (butlast p))"

subsection \<open>Changing the disk\<close>

definition put_node :: "path \<Rightarrow> node \<Rightarrow> disk \<Rightarrow> disk" where
  "put_node q n d = d\<lparr>nodes := bt_insert q n (nodes d)\<rparr>"

definition drop_nodes :: "(path \<Rightarrow> bool) \<Rightarrow> disk \<Rightarrow> disk" where
  "drop_nodes gone d = d\<lparr>nodes := filter (\<lambda>(k, _). \<not> gone k) (nodes d)\<rparr>"

text \<open>A system call that changes the disk as a whole or not at all.\<close>

definition syscall :: "(disk \<Rightarrow> (io_error, disk) result) \<Rightarrow> (disk, io_error, unit) op" where
  "syscall f = (\<lambda>d. case f d of Inl e \<Rightarrow> Some (Inl e, d) | Inr d' \<Rightarrow> Some (Inr (), d'))"

definition symlink :: "path \<Rightarrow> path \<Rightarrow> disk \<Rightarrow> (io_error, disk) result" where
  "symlink target link d =
     (case place d link of
        Inl e \<Rightarrow> Inl e
      | Inr q \<Rightarrow> (if node_at d q \<noteq> None then Inl IoAlreadyExists else Inr (put_node q (LinkNode target) d)))"

definition remove_file :: "path \<Rightarrow> disk \<Rightarrow> (io_error, disk) result" where
  "remove_file p d =
     (case place d p of
        Inl e \<Rightarrow> Inl e
      | Inr q \<Rightarrow>
          (case node_at d q of
             None \<Rightarrow> Inl IoNotFound
           | Some DirNode \<Rightarrow> Inl IoIsADirectory
           | Some _ \<Rightarrow> Inr (drop_nodes (\<lambda>k. k = q) d)))"

text \<open>The rename of a link or a file.\<close>

definition rename :: "path \<Rightarrow> path \<Rightarrow> disk \<Rightarrow> (io_error, disk) result" where
  "rename from to d =
     (case place d from of
        Inl e \<Rightarrow> Inl e
      | Inr q \<Rightarrow>
          (case place d to of
             Inl e \<Rightarrow> Inl e
           | Inr r \<Rightarrow>
               (case node_at d q of
                  None \<Rightarrow> Inl IoNotFound
                | Some n \<Rightarrow>
                    (if node_at d r = Some DirNode then Inl IoIsADirectory
                     else if q = r then Inr d
                     else Inr (put_node r n (drop_nodes (\<lambda>k. k = q) d))))))"

text \<open>
  A removal that would meet a directory it may not open fails; what it has
  removed by then is not modelled.
\<close>

definition remove_dir_all :: "path \<Rightarrow> disk \<Rightarrow> (io_error, disk) result" where
  "remove_dir_all p d =
     (case place d p of
        Inl e \<Rightarrow> Inl e
      | Inr q \<Rightarrow>
          (case node_at d q of
             None \<Rightarrow> Inl IoNotFound
           | Some (FileNode _) \<Rightarrow> Inl IoNotADirectory
           | Some (LinkNode _) \<Rightarrow> Inr (drop_nodes (\<lambda>k. k = q) d)
           | Some DirNode \<Rightarrow>
               (if list_ex (prefix q) (denied d) then Inl IoDenied else Inr (drop_nodes (prefix q) d))))"

fun make_dirs :: "path \<Rightarrow> path \<Rightarrow> (disk, io_error, unit) op" where
  "make_dirs here [] d = Some (Inr (), d)"
| "make_dirs here (name # names) d =
     (if here \<in> set (denied d) then Some (Inl IoDenied, d)
      else case node_at d (here @ [name]) of
        None \<Rightarrow> make_dirs (here @ [name]) names (put_node (here @ [name]) DirNode d)
      | Some DirNode \<Rightarrow> make_dirs (here @ [name]) names d
      | Some (FileNode _) \<Rightarrow> Some (Inl IoAlreadyExists, d)
      | Some (LinkNode _) \<Rightarrow>
          (case canonicalize d (here @ [name]) of
             Inl _ \<Rightarrow> Some (Inl IoAlreadyExists, d)
           | Inr q \<Rightarrow>
               (if node_at d q = Some DirNode then make_dirs q names d else Some (Inl IoAlreadyExists, d))))"

definition create_dir_all :: "path \<Rightarrow> (disk, io_error, unit) op" where
  "create_dir_all p = make_dirs [] p"

subsection \<open>Probes and symlinks of the program\<close>

text \<open>\<open>ocx_util::fs::path_exists_lossy\<close> and \<open>same_dir\<close>\<close>

definition path_exists_lossy :: "disk \<Rightarrow> path \<Rightarrow> bool" where
  "path_exists_lossy d p = (case try_exists d p of Inr exists \<Rightarrow> exists | Inl _ \<Rightarrow> False)"

definition same_dir :: "disk \<Rightarrow> path \<Rightarrow> path \<Rightarrow> (io_error, bool) result" where
  "same_dir d a b =
     (case canonicalize d a of
        Inl e \<Rightarrow> Inl e
      | Inr p \<Rightarrow> (case canonicalize d b of Inl e \<Rightarrow> Inl e | Inr q \<Rightarrow> Inr (p = q)))"

definition is_link :: "disk \<Rightarrow> path \<Rightarrow> bool" where
  "is_link d p = (case symlink_metadata d p of Inr (LinkNode _) \<Rightarrow> True | _ \<Rightarrow> False)"

definition symlink_remove :: "path \<Rightarrow> (disk, file_error, unit) op" where
  "symlink_remove link = (\<lambda>d.
     if path_exists d link \<or> is_link d link
     then op_map_err (FileError link) (syscall (remove_file link)) d
     else Some (Inr (), d))"

definition symlink_create :: "path \<Rightarrow> path \<Rightarrow> (disk, file_error, unit) op" where
  "symlink_create target link =
     op_bind
       (case parent_path link of
          Some parent \<Rightarrow> op_map_err (FileError parent) (create_dir_all parent)
        | None \<Rightarrow> op_return ()) (\<lambda>_.
     op_map_err (FileError link) (syscall (symlink target link)))"

definition symlink_update :: "path \<Rightarrow> path \<Rightarrow> (disk, file_error, unit) op" where
  "symlink_update target link = (\<lambda>d.
     if path_exists d link \<or> is_link d link then
       (case read_link d link of
          Inl e \<Rightarrow> Some (Inl (FileError link e), d)
        | Inr resolved \<Rightarrow>
            (if resolved = target then Some (Inr (), d)
             else op_bind (symlink_remove link) (\<lambda>_. symlink_create target link) d))
     else symlink_create target link d)"

text \<open>
  \<open>replace_atomic\<close>, with the name of the staging link, which the code makes up
  from the process id, a counter and the clock.
\<close>

definition replace_atomic :: "string \<Rightarrow> path \<Rightarrow> path \<Rightarrow> (disk, file_error, unit) op" where
  "replace_atomic temp_link_name target link =
     (let parent = (case parent_path link of Some p \<Rightarrow> p | None \<Rightarrow> []); temp = parent @ [temp_link_name]
      in op_bind (op_map_err (FileError parent) (create_dir_all parent)) (\<lambda>_.
         op_bind (\<lambda>d. if is_link d temp \<or> path_exists d temp
                      then op_match (syscall (remove_file temp)) (\<lambda>_. op_return ()) (\<lambda>_. op_return ()) d
                      else Some (Inr (), d)) (\<lambda>_.
         op_bind (op_map_err (FileError temp) (syscall (symlink target temp))) (\<lambda>_.
         op_match (syscall (rename temp link)) op_return (\<lambda>e.
           op_match (syscall (remove_file temp)) (\<lambda>_. op_fail (FileError link e)) (\<lambda>_. op_fail (FileError link e)))))))"

subsection \<open>The directory walker\<close>

record 'a walk_decision =
  wd_items :: "'a list"
  wd_descend :: bool
  wd_skip_names :: "string list"

definition walk_leaf :: "'a \<Rightarrow> 'a walk_decision" where
  "walk_leaf item = \<lparr>wd_items = [item], wd_descend = False, wd_skip_names = []\<rparr>"

definition walk_descend :: "'a walk_decision" where
  "walk_descend = \<lparr>wd_items = [], wd_descend = True, wd_skip_names = []\<rparr>"

definition walk_descend_skip :: "string list \<Rightarrow> 'a walk_decision" where
  "walk_descend_skip names = \<lparr>wd_items = [], wd_descend = True, wd_skip_names = names\<rparr>"

definition walk_skip :: "'a walk_decision" where
  "walk_skip = \<lparr>wd_items = [], wd_descend = False, wd_skip_names = []\<rparr>"

text \<open>
  One directory: what it yields and the child directories to visit next. The
  type of an entry is that of the entry itself, so a link to a directory is no
  child. \<open>None\<close> is the unlimited depth.
\<close>

definition explore_dir ::
  "(disk \<Rightarrow> path \<Rightarrow> nat \<Rightarrow> 'a walk_decision) \<Rightarrow> nat option \<Rightarrow> disk \<Rightarrow> path \<times> nat \<Rightarrow>
   (file_error, (path \<times> 'a) list \<times> (path \<times> nat) list) result" where
  "explore_dir classify max_depth d = (\<lambda>(dir, depth).
     let decision = classify d dir depth; items = map (\<lambda>item. (dir, item)) (wd_items decision)
     in if \<not> wd_descend decision then Inr (items, [])
        else if (case max_depth of Some m \<Rightarrow> m \<le> depth | None \<Rightarrow> False) then Inr (items, [])
        else case read_dir d dir of
          Inl e \<Rightarrow> Inl (FileError dir e)
        | Inr names \<Rightarrow>
            Inr (items,
              map (\<lambda>name. (dir @ [name], depth + 1))
                (filter (\<lambda>name. symlink_metadata d (dir @ [name]) = Inr DirNode \<and> name \<notin> set (wd_skip_names decision)) names)))"

text \<open>The directories of one round, which the code explores together; the first error ends the walk.\<close>

fun explore_all ::
  "(disk \<Rightarrow> path \<Rightarrow> nat \<Rightarrow> 'a walk_decision) \<Rightarrow> nat option \<Rightarrow> disk \<Rightarrow> (path \<times> nat) list \<Rightarrow>
   (file_error, (path \<times> 'a) list \<times> (path \<times> nat) list) result" where
  "explore_all classify max_depth d [] = Inr ([], [])"
| "explore_all classify max_depth d (x # xs) =
     (case explore_dir classify max_depth d x of
        Inl e \<Rightarrow> Inl e
      | Inr (items, children) \<Rightarrow>
          (case explore_all classify max_depth d xs of
             Inl e \<Rightarrow> Inl e
           | Inr (items', children') \<Rightarrow> Inr (items @ items', children @ children')))"

partial_function (option) walk_rounds ::
  "(disk \<Rightarrow> path \<Rightarrow> nat \<Rightarrow> 'a walk_decision) \<Rightarrow> nat option \<Rightarrow> disk \<Rightarrow> (path \<times> nat) list \<Rightarrow> (path \<times> 'a) list \<Rightarrow>
   (file_error, (path \<times> 'a) list) result option" where
  "walk_rounds classify max_depth d queue results =
     (if queue = [] then Some (Inr results)
      else case explore_all classify max_depth d queue of
        Inl e \<Rightarrow> Some (Inl e)
      | Inr (items, children) \<Rightarrow> walk_rounds classify max_depth d children (results @ items))"

definition walk ::
  "(disk \<Rightarrow> path \<Rightarrow> nat \<Rightarrow> 'a walk_decision) \<Rightarrow> nat option \<Rightarrow> path \<Rightarrow> (disk, file_error, 'a list) op" where
  "walk classify max_depth root = (\<lambda>d.
     map_option (\<lambda>r. (map_sum id (\<lambda>results. map snd (sort_key fst results)) r, d))
       (walk_rounds classify max_depth d [(root, 0)] []))"

lemmas [code] = walk_rounds.simps

subsection \<open>Link-free paths\<close>

text \<open>A path is real when it exists and no component of it is a link: it is its own canonical form.\<close>

definition real_path :: "disk \<Rightarrow> path \<Rightarrow> bool" where
  "real_path d p \<longleftrightarrow>
     (\<forall>q. strict_prefix q p \<longrightarrow> node_at d q = Some DirNode \<and> q \<notin> set (denied d)) \<and>
     (\<exists>n. node_at d p = Some n \<and> (\<forall>t. n \<noteq> LinkNode t))"

lemma node_at_Nil [simp]: "node_at d [] = Some DirNode"
  by (simp add: node_at_def)

lemma real_path_Nil [simp]: "real_path d []"
  by (simp add: real_path_def)

lemma real_path_snoc:
  "real_path d (p @ [x]) \<longleftrightarrow>
     real_path d p \<and> node_at d p = Some DirNode \<and> p \<notin> set (denied d) \<and>
     (\<exists>n. node_at d (p @ [x]) = Some n \<and> (\<forall>t. n \<noteq> LinkNode t))"
  by (auto simp: real_path_def strict_prefix_def prefix_snoc)

lemma real_path_append: "real_path d (p @ q) \<Longrightarrow> real_path d p"
proof (induction q rule: rev_induct)
  case (snoc x q)
  then show ?case using real_path_snoc [of d "p @ q" x] by simp
qed simp

lemma real_path_inner: "real_path d (p @ x # q) \<Longrightarrow> node_at d p = Some DirNode \<and> p \<notin> set (denied d)"
  using real_path_append [of d "p @ [x]" q] by (simp add: real_path_snoc)

lemma resolve_real_path:
  "resolve d links here p = Inr q \<Longrightarrow> node_at d q = Some DirNode \<or> r = [] \<Longrightarrow> real_path d (q @ r) \<Longrightarrow>
   resolve d links here (p @ r) = Inr (q @ r)"
proof (induction d links here p rule: resolve.induct)
  case (1 d links here)
  then have "here = q" by simp
  moreover have "resolve d links here r = Inr (here @ r)" if "real_path d (here @ r)" for here r
    using that
  proof (induction r arbitrary: here)
    case (Cons x r)
    have real: "real_path d ((here @ [x]) @ r)" using Cons.prems by simp
    then have "real_path d (here @ [x])" by (rule real_path_append)
    then obtain n where n: "node_at d (here @ [x]) = Some n" "\<forall>t. n \<noteq> LinkNode t" "here \<notin> set (denied d)"
      by (auto simp: real_path_snoc)
    have "n = DirNode" if ne: "r \<noteq> []"
    proof -
      obtain y ys where "r = y # ys" using ne by (cases r) auto
      then show ?thesis using real n(1) real_path_inner [of d "here @ [x]" y ys] by simp
    qed
    moreover have "resolve d links (here @ [x]) r = Inr ((here @ [x]) @ r)" by (rule Cons.IH [OF real])
    ultimately show ?case using n by (cases n) auto
  qed simp
  ultimately show ?case using 1 by simp
next
  case (2 d links here name names)
  then show ?case
    by (auto split: if_splits option.splits node.splits nat.splits simp: append_eq_append_conv2)
qed

lemma canonicalize_real [simp]: "real_path d p \<Longrightarrow> canonicalize d p = Inr p"
  using resolve_real_path [of d max_links "[]" "[]" "[]" p] by (simp add: canonicalize_def)

lemma resolve_real: "resolve d links here p = Inr q \<Longrightarrow> real_path d here \<Longrightarrow> node_at d here = Some DirNode \<Longrightarrow> real_path d q"
proof (induction d links here p rule: resolve.induct)
  case (2 d links here name names)
  then show ?case
    by (auto simp: real_path_snoc split: if_splits option.splits node.splits nat.splits)
qed simp

lemma canonicalize_is_real: "canonicalize d p = Inr q \<Longrightarrow> real_path d q"
  by (simp add: canonicalize_def resolve_real)

lemma canonicalize_idem: "canonicalize d p = Inr q \<Longrightarrow> canonicalize d q = Inr q"
  by (simp add: canonicalize_is_real)

lemma canonicalize_append:
  "canonicalize d p = Inr q \<Longrightarrow> real_path d (q @ r) \<Longrightarrow> canonicalize d (p @ r) = Inr (q @ r)"
proof (cases r)
  case (Cons x xs)
  assume "canonicalize d p = Inr q" "real_path d (q @ r)"
  then show ?thesis
    unfolding canonicalize_def using Cons real_path_inner [of d q x xs] by (intro resolve_real_path) auto
qed simp

subsection \<open>What a walk visits\<close>

inductive visited ::
  "(disk \<Rightarrow> path \<Rightarrow> nat \<Rightarrow> 'a walk_decision) \<Rightarrow> nat option \<Rightarrow> disk \<Rightarrow> path \<Rightarrow> path \<times> nat \<Rightarrow> bool"
  for classify max_depth d root where
  root: "visited classify max_depth d root (root, 0)"
| child: "visited classify max_depth d root x \<Longrightarrow> explore_dir classify max_depth d x = Inr (items, children) \<Longrightarrow>
    y \<in> set children \<Longrightarrow> visited classify max_depth d root y"

lemma explore_dir_child:
  assumes "explore_dir classify max_depth d (dir, depth) = Inr (items, children)" "(dir', depth') \<in> set children"
  obtains name q where "dir' = dir @ [name]" "depth' = Suc depth" "canonicalize d dir = Inr q" "node_at d q = Some DirNode"
    "q \<notin> set (denied d)" "node_at d (q @ [name]) = Some DirNode" "wd_descend (classify d dir depth)"
    "name \<notin> set (wd_skip_names (classify d dir depth))" "case max_depth of Some m \<Rightarrow> depth < m | None \<Rightarrow> True"
proof -
  from assms obtain names name where *: "read_dir d dir = Inr names" "dir' = dir @ [name]" "depth' = Suc depth"
    "symlink_metadata d (dir @ [name]) = Inr DirNode" "wd_descend (classify d dir depth)"
    "name \<notin> set (wd_skip_names (classify d dir depth))" "case max_depth of Some m \<Rightarrow> depth < m | None \<Rightarrow> True"
    by (auto simp: explore_dir_def Let_def split: if_splits sum.splits option.splits)
  from *(1) obtain q where q: "canonicalize d dir = Inr q" "node_at d q = Some DirNode" "q \<notin> set (denied d)"
    by (auto simp: read_dir_def split: sum.splits if_splits)
  then have "node_at d (q @ [name]) = Some DirNode"
    using *(4) by (auto simp: symlink_metadata_def place_def split: option.splits)
  then show thesis using that q * by blast
qed

text \<open>Every directory of a walk is real below the root, and its depth is the distance to it.\<close>

lemma visited_shape:
  assumes "visited classify max_depth d root x" "canonicalize d root = Inr R"
  shows "\<exists>below. fst x = root @ below \<and> snd x = length below \<and> canonicalize d (fst x) = Inr (R @ below) \<and>
    real_path d (R @ below) \<and> (below \<noteq> [] \<longrightarrow> node_at d (R @ below) = Some DirNode)"
  using assms(1)
proof induction
  case root
  then show ?case using assms(2) canonicalize_is_real by fastforce
next
  case (child x items children y)
  obtain dir depth where x: "x = (dir, depth)" by (cases x)
  obtain dir' depth' where y: "y = (dir', depth')" by (cases y)
  from child.IH x obtain below where below: "dir = root @ below" "depth = length below" "canonicalize d dir = Inr (R @ below)"
    "real_path d (R @ below)"
    by auto
  from child.hyps(2,3) x y obtain name q where step: "dir' = dir @ [name]" "depth' = Suc depth" "canonicalize d dir = Inr q"
    "node_at d q = Some DirNode" "q \<notin> set (denied d)" "node_at d (q @ [name]) = Some DirNode"
    by (auto elim: explore_dir_child)
  then have "real_path d (R @ below @ [name])"
    using below real_path_snoc [of d "R @ below" name] by simp
  then have "canonicalize d (root @ below @ [name]) = Inr (R @ below @ [name])"
    using canonicalize_append [OF assms(2)] by simp
  then show ?case using step below y \<open>real_path d (R @ below @ [name])\<close>
    by (intro exI [of _ "below @ [name]"]) simp
qed

text \<open>A directory of a walk that is not descended into ends its branch.\<close>

lemma visited_parent:
  assumes "visited classify max_depth d root (root @ below @ [name], Suc (length below))" "canonicalize d root = Inr R"
  shows "visited classify max_depth d root (root @ below, length below)" "wd_descend (classify d (root @ below) (length below))"
proof -
  from assms(1) have "visited classify max_depth d root (root @ below, length below) \<and> wd_descend (classify d (root @ below) (length below))"
  proof cases
    case (child x items children)
    obtain dir depth where x: "x = (dir, depth)" by (cases x)
    from child(2,3) x have "root @ below @ [name] = dir @ [last (root @ below @ [name])]" "Suc (length below) = Suc depth"
      "wd_descend (classify d dir depth)"
      by (auto elim!: explore_dir_child)
    then have "dir = root @ below" "depth = length below" "wd_descend (classify d dir depth)"
      by (auto simp flip: append_assoc)
    then show ?thesis using child(1) x by simp
  qed
  then show "visited classify max_depth d root (root @ below, length below)" "wd_descend (classify d (root @ below) (length below))"
    by auto
qed

lemma visited_inner:
  assumes "canonicalize d root = Inr R" "visited classify max_depth d root (root @ below @ deeper, length (below @ deeper))" "deeper \<noteq> []"
  shows "wd_descend (classify d (root @ below) (length below))"
  using assms(2,3)
proof (induction deeper rule: rev_induct)
  case (snoc name deeper)
  then have "visited classify max_depth d root (root @ (below @ deeper), length (below @ deeper))"
    "wd_descend (classify d (root @ (below @ deeper)) (length (below @ deeper)))"
    using visited_parent [OF _ assms(1), of classify max_depth "below @ deeper" name] by simp_all
  then show ?case using snoc.IH by (cases "deeper = []") simp_all
qed simp

subsection \<open>A walk returns, and what it returns\<close>

lemma explore_dir_items:
  "explore_dir classify max_depth d (dir, depth) = Inr (i, c) \<Longrightarrow> i = map (\<lambda>item. (dir, item)) (wd_items (classify d dir depth))"
  by (auto simp: explore_dir_def Let_def split: if_splits sum.splits)

lemma explore_all_Inr:
  assumes "explore_all classify max_depth d xs = Inr (items, children)"
  shows "x \<in> set xs \<Longrightarrow> \<exists>i c. explore_dir classify max_depth d x = Inr (i, c) \<and> set c \<subseteq> set children"
    "y \<in> set children \<Longrightarrow> \<exists>x \<in> set xs. \<exists>i c. explore_dir classify max_depth d x = Inr (i, c) \<and> y \<in> set c"
    "set items = {(dir, item). \<exists>depth. (dir, depth) \<in> set xs \<and> item \<in> set (wd_items (classify d dir depth))}"
proof -
  have "(\<forall>x \<in> set xs. \<exists>i c. explore_dir classify max_depth d x = Inr (i, c) \<and> set c \<subseteq> set children) \<and>
    (\<forall>y \<in> set children. \<exists>x \<in> set xs. \<exists>i c. explore_dir classify max_depth d x = Inr (i, c) \<and> y \<in> set c) \<and>
    set items = {(dir, item). \<exists>depth. (dir, depth) \<in> set xs \<and> item \<in> set (wd_items (classify d dir depth))}"
    using assms
  proof (induction xs arbitrary: items children)
    case (Cons x xs)
    from Cons.prems obtain i c i' c' where *: "explore_dir classify max_depth d x = Inr (i, c)"
      "explore_all classify max_depth d xs = Inr (i', c')" "items = i @ i'" "children = c @ c'"
      by (auto split: sum.splits prod.splits)
    obtain dir depth where x: "x = (dir, depth)" by (cases x)
    have "i = map (\<lambda>item. (dir, item)) (wd_items (classify d dir depth))" using explore_dir_items * x by blast
    moreover note IH = Cons.IH [OF *(2)]
    ultimately have "set items = {(dir, item). \<exists>depth. (dir, depth) \<in> set (x # xs) \<and> item \<in> set (wd_items (classify d dir depth))}"
      using * x by auto
    moreover have "\<forall>x \<in> set xs. \<exists>i c. explore_dir classify max_depth d x = Inr (i, c) \<and> set c \<subseteq> set children"
      using IH *(4) by fastforce
    ultimately show ?case using IH * by auto
  qed simp
  then show "x \<in> set xs \<Longrightarrow> \<exists>i c. explore_dir classify max_depth d x = Inr (i, c) \<and> set c \<subseteq> set children"
    "y \<in> set children \<Longrightarrow> \<exists>x \<in> set xs. \<exists>i c. explore_dir classify max_depth d x = Inr (i, c) \<and> y \<in> set c"
    "set items = {(dir, item). \<exists>depth. (dir, depth) \<in> set xs \<and> item \<in> set (wd_items (classify d dir depth))}"
    by blast+
qed

text \<open>Directories get longer from round to round, and no path on the disk is longer than all nodes.\<close>

lemma walk_rounds_returns:
  assumes "\<forall>x \<in> set queue. \<exists>q. canonicalize d (fst x) = Inr q \<and> n \<le> length q"
    "\<forall>p. node_at d p \<noteq> None \<longrightarrow> length p < n + k"
  shows "\<exists>r. walk_rounds classify max_depth d queue results = Some r"
  using assms
proof (induction k arbitrary: n queue results)
  case 0
  have "queue = []"
  proof (rule ccontr)
    assume "queue \<noteq> []"
    then obtain x q where "canonicalize d (fst x) = Inr q" "n \<le> length q" using "0.prems"(1) by (cases queue) auto
    then show False using "0.prems"(2) canonicalize_is_real [of d "fst x" q] by (auto simp: real_path_def)
  qed
  then show ?case by (simp add: walk_rounds.simps)
next
  case (Suc k)
  show ?case
  proof (cases "queue = [] \<or> (\<exists>e. explore_all classify max_depth d queue = Inl e)")
    case True
    then show ?thesis by (auto simp: walk_rounds.simps)
  next
    case False
    then obtain items children where all: "explore_all classify max_depth d queue = Inr (items, children)"
      by (cases "explore_all classify max_depth d queue") auto
    have "\<exists>q. canonicalize d (fst y) = Inr q \<and> Suc n \<le> length q" if y: "y \<in> set children" for y
    proof -
      obtain x i c where x: "x \<in> set queue" "explore_dir classify max_depth d x = Inr (i, c)" "y \<in> set c"
        using explore_all_Inr(2) [OF all y] by blast
      obtain dir depth dir' depth' where xy: "x = (dir, depth)" "y = (dir', depth')" by (cases x; cases y)
      from x(2,3) xy obtain name q where step: "dir' = dir @ [name]" "canonicalize d dir = Inr q"
        "node_at d q = Some DirNode" "q \<notin> set (denied d)" "node_at d (q @ [name]) = Some DirNode"
        by (auto elim: explore_dir_child)
      then have "real_path d (q @ [name])" using canonicalize_is_real [of d dir q] by (simp add: real_path_snoc)
      then have "canonicalize d dir' = Inr (q @ [name])" using step canonicalize_append by blast
      moreover have "n \<le> length q" using Suc.prems(1) x(1) xy step(2) by auto
      ultimately show ?thesis using xy by auto
    qed
    then have "\<exists>r. walk_rounds classify max_depth d children (results @ items) = Some r"
      using Suc.prems(2) by (intro Suc.IH [of _ "Suc n"]) auto
    then show ?thesis using False all by (simp add: walk_rounds.simps [of classify max_depth d queue])
  qed
qed

lemma nodes_bounded: "\<exists>k. \<forall>p. node_at d p \<noteq> None \<longrightarrow> length p < k"
proof -
  have "finite (length ` insert [] (set (bt_keys (nodes d))))" by simp
  then obtain k where "\<forall>m \<in> length ` insert [] (set (bt_keys (nodes d))). m < k"
    using finite_nat_set_iff_bounded by blast
  then have "\<forall>p. node_at d p \<noteq> None \<longrightarrow> length p < k"
    by (auto simp: node_at_def dest!: map_of_SomeD split: if_splits)
  then show ?thesis by blast
qed

lemma walk_rounds_induct [consumes 1, case_names stop round]:
  assumes "walk_rounds classify max_depth d queue results = Some (Inr out)"
    "\<And>results. P [] results results"
    "\<And>queue results items children out. queue \<noteq> [] \<Longrightarrow> explore_all classify max_depth d queue = Inr (items, children) \<Longrightarrow>
      P children (results @ items) out \<Longrightarrow> P queue results out"
  shows "P queue results out"
proof -
  have "(classify', max_depth', d') = (classify, max_depth, d) \<Longrightarrow> r = Inr out \<Longrightarrow> P queue results out"
    if "walk_rounds classify' max_depth' d' queue results = Some r" for classify' max_depth' d' r
  proof (rule walk_rounds.raw_induct [where P = "\<lambda>c m d' queue results r. (c, m, d') = (classify, max_depth, d) \<longrightarrow> r = Inr out \<longrightarrow> P queue results out", OF _ that, THEN mp, THEN mp], goal_cases)
    case (1 walk_rounds c m d' queue results y)
    then show ?case using assms(2,3) by (auto split: if_splits sum.splits prod.splits)
  qed
  then show ?thesis using assms(1) by blast
qed

text \<open>The items of a finished walk are those of the directories it visits.\<close>

lemma walk_rounds_items:
  assumes "walk_rounds classify max_depth d queue results = Some (Inr out)"
    "\<forall>x \<in> set queue \<union> done. visited classify max_depth d root x" "(root, 0) \<in> set queue \<union> done"
    "\<forall>x \<in> done. \<exists>i c. explore_dir classify max_depth d x = Inr (i, c) \<and> set c \<subseteq> set queue \<union> done"
    "set results = {(dir, item). \<exists>depth. (dir, depth) \<in> done \<and> item \<in> set (wd_items (classify d dir depth))}"
  shows "set out = {(dir, item). \<exists>depth. visited classify max_depth d root (dir, depth) \<and> item \<in> set (wd_items (classify d dir depth))}"
  using assms
proof (induction arbitrary: "done" rule: walk_rounds_induct)
  case (stop results)
  have "x \<in> done" if "visited classify max_depth d root x" for x
    using that
  proof induction
    case (child x items children y)
    then show ?case using stop(3) by fastforce
  qed (use stop in simp)
  then have "done = {x. visited classify max_depth d root x}" using stop(1) by auto
  then show ?case using stop(4) by simp
next
  case (round queue results items children out)
  note facts = explore_all_Inr [OF round(2)]
  show ?case
  proof (rule round.IH [of "done \<union> set queue"])
    show "\<forall>x \<in> set children \<union> (done \<union> set queue). visited classify max_depth d root x"
      using facts(2) round(4) by (blast intro: visited.child)
    show "(root, 0) \<in> set children \<union> (done \<union> set queue)" using round(5) by blast
    show "\<forall>x \<in> done \<union> set queue. \<exists>i c. explore_dir classify max_depth d x = Inr (i, c) \<and> set c \<subseteq> set children \<union> (done \<union> set queue)"
      using facts(1) round(6) by blast
    show "set (results @ items) = {(dir, item). \<exists>depth. (dir, depth) \<in> done \<union> set queue \<and> item \<in> set (wd_items (classify d dir depth))}"
      using facts(3) round(7) by auto
  qed
qed

lemma walk_exact:
  assumes "walk classify max_depth root d = Some (Inr found, d')"
  shows "d' = d" "set found = {item. \<exists>dir depth. visited classify max_depth d root (dir, depth) \<and> item \<in> set (wd_items (classify d dir depth))}"
proof -
  obtain r where r: "walk_rounds classify max_depth d [(root, 0)] [] = Some r"
    "map_sum id (\<lambda>results. map snd (sort_key fst results)) r = Inr found" "d' = d"
    using assms by (auto simp: walk_def)
  then obtain out where out: "walk_rounds classify max_depth d [(root, 0)] [] = Some (Inr out)"
    "found = map snd (sort_key fst out)" "d' = d"
    by (cases r) auto
  have "set out = {(dir, item). \<exists>depth. visited classify max_depth d root (dir, depth) \<and> item \<in> set (wd_items (classify d dir depth))}"
    by (rule walk_rounds_items [OF out(1), of "{}"]) (auto intro: visited.root)
  then show "d' = d" "set found = {item. \<exists>dir depth. visited classify max_depth d root (dir, depth) \<and> item \<in> set (wd_items (classify d dir depth))}"
    using out(2,3) by force+
qed

lemma walk_returns:
  assumes "canonicalize d root = Inr R"
  shows "\<exists>r. walk classify max_depth root d = Some (r, d)"
proof -
  obtain k where "\<forall>p. node_at d p \<noteq> None \<longrightarrow> length p < k" using nodes_bounded by blast
  then have "\<exists>r. walk_rounds classify max_depth d [(root, 0)] [] = Some r"
    using assms by (intro walk_rounds_returns [of _ _ 0 k]) auto
  then show ?thesis by (auto simp: walk_def)
qed

subsection \<open>Disks as trees\<close>

text \<open>What the file system keeps true by itself: only directories have entries.\<close>

definition disk_ok :: "disk \<Rightarrow> bool" where
  "disk_ok d \<longleftrightarrow> (\<forall>p x. node_at d (p @ [x]) \<noteq> None \<longrightarrow> node_at d p = Some DirNode)"

definition readable_below :: "disk \<Rightarrow> path \<Rightarrow> bool" where
  "readable_below d p \<longleftrightarrow> (\<forall>q \<in> set (denied d). \<not> prefix p q)"

lemma node_at_put [simp]: "q \<noteq> [] \<Longrightarrow> node_at (put_node q n d) p = (if p = q then Some n else node_at d p)"
  by (auto simp: node_at_def put_node_def)

lemma node_at_drop: "node_at (drop_nodes gone d) p = (if p \<noteq> [] \<and> gone p then None else node_at d p)"
proof -
  have "map_of (filter (\<lambda>(k, _). \<not> gone k) xs) p = (if gone p then None else map_of xs p)" for xs :: "(path \<times> node) list"
    by (induction xs) auto
  then show ?thesis by (simp add: node_at_def drop_nodes_def)
qed

lemma denied_put [simp]: "denied (put_node q n d) = denied d"
  by (simp add: put_node_def)

lemma denied_drop [simp]: "denied (drop_nodes gone d) = denied d"
  by (simp add: drop_nodes_def)

lemma disk_okD: "disk_ok d \<Longrightarrow> node_at d (p @ [x]) = Some n \<Longrightarrow> node_at d p = Some DirNode"
  unfolding disk_ok_def by (metis option.distinct(1))

lemma real_below:
  assumes "disk_ok d" "real_path d p" "readable_below d p"
  shows "node_at d (p @ r) = Some n \<Longrightarrow> (\<forall>t. n \<noteq> LinkNode t) \<Longrightarrow> real_path d (p @ r)"
proof (induction r arbitrary: n rule: rev_induct)
  case (snoc x r)
  then have "node_at d (p @ r) = Some DirNode" using disk_okD [OF assms(1), of "p @ r" x] by simp
  moreover from this have "real_path d (p @ r)" using snoc.IH by simp
  moreover have "p @ r \<notin> set (denied d)" using assms(3) by (auto simp: readable_below_def)
  ultimately show ?case using snoc.prems real_path_snoc [of d "p @ r" x] by simp
qed (use assms in simp)

text \<open>Entries of a directory that is reached by a path with a canonical form.\<close>

lemma symlink_metadata_below:
  assumes "canonicalize d p = Inr q" "node_at d q = Some DirNode" "q \<notin> set (denied d)"
  shows "symlink_metadata d (p @ [x]) = (case node_at d (q @ [x]) of Some n \<Rightarrow> Inr n | None \<Rightarrow> Inl IoNotFound)"
  using assms by (simp add: symlink_metadata_def place_def)

lemma is_link_below:
  assumes "canonicalize d p = Inr q" "node_at d q = Some DirNode" "q \<notin> set (denied d)"
  shows "is_link d (p @ [x]) \<longleftrightarrow> (\<exists>t. node_at d (q @ [x]) = Some (LinkNode t))"
    "node_at d (q @ [x]) = Some (LinkNode t) \<Longrightarrow> read_link d (p @ [x]) = Inr t"
  using symlink_metadata_below [OF assms, of x]
  by (auto simp: is_link_def read_link_def split: option.splits node.splits)

lemma read_dir_below:
  assumes "canonicalize d p = Inr q" "node_at d q = Some DirNode" "q \<notin> set (denied d)"
  shows "\<exists>names. read_dir d p = Inr names \<and> (\<forall>x. x \<in> set names \<longleftrightarrow> node_at d (q @ [x]) \<noteq> None)"
proof -
  have "x \<in> set (entry_names d q) \<longleftrightarrow> node_at d (q @ [x]) \<noteq> None" for x
  proof
    assume "x \<in> set (entry_names d q)"
    then obtain k where "k \<in> set (bt_keys (nodes d))" "k \<noteq> []" "butlast k = q" "last k = x"
      by (auto simp: entry_names_def)
    then have "q @ [x] \<in> set (bt_keys (nodes d))" by (metis append_butlast_last_id)
    then show "node_at d (q @ [x]) \<noteq> None" by (auto simp: node_at_def bt_keys_dom simp del: set_map)
  next
    assume "node_at d (q @ [x]) \<noteq> None"
    then have "q @ [x] \<in> set (bt_keys (nodes d))" by (auto simp: node_at_def bt_keys_dom simp del: set_map)
    then show "x \<in> set (entry_names d q)" unfolding entry_names_def by (force simp del: map_map)
  qed
  then show ?thesis using assms by (simp add: read_dir_def)
qed

text \<open>The last step of a lookup.\<close>

lemma resolve_snoc:
  "resolve d links here (p @ [x]) = Inr q \<Longrightarrow> node_at d here = Some DirNode \<Longrightarrow>
   \<exists>r. resolve d links here p = Inr r \<and> node_at d r = Some DirNode \<and> r \<notin> set (denied d) \<and>
     ((\<forall>t. node_at d (r @ [x]) \<noteq> Some (LinkNode t)) \<longrightarrow> q = r @ [x])"
proof (induction d links here p rule: resolve.induct)
  case (1 d links here)
  then show ?case by (auto split: if_splits option.splits node.splits)
next
  case (2 d links here name names)
  then show ?case by (auto split: if_splits option.splits node.splits nat.splits)
qed

lemma canonicalize_snoc:
  assumes "canonicalize d (p @ [x]) = Inr q"
  obtains r where "canonicalize d p = Inr r" "node_at d r = Some DirNode" "r \<notin> set (denied d)"
    "(\<forall>t. node_at d (r @ [x]) \<noteq> Some (LinkNode t)) \<Longrightarrow> q = r @ [x]"
  using resolve_snoc [of d max_links "[]" p x q] assms by (auto simp: canonicalize_def)

end
