(* ===== verification/Ocx_Store.thy ===== *)
theory Ocx_Store
  imports Ocx_Disk Ocx_Reference
begin

section \<open>The local store\<close>

text \<open>
  \<open>crates/ocx_store/src/file_structure.rs\<close> and its submodules: where blobs,
  layers, packages and deferred shims live under \<open>$OCX_HOME\<close>
  (\<open>cas_path.rs\<close>, \<open>package_store.rs\<close>, \<open>layer_store.rs\<close>, \<open>blob_store.rs\<close>,
  \<open>shim_store.rs\<close>, \<open>symlink_store.rs\<close>), how the stores are listed, and
  \<open>reference_manager.rs\<close>: the install symlinks and the references between
  objects that garbage collection reads. The pinned reference is
  \<open>crates/ocx_oci/src/pinned_package_ref.rs\<close>.
\<close>

subsection \<open>Pinned references\<close>

record pinned_package_ref =
  pp_identifier :: package_ref
  pp_digest :: digest

definition pin_package :: "package_ref \<Rightarrow> digest \<Rightarrow> pinned_package_ref" where
  "pin_package identifier d = \<lparr>pp_identifier = clone_with_digest identifier d, pp_digest = d\<rparr>"

definition eq_content :: "pinned_package_ref \<Rightarrow> pinned_package_ref \<Rightarrow> bool" where
  "eq_content a b \<longleftrightarrow>
     pr_registry (pp_identifier a) = pr_registry (pp_identifier b) \<and>
     pr_repository (pp_identifier a) = pr_repository (pp_identifier b) \<and> pp_digest a = pp_digest b"

definition strip_advisory :: "pinned_package_ref \<Rightarrow> pinned_package_ref" where
  "strip_advisory p = p\<lparr>pp_identifier := without_tag (pp_identifier p)\<rparr>"

definition pin_try_from :: "package_ref \<Rightarrow> (package_ref, pinned_package_ref) result" where
  "pin_try_from identifier =
     (case pr_digest identifier of
        None \<Rightarrow> Inl identifier
      | Some d \<Rightarrow> Inr \<lparr>pp_identifier = identifier, pp_digest = d\<rparr>)"

subsection \<open>Layout\<close>

record file_structure =
  fs_root :: path
  blobs_root :: path
  layers_root :: path
  packages_root :: path
  symlinks_root :: path
  state_root :: path
  temp_root :: path
  shims_root :: path

definition with_root :: "path \<Rightarrow> file_structure" where
  "with_root root =
     \<lparr>fs_root = root, blobs_root = root @ [''blobs''], layers_root = root @ [''layers''],
      packages_root = root @ [''packages''], symlinks_root = root @ [''symlinks''],
      state_root = root @ [''state''], temp_root = root @ [''temp''], shims_root = root @ [''shims'']\<rparr>"

text \<open>
  \<open>to_relaxed_slug\<close> replaces characters, so the continuation bytes of a
  character outside ASCII go with its first byte.
\<close>

definition slug_char :: "char \<Rightarrow> bool" where
  "slug_char c \<longleftrightarrow> is_ascii_alphanumeric c \<or> c \<in> {CHR ''.'', CHR ''_'', CHR ''-''}"

definition is_continuation :: "char \<Rightarrow> bool" where
  "is_continuation c \<longleftrightarrow> (of_char c :: nat) div 64 = 2"

definition slugify :: "string \<Rightarrow> string" where
  "slugify value = concat (map (\<lambda>c. if slug_char c then [c] else if is_continuation c then [] else ''_'') value)"

definition repository_path :: "string \<Rightarrow> path" where
  "repository_path repository = split_on CHR ''/'' repository"

definition cas_shard_prefix_len :: nat where
  "cas_shard_prefix_len = 2"

definition cas_shard_total_len :: nat where
  "cas_shard_total_len = 32"

definition cas_shard_depth :: nat where
  "cas_shard_depth = 3"

datatype cas_tier = TierPackage | TierLayer | TierBlob | TierShim

text \<open>The slices panic on a hex text of fewer than 32 characters; a digest has at least 64.\<close>

definition cas_shard_path :: "digest \<Rightarrow> path" where
  "cas_shard_path d =
     (case digest_parts d of (algorithm, hex) \<Rightarrow>
        [algorithm, take cas_shard_prefix_len hex,
         drop cas_shard_prefix_len (take cas_shard_total_len hex)])"

definition cas_ref_name :: "digest \<Rightarrow> string" where
  "cas_ref_name d = algorithm_prefix (digest_algorithm d) @ ''_'' @ take (min cas_shard_total_len (length (digest_hex d))) (digest_hex d)"

definition is_valid_cas_path :: "path \<Rightarrow> bool" where
  "is_valid_cas_path dir =
     (case take 3 (rev dir) of
        [remaining, pre, algorithm] \<Rightarrow>
          list_ex (\<lambda>a. algorithm_prefix a = algorithm) algorithm_all
          \<and> length pre = cas_shard_prefix_len \<and> list_all is_ascii_hexdigit pre
          \<and> length remaining = cas_shard_total_len - cas_shard_prefix_len \<and> list_all is_ascii_hexdigit remaining
      | _ \<Rightarrow> False)"

definition package_path :: "file_structure \<Rightarrow> pinned_package_ref \<Rightarrow> path" where
  "package_path fs pinned =
     packages_root fs @ [slugify (pr_registry (pp_identifier pinned))] @ cas_shard_path (pp_digest pinned)"

definition blob_path :: "file_structure \<Rightarrow> string \<Rightarrow> digest \<Rightarrow> path" where
  "blob_path fs registry d = blobs_root fs @ [slugify registry] @ cas_shard_path d"

definition blob_data :: "file_structure \<Rightarrow> string \<Rightarrow> digest \<Rightarrow> path" where
  "blob_data fs registry d = blob_path fs registry d @ [''data'']"

definition layer_path :: "file_structure \<Rightarrow> string \<Rightarrow> digest \<Rightarrow> path" where
  "layer_path fs registry d = layers_root fs @ [slugify registry] @ cas_shard_path d"

definition shim_path :: "file_structure \<Rightarrow> pinned_package_ref \<Rightarrow> path" where
  "shim_path fs pinned =
     shims_root fs @ [slugify (pr_registry (pp_identifier pinned))]
     @ repository_path (pr_repository (pp_identifier pinned)) @ cas_shard_path (pp_digest pinned)"

definition symlink_base :: "file_structure \<Rightarrow> package_ref \<Rightarrow> path" where
  "symlink_base fs identifier =
     symlinks_root fs @ [slugify (pr_registry identifier)] @ repository_path (pr_repository identifier)"

definition current_link :: "file_structure \<Rightarrow> package_ref \<Rightarrow> path" where
  "current_link fs identifier = symlink_base fs identifier @ [''current'']"

definition candidate_link :: "file_structure \<Rightarrow> package_ref \<Rightarrow> path" where
  "candidate_link fs identifier = symlink_base fs identifier @ [''candidates'', tag_or_latest identifier]"

definition refs_symlinks_dir :: "path \<Rightarrow> path" where
  "refs_symlinks_dir dir = dir @ [''refs'', ''symlinks'']"

definition refs_deps_dir :: "path \<Rightarrow> path" where
  "refs_deps_dir dir = dir @ [''refs'', ''deps'']"

definition refs_layers_dir :: "path \<Rightarrow> path" where
  "refs_layers_dir dir = dir @ [''refs'', ''layers'']"

definition refs_blobs_dir :: "path \<Rightarrow> path" where
  "refs_blobs_dir dir = dir @ [''refs'', ''blobs'']"

subsection \<open>Listing the stores\<close>

definition max_walk_depth :: nat where
  "max_walk_depth = 1 + cas_shard_depth"

definition classify_package_dir :: "disk \<Rightarrow> path \<Rightarrow> nat \<Rightarrow> path walk_decision" where
  "classify_package_dir d dir depth =
     (if is_dir d (dir @ [''content'']) then
        (if is_valid_cas_path dir then walk_leaf dir else walk_skip)
      else walk_descend_skip [''content'', ''refs''])"

definition classify_layer_dir :: "disk \<Rightarrow> path \<Rightarrow> nat \<Rightarrow> path walk_decision" where
  "classify_layer_dir d dir depth =
     (if is_dir d (dir @ [''content'']) then
        (if is_valid_cas_path dir then walk_leaf dir else walk_skip)
      else walk_descend_skip [''content''])"

definition classify_blob_dir :: "disk \<Rightarrow> path \<Rightarrow> nat \<Rightarrow> path walk_decision" where
  "classify_blob_dir d dir depth =
     (if is_file d (dir @ [''data'']) then
        (if is_valid_cas_path dir then walk_leaf dir else walk_skip)
      else walk_descend_skip [])"

definition classify_shim_dir :: "disk \<Rightarrow> path \<Rightarrow> nat \<Rightarrow> path walk_decision" where
  "classify_shim_dir d dir depth =
     (if \<not> is_dir d (dir @ [''bin'']) then walk_descend
      else if is_valid_cas_path dir then walk_leaf dir
      else walk_descend)"

text \<open>\<open>list_all\<close> of a store: nothing when its root does not exist.\<close>

definition list_store ::
  "(disk \<Rightarrow> path \<Rightarrow> nat \<Rightarrow> path walk_decision) \<Rightarrow> nat option \<Rightarrow> path \<Rightarrow> (disk, file_error, path list) op" where
  "list_store classify max_depth root = (\<lambda>d. if \<not> path_exists d root then Some (Inr [], d) else walk classify max_depth root d)"

definition list_packages :: "file_structure \<Rightarrow> (disk, file_error, path list) op" where
  "list_packages fs = list_store classify_package_dir (Some max_walk_depth) (packages_root fs)"

definition list_layers :: "file_structure \<Rightarrow> (disk, file_error, path list) op" where
  "list_layers fs = list_store classify_layer_dir (Some max_walk_depth) (layers_root fs)"

definition list_blobs :: "file_structure \<Rightarrow> (disk, file_error, path list) op" where
  "list_blobs fs = list_store classify_blob_dir (Some max_walk_depth) (blobs_root fs)"

definition list_shims :: "file_structure \<Rightarrow> (disk, file_error, path list) op" where
  "list_shims fs = list_store classify_shim_dir None (shims_root fs)"

subsection \<open>What the listings return\<close>

text \<open>A store classifier yields a directory itself, and never descends below one it yields.\<close>

definition yields_itself :: "(disk \<Rightarrow> path \<Rightarrow> nat \<Rightarrow> path walk_decision) \<Rightarrow> bool" where
  "yields_itself classify \<longleftrightarrow>
     (\<forall>d dir depth. wd_items (classify d dir depth) \<noteq> [] \<longrightarrow>
        wd_items (classify d dir depth) = [dir] \<and> \<not> wd_descend (classify d dir depth) \<and> is_valid_cas_path dir)"

lemmas classify_defs = classify_package_dir_def classify_layer_dir_def classify_blob_dir_def classify_shim_dir_def
  walk_leaf_def walk_skip_def walk_descend_def walk_descend_skip_def

lemma classifiers_yield [simp]:
  "yields_itself classify_package_dir" "yields_itself classify_layer_dir"
  "yields_itself classify_blob_dir" "yields_itself classify_shim_dir"
  by (simp_all add: yields_itself_def classify_defs)

text \<open>One store: its listing lies below the canonical root, and no listed directory lies in another.\<close>

lemma list_store_entry:
  assumes "list_store classify max_depth root d = Some (Inr dirs, d')" "yields_itself classify" "\<not> is_valid_cas_path root"
  shows "d' = d"
    "dir \<in> set dirs \<Longrightarrow> \<exists>R below. canonicalize d root = Inr R \<and> below \<noteq> [] \<and> dir = root @ below \<and>
       canonicalize d dir = Inr (R @ below) \<and> real_path d (R @ below) \<and> node_at d (R @ below) = Some DirNode \<and>
       visited classify max_depth d root (dir, length below) \<and> \<not> wd_descend (classify d dir (length below))"
proof -
  show "d' = d"
    using assms(1) walk_exact(1) by (auto simp: list_store_def split: if_splits)
  assume dir: "dir \<in> set dirs"
  then have walk: "walk classify max_depth root d = Some (Inr dirs, d')" "path_exists d root"
    using assms(1) by (auto simp: list_store_def split: if_splits)
  then obtain R where R: "canonicalize d root = Inr R"
    by (auto simp: path_exists_def metadata_def split: sum.splits)
  from dir obtain at depth where at: "visited classify max_depth d root (at, depth)" "dir \<in> set (wd_items (classify d at depth))"
    unfolding walk_exact(2) [OF walk(1)] by auto
  then have "wd_items (classify d at depth) \<noteq> []" by auto
  then have "wd_items (classify d at depth) = [at]" "\<not> wd_descend (classify d at depth)" "is_valid_cas_path at"
    using assms(2) unfolding yields_itself_def by blast+
  then have items: "dir = at" "\<not> wd_descend (classify d at depth)" "is_valid_cas_path at" using at(2) by auto
  obtain below where below: "at = root @ below" "depth = length below" "canonicalize d at = Inr (R @ below)"
    "real_path d (R @ below)" "below \<noteq> [] \<longrightarrow> node_at d (R @ below) = Some DirNode"
    using visited_shape [OF at(1) R] by auto
  moreover have "below \<noteq> []" using items(3) assms(3) below(1) by auto
  ultimately show "\<exists>R below. canonicalize d root = Inr R \<and> below \<noteq> [] \<and> dir = root @ below \<and>
       canonicalize d dir = Inr (R @ below) \<and> real_path d (R @ below) \<and> node_at d (R @ below) = Some DirNode \<and>
       visited classify max_depth d root (dir, length below) \<and> \<not> wd_descend (classify d dir (length below))"
    using R items(1,2) at(1) by blast
qed

lemma list_store_apart:
  assumes "list_store classify max_depth root d = Some (Inr dirs, d')" "yields_itself classify" "\<not> is_valid_cas_path root"
    "x \<in> set dirs" "y \<in> set dirs" "canonicalize d x = Inr p" "canonicalize d y = Inr q" "prefix p q"
  shows "x = y"
proof -
  obtain R below where x: "canonicalize d root = Inr R" "x = root @ below" "canonicalize d x = Inr (R @ below)"
    "\<not> wd_descend (classify d x (length below))"
    using list_store_entry(2) [OF assms(1-3,4)] by blast
  obtain below' where y: "y = root @ below'" "canonicalize d y = Inr (R @ below')" "visited classify max_depth d root (y, length below')"
    using list_store_entry(2) [OF assms(1-3,5)] x(1) by auto
  obtain deeper where deeper: "below' = below @ deeper" using assms(6-8) x(3) y(2) by (auto simp: prefix_def)
  have "deeper = []"
    using visited_inner [OF x(1), of classify max_depth below deeper] y(1,3) deeper x(2,4) by auto
  then show ?thesis using x(2) y(1) deeper by simp
qed

text \<open>The root of a store is no object, whatever \<open>$OCX_HOME\<close> is.\<close>

lemma store_root_no_object: "length t \<noteq> 30 \<Longrightarrow> \<not> is_valid_cas_path (home @ [t])"
  by (auto simp: is_valid_cas_path_def cas_shard_total_len_def cas_shard_prefix_len_def split: list.splits)

lemma list_store_returns: "\<exists>r. list_store classify max_depth root d = Some (r, d)"
proof (cases "path_exists d root")
  case True
  then obtain R where "canonicalize d root = Inr R"
    by (auto simp: path_exists_def metadata_def split: sum.splits)
  then show ?thesis using True walk_returns by (simp add: list_store_def)
qed (simp add: list_store_def)

subsection \<open>References between objects\<close>

text \<open>
  \<open>reference_manager.rs\<close>. The name of a back-reference is the head of a SHA-256
  of the forward path; the hash is the parameter \<open>name_for_path\<close>. The staging
  name of a forward link is the parameter \<open>temp\<close>.
\<close>

datatype package_dir_error = PackageFile file_error | PathInvalid path

definition package_dir_for_content :: "disk \<Rightarrow> path \<Rightarrow> (package_dir_error, path) result" where
  "package_dir_for_content d p =
     (case canonicalize d p of
        Inl e \<Rightarrow> Inl (PackageFile (FileError p e))
      | Inr canonical \<Rightarrow>
          (if canonical \<noteq> [] \<and> last canonical = ''content'' then Inr (butlast canonical) else Inr canonical))"

definition back_ref_path :: "(path \<Rightarrow> string) \<Rightarrow> disk \<Rightarrow> path \<Rightarrow> path \<Rightarrow> (package_dir_error, path) result" where
  "back_ref_path name_for_path d content forward =
     (case package_dir_for_content d content of
        Inl e \<Rightarrow> Inl e
      | Inr dir \<Rightarrow> Inr (refs_symlinks_dir dir @ [name_for_path forward]))"

text \<open>A result that the code discards (\<open>let _ = ...\<close>).\<close>

definition op_ignore :: "('w, 'e, 'a) op \<Rightarrow> ('w, 'f, unit) op" where
  "op_ignore m = op_match m (\<lambda>_. op_return ()) (\<lambda>_. op_return ())"

text \<open>The end of \<open>link\<close>: the back-reference, healed when it is a link to somewhere else.\<close>

definition write_back_ref :: "path \<Rightarrow> path \<Rightarrow> (disk, package_dir_error, unit) op" where
  "write_back_ref forward ref_path = (\<lambda>d.
     if is_link d ref_path then
       (if read_link d ref_path \<noteq> Inr forward then
          op_bind (op_map_err PackageFile (symlink_remove ref_path)) (\<lambda>_.
          op_map_err PackageFile (symlink_create forward ref_path)) d
        else Some (Inr (), d))
     else
       op_match (symlink_create forward ref_path) op_return
         (\<lambda>e d. case e of
             FileError _ IoAlreadyExists \<Rightarrow> Some (Inr (), d)
           | _ \<Rightarrow> if is_link d ref_path then Some (Inr (), d) else Some (Inl (PackageFile e), d)) d)"

definition link_object ::
  "(path \<Rightarrow> string) \<Rightarrow> string \<Rightarrow> path \<Rightarrow> path \<Rightarrow> (disk, package_dir_error, unit) op" where
  "link_object name_for_path temp forward content = (\<lambda>d.
     if is_link d forward \<and> read_link d forward = Inr content then Some (Inr (), d)
     else
       op_bind
         (case (is_link d forward, read_link d forward) of
            (True, Inr current) \<Rightarrow>
              (case back_ref_path name_for_path d current forward of
                 Inr old_ref \<Rightarrow> op_ignore (symlink_remove old_ref)
               | Inl _ \<Rightarrow> op_return ())
          | _ \<Rightarrow> op_return ()) (\<lambda>_.
       op_bind (op_map_err PackageFile (replace_atomic temp content forward)) (\<lambda>_.
       op_bind (\<lambda>d. Some (back_ref_path name_for_path d content forward, d)) (\<lambda>ref_path.
       op_bind
         (case parent_path ref_path of
            Some refs_dir \<Rightarrow> op_map_err (\<lambda>e. PackageFile (FileError refs_dir e)) (create_dir_all refs_dir)
          | None \<Rightarrow> op_return ()) (\<lambda>_.
       write_back_ref forward ref_path)))) d)"

definition unlink_object :: "(path \<Rightarrow> string) \<Rightarrow> path \<Rightarrow> (disk, file_error, unit) op" where
  "unlink_object name_for_path forward = (\<lambda>d.
     if \<not> is_link d forward then Some (Inr (), d)
     else
       op_bind
         (case read_link d forward of
            Inr target \<Rightarrow>
              (case back_ref_path name_for_path d target forward of
                 Inr ref_path \<Rightarrow> op_ignore (symlink_remove ref_path)
               | Inl _ \<Rightarrow> op_return ())
          | Inl _ \<Rightarrow> op_return ()) (\<lambda>_.
       symlink_remove forward) d)"

definition link_dependency :: "path \<Rightarrow> path \<Rightarrow> digest \<Rightarrow> (disk, package_dir_error, unit) op" where
  "link_dependency dependent_content dependency_content dependency_digest = (\<lambda>d.
     case package_dir_for_content d dependent_content of
       Inl e \<Rightarrow> Some (Inl e, d)
     | Inr dir \<Rightarrow>
         (let deps_dir = refs_deps_dir dir; dep_path = deps_dir @ [cas_ref_name dependency_digest]
          in op_bind (op_map_err (\<lambda>e. PackageFile (FileError deps_dir e)) (create_dir_all deps_dir)) (\<lambda>_ d.
             if is_link d dep_path \<and> read_link d dep_path = Inr dependency_content then Some (Inr (), d)
             else
               op_bind (if is_link d dep_path then op_map_err PackageFile (symlink_remove dep_path) else op_return ()) (\<lambda>_.
               op_map_err PackageFile (symlink_create dependency_content dep_path)) d) d))"

definition unlink_dependency :: "path \<Rightarrow> digest \<Rightarrow> (disk, file_error, unit) op" where
  "unlink_dependency dependent_content dependency_digest = (\<lambda>d.
     case package_dir_for_content d dependent_content of
       Inl _ \<Rightarrow> Some (Inr (), d)
     | Inr dir \<Rightarrow>
         (let dep_path = refs_deps_dir dir @ [cas_ref_name dependency_digest]
          in if is_link d dep_path then symlink_remove dep_path d else Some (Inr (), d)))"

fun link_blob_chain :: "file_structure \<Rightarrow> path \<Rightarrow> pinned_package_ref list \<Rightarrow> (disk, package_dir_error, unit) op" where
  "link_blob_chain fs refs_blobs [] d = Some (Inr (), d)"
| "link_blob_chain fs refs_blobs (pinned # chain) d =
     (let target = blob_data fs (pr_registry (pp_identifier pinned)) (pp_digest pinned);
          link = refs_blobs @ [cas_ref_name (pp_digest pinned)]
      in if is_link d link \<and> read_link d link = Inr target then link_blob_chain fs refs_blobs chain d
         else op_bind (op_map_err PackageFile (symlink_update target link)) (\<lambda>_. link_blob_chain fs refs_blobs chain) d)"

definition link_blobs :: "file_structure \<Rightarrow> path \<Rightarrow> pinned_package_ref list \<Rightarrow> (disk, package_dir_error, unit) op" where
  "link_blobs fs content chain = (\<lambda>d.
     if chain = [] then Some (Inr (), d)
     else case package_dir_for_content d content of
       Inl e \<Rightarrow> Some (Inl e, d)
     | Inr dir \<Rightarrow>
         (let refs_blobs = refs_blobs_dir dir
          in op_bind (op_map_err (\<lambda>e. PackageFile (FileError refs_blobs e)) (create_dir_all refs_blobs)) (\<lambda>_.
             link_blob_chain fs refs_blobs chain) d))"

text \<open>\<open>broken_refs\<close>: the back-references whose forward path is gone or points elsewhere.\<close>

definition staging_name :: "string \<Rightarrow> bool" where
  "staging_name name = starts_with ''.tmp-'' name"

definition broken_ref :: "disk \<Rightarrow> path \<Rightarrow> path \<Rightarrow> bool" where
  "broken_ref d expected_content back_ref =
     (case read_link d back_ref of
        Inl _ \<Rightarrow> True
      | Inr forward \<Rightarrow>
          (if \<not> is_link d forward then True
           else case read_link d forward of
             Inl _ \<Rightarrow> True
           | Inr actual \<Rightarrow>
               (case canonicalize d expected_content of
                  Inl _ \<Rightarrow> True
                | Inr expected \<Rightarrow> (case canonicalize d actual of Inr q \<Rightarrow> q | Inl _ \<Rightarrow> actual) \<noteq> expected)))"

definition check_refs_dir :: "disk \<Rightarrow> path \<Rightarrow> path \<Rightarrow> (file_error, path list) result" where
  "check_refs_dir d refs_dir expected_content =
     (case read_dir d refs_dir of
        Inl e \<Rightarrow> Inl (FileError refs_dir e)
      | Inr names \<Rightarrow>
          Inr (filter (\<lambda>back_ref. is_link d back_ref \<and> broken_ref d expected_content back_ref)
            (map (\<lambda>name. refs_dir @ [name]) (filter (\<lambda>name. \<not> staging_name name) names))))"

fun check_all_refs :: "disk \<Rightarrow> path list \<Rightarrow> (file_error, path list) result" where
  "check_all_refs d [] = Inr []"
| "check_all_refs d (dir # dirs) =
     (case (if path_exists_lossy d (refs_symlinks_dir dir)
            then check_refs_dir d (refs_symlinks_dir dir) (dir @ [''content'']) else Inr []) of
        Inl e \<Rightarrow> Inl e
      | Inr broken \<Rightarrow> (case check_all_refs d dirs of Inl e \<Rightarrow> Inl e | Inr others \<Rightarrow> Inr (broken @ others)))"

definition broken_refs :: "file_structure \<Rightarrow> (disk, file_error, path list) op" where
  "broken_refs fs =
     op_bind (list_packages fs) (\<lambda>package_dirs d. Some (map_sum id sort (check_all_refs d package_dirs), d))"

end
