(* ===== verification/Ocx_Garbage.thy ===== *)
theory Ocx_Garbage
  imports Ocx_Store Ocx_Client
begin

section \<open>Garbage collection of the store\<close>

text \<open>
  \<open>crates/ocx_package_manager/src/tasks/garbage_collection.rs\<close> and its module
  \<open>reachability_graph.rs\<close>: the graph of all objects of the store, its roots and
  references, the search for what the roots reach, the deletion of the rest, and the
  deletion of what only given objects held. The parser of manifests (\<open>serde_json\<close>) is
  the parameter \<open>parse_manifest\<close>. Hash maps and sets are the ordered collections; no
  result depends on the order in which they are gone through. The paths of lock
  files that attribution interns as numbers stand for themselves.
\<close>

subsection \<open>The graph\<close>

record project_root_digests =
  prd_lock_path :: path
  prd_digests :: "pinned_package_ref list"

record reachability_graph =
  rg_roots :: "path btree_set"
  rg_edges :: "(path, path list) btree_map"
  rg_all_entries :: "(path, cas_tier) btree_map"
  rg_roots_attribution :: "(path, path list) btree_map"

definition index_manifest_max_bytes :: nat where
  "index_manifest_max_bytes = 4 * 1024 * 1024"

definition canonicalize_or_keep :: "disk \<Rightarrow> path \<Rightarrow> path" where
  "canonicalize_or_keep d p = (case canonicalize d p of Inr q \<Rightarrow> q | Inl _ \<Rightarrow> p)"

definition ref_target :: "disk \<Rightarrow> path \<Rightarrow> path \<Rightarrow> path option" where
  "ref_target d store_root entry =
     (if is_link d entry then
        (case read_link d entry of
           Inl _ \<Rightarrow> None
         | Inr target \<Rightarrow>
             (case parent_path target of
                None \<Rightarrow> None
              | Some entry_dir \<Rightarrow>
                  (let canon = canonicalize_or_keep d entry_dir
                   in if prefix store_root canon then Some canon else None)))
      else None)"

definition read_refs :: "disk \<Rightarrow> path \<Rightarrow> path \<Rightarrow> path list" where
  "read_refs d refs_dir store_root =
     (case read_dir d refs_dir of
        Inl _ \<Rightarrow> []
      | Inr names \<Rightarrow> List.map_filter (\<lambda>name. ref_target d store_root (refs_dir @ [name])) names)"

definition has_live_refs :: "disk \<Rightarrow> path \<Rightarrow> bool" where
  "has_live_refs d pkg_dir =
     (let refs_dir = refs_symlinks_dir pkg_dir
      in case read_dir d refs_dir of
           Inl _ \<Rightarrow> False
         | Inr names \<Rightarrow>
             list_ex (\<lambda>name. \<not> staging_name name \<and> is_link d (refs_dir @ [name]) \<and>
               (case read_link d (refs_dir @ [name]) of
                  Inr target \<Rightarrow> path_exists_lossy d target
                | Inl _ \<Rightarrow> False)) names)"

text \<open>The references of one package and of one shim.\<close>

definition package_refs :: "disk \<Rightarrow> file_structure \<Rightarrow> path \<Rightarrow> path list" where
  "package_refs d fs dir =
     read_refs d (refs_deps_dir dir) (canonicalize_or_keep d (packages_root fs))
     @ read_refs d (refs_layers_dir dir) (canonicalize_or_keep d (layers_root fs))
     @ read_refs d (refs_blobs_dir dir) (canonicalize_or_keep d (blobs_root fs))"

definition shim_refs :: "disk \<Rightarrow> file_structure \<Rightarrow> path \<Rightarrow> path list" where
  "shim_refs d fs dir = read_refs d (refs_blobs_dir dir) (canonicalize_or_keep d (blobs_root fs))"

definition scan_packages :: "disk \<Rightarrow> file_structure \<Rightarrow> path list \<Rightarrow> reachability_graph" where
  "scan_packages d fs dirs =
     foldl (\<lambda>g dir.
              let canon = canonicalize_or_keep d dir
              in g\<lparr>rg_roots := (if has_live_refs d canon then bs_insert canon (rg_roots g) else rg_roots g),
                   rg_edges := bt_insert canon (package_refs d fs dir) (rg_edges g),
                   rg_all_entries := bt_insert canon TierPackage (rg_all_entries g)\<rparr>)
       \<lparr>rg_roots = [], rg_edges = [], rg_all_entries = [], rg_roots_attribution = []\<rparr> dirs"

definition scan_plain :: "disk \<Rightarrow> cas_tier \<Rightarrow> path list \<Rightarrow> reachability_graph \<Rightarrow> reachability_graph" where
  "scan_plain d tier dirs g =
     foldl (\<lambda>g dir. g\<lparr>rg_all_entries := bt_insert (canonicalize_or_keep d dir) tier (rg_all_entries g)\<rparr>) g dirs"

definition scan_shims :: "disk \<Rightarrow> file_structure \<Rightarrow> path list \<Rightarrow> reachability_graph \<Rightarrow> reachability_graph" where
  "scan_shims d fs dirs g =
     foldl (\<lambda>g dir.
              let canon = canonicalize_or_keep d dir
              in g\<lparr>rg_edges := bt_insert canon (shim_refs d fs dir) (rg_edges g),
                   rg_all_entries := bt_insert canon TierShim (rg_all_entries g)\<rparr>) g dirs"

text \<open>\<open>map.entry(k).or_default().push(v)\<close>\<close>

definition bt_push :: "'k::linorder \<Rightarrow> 'v \<Rightarrow> ('k, 'v list) btree_map \<Rightarrow> ('k, 'v list) btree_map" where
  "bt_push k v m = bt_insert k ((case bt_get m k of Some vs \<Rightarrow> vs | None \<Rightarrow> []) @ [v]) m"

definition root_tier_path :: "disk \<Rightarrow> reachability_graph \<Rightarrow> path \<times> path \<Rightarrow> reachability_graph" where
  "root_tier_path d g = (\<lambda>(lock, tier_path).
     let canonical = canonicalize_or_keep d tier_path
     in if bt_get (rg_all_entries g) canonical = None then g
        else g\<lparr>rg_roots := bs_insert canonical (rg_roots g),
               rg_roots_attribution := bt_push canonical lock (rg_roots_attribution g)\<rparr>)"

definition pinned_tier_paths :: "file_structure \<Rightarrow> project_root_digests list \<Rightarrow> (path \<times> path) list" where
  "pinned_tier_paths fs project_roots =
     concat (map (\<lambda>project_root.
       concat (map (\<lambda>pinned. [(prd_lock_path project_root, package_path fs pinned), (prd_lock_path project_root, shim_path fs pinned)])
         (prd_digests project_root))) project_roots)"

definition extend_lock_pinned_roots ::
  "disk \<Rightarrow> file_structure \<Rightarrow> project_root_digests list \<Rightarrow> reachability_graph \<Rightarrow> reachability_graph" where
  "extend_lock_pinned_roots d fs project_roots g = foldl (root_tier_path d) g (pinned_tier_paths fs project_roots)"

definition read_manifest_candidate_blob :: "disk \<Rightarrow> path \<Rightarrow> string option" where
  "read_manifest_candidate_blob d p =
     (case read_file d p of
        Inl _ \<Rightarrow> None
      | Inr bytes \<Rightarrow> (if index_manifest_max_bytes < length bytes then None else Some bytes))"

definition index_retention_pairs ::
  "(string \<Rightarrow> 'p manifest option) \<Rightarrow> disk \<Rightarrow> path \<Rightarrow> path \<Rightarrow> path \<Rightarrow> (path \<times> path) list" where
  "index_retention_pairs parse_manifest d data_path blob_dir registry_root =
     (case read_manifest_candidate_blob d data_path of
        None \<Rightarrow> []
      | Some bytes \<Rightarrow>
          (case parse_manifest bytes of
             Some (ImageIndex ix) \<Rightarrow>
               List.map_filter (\<lambda>e. case digest_try_from (e_digest e) of
                   Inl _ \<Rightarrow> None
                 | Inr child \<Rightarrow>
                     Some (canonicalize_or_keep d (registry_root @ cas_shard_path child), canonicalize_or_keep d blob_dir))
                 (ix_manifests ix)
           | _ \<Rightarrow> []))"

definition index_retention_edges ::
  "(string \<Rightarrow> 'p manifest option) \<Rightarrow> disk \<Rightarrow> path list \<Rightarrow> (path \<times> path) list" where
  "index_retention_edges parse_manifest d blob_dirs =
     concat (map (\<lambda>dir.
       if length dir < 3 then []
       else index_retention_pairs parse_manifest d (dir @ [''data'']) dir (take (length dir - 3) dir)) blob_dirs)"

definition add_index_retention_edges ::
  "(string \<Rightarrow> 'p manifest option) \<Rightarrow> disk \<Rightarrow> path list \<Rightarrow> reachability_graph \<Rightarrow> reachability_graph" where
  "add_index_retention_edges parse_manifest d blob_dirs g =
     g\<lparr>rg_edges := foldl (\<lambda>edges (child, ix). bt_push child ix edges) (rg_edges g)
         (index_retention_edges parse_manifest d blob_dirs)\<rparr>"

subsection \<open>Searching the graph\<close>

definition neighbors :: "('a, 'a list) btree_map \<Rightarrow> 'a \<Rightarrow> 'a list" where
  "neighbors edges x = (case bt_get edges x of Some ns \<Rightarrow> ns | None \<Rightarrow> [])"

function bfs_loop :: "('a, 'a list) btree_map \<Rightarrow> 'a list \<Rightarrow> 'a list \<Rightarrow> 'a list" where
  "bfs_loop edges [] reachable = reachable"
| "bfs_loop edges (dir # queue) reachable =
     (if dir \<in> set reachable then bfs_loop edges queue reachable
      else bfs_loop edges (queue @ neighbors edges dir) (dir # reachable))"
  by pat_completeness auto

text \<open>The search that carries the lock file along, for attribution.\<close>

function propagate_loop :: "('a, 'a list) btree_map \<Rightarrow> ('a \<times> 'l) list \<Rightarrow> ('a \<times> 'l) list \<Rightarrow> ('a \<times> 'l) list" where
  "propagate_loop edges [] propagated = propagated"
| "propagate_loop edges ((current, lock) # queue) propagated =
     (if (current, lock) \<in> set propagated then propagate_loop edges queue propagated
      else propagate_loop edges (queue @ map (\<lambda>n. (n, lock)) (neighbors edges current)) ((current, lock) # propagated))"
  by pat_completeness auto

text \<open>
  Both searches end: a node with references leaves the keys still to be seen, a
  node without any shortens the queue.
\<close>

lemma neighbors_empty: "x \<notin> set (bt_keys edges) \<Longrightarrow> neighbors edges x = []"
  by (auto simp: neighbors_def bt_keys_dom simp del: set_map split: option.split)

termination bfs_loop
proof (relation "measures [\<lambda>(edges, queue, seen). card (set (bt_keys edges) - set seen), \<lambda>(edges, queue, seen). length queue]", goal_cases)
  case (3 edges dir queue seen)
  show ?case
  proof (cases "dir \<in> set (bt_keys edges)")
    case True
    then have "card (set (bt_keys edges) - insert dir (set seen)) < card (set (bt_keys edges) - set seen)"
      using 3 by (intro psubset_card_mono) auto
    then show ?thesis by simp
  next
    case False
    then have "set (bt_keys edges) - insert dir (set seen) = set (bt_keys edges) - set seen" by auto
    then show ?thesis using neighbors_empty [OF False] by simp
  qed
qed auto

termination propagate_loop
proof (relation "measures [\<lambda>(edges, queue, seen). card (set (bt_keys edges) \<times> snd ` (set queue \<union> set seen) - set seen), \<lambda>(edges, queue, seen). length queue]", goal_cases)
  case (2 edges current lock queue seen)
  have "card (set (bt_keys edges) \<times> snd ` (set queue \<union> set seen) - set seen)
      \<le> card (set (bt_keys edges) \<times> snd ` (set ((current, lock) # queue) \<union> set seen) - set seen)"
    by (intro card_mono) auto
  then show ?case by (auto simp: less_eq_Suc_le)
next
  case (3 edges current lock queue seen)
  let ?left = "\<lambda>queue seen. set (bt_keys edges) \<times> snd ` (set queue \<union> set seen) - set seen"
  let ?queue = "queue @ map (\<lambda>n. (n, lock)) (neighbors edges current)"
  have sub: "?left ?queue ((current, lock) # seen) \<subseteq> ?left ((current, lock) # queue) seen" by auto
  have fin: "finite (?left ((current, lock) # queue) seen)" by auto
  show ?case
  proof (cases "current \<in> set (bt_keys edges)")
    case True
    then have "(current, lock) \<in> ?left ((current, lock) # queue) seen" using 3 by auto
    then have "?left ?queue ((current, lock) # seen) \<subset> ?left ((current, lock) # queue) seen" using sub by auto
    then show ?thesis using psubset_card_mono [OF fin] by simp
  next
    case False
    then show ?thesis using card_mono [OF fin sub] neighbors_empty [OF False] by (auto simp: less_eq_Suc_le)
  qed
qed auto

text \<open>What a search with a queue and a set of seen nodes returns.\<close>

locale queue_search =
  fixes successors :: "'a \<Rightarrow> 'a list" and search :: "'a list \<Rightarrow> 'a list \<Rightarrow> 'a list"
  assumes search_Nil: "search [] seen = seen"
    and search_Cons: "search (x # queue) seen =
      (if x \<in> set seen then search queue seen else search (queue @ successors x) (x # seen))"
    and search_induct: "\<lbrakk>\<And>seen. P [] seen;
      \<And>x queue seen. (x \<in> set seen \<Longrightarrow> P queue seen) \<Longrightarrow> (x \<notin> set seen \<Longrightarrow> P (queue @ successors x) (x # seen)) \<Longrightarrow> P (x # queue) seen\<rbrakk>
      \<Longrightarrow> P queue seen"
begin

definition step :: "('a \<times> 'a) set" where
  "step = {(x, y). y \<in> set (successors x)}"

lemma search_includes: "set queue \<union> set seen \<subseteq> set (search queue seen)"
  by (induction queue seen rule: search_induct) (auto simp: search_Nil search_Cons)

lemma search_within: "set (search queue seen) \<subseteq> set seen \<union> step\<^sup>* `` set queue"
proof (induction queue seen rule: search_induct)
  case (2 x queue seen)
  show ?case
  proof (cases "x \<in> set seen")
    case True
    then show ?thesis using 2 by (auto simp: search_Cons)
  next
    case False
    have "step\<^sup>* `` set (queue @ successors x) \<subseteq> step\<^sup>* `` set (x # queue)"
      by (auto simp: step_def intro: converse_rtrancl_into_rtrancl)
    moreover have "x \<in> step\<^sup>* `` set (x # queue)" by auto
    moreover have "search (x # queue) seen = search (queue @ successors x) (x # seen)" using False by (simp add: search_Cons)
    moreover have "set (search (queue @ successors x) (x # seen)) \<subseteq> insert x (set seen) \<union> step\<^sup>* `` set (queue @ successors x)"
      using 2(2) [OF False] by simp
    ultimately show ?thesis by (simp only:) blast
  qed
qed (simp add: search_Nil)

lemma search_closed:
  "(\<forall>x \<in> set seen. set (successors x) \<subseteq> set seen \<union> set queue) \<Longrightarrow>
   x \<in> set (search queue seen) \<Longrightarrow> set (successors x) \<subseteq> set (search queue seen)"
proof (induction queue seen rule: search_induct)
  case (2 y queue seen)
  show ?case
  proof (cases "y \<in> set seen")
    case True
    then have "\<forall>x \<in> set seen. set (successors x) \<subseteq> set seen \<union> set queue" using "2.prems"(1) by auto
    then show ?thesis using 2(1) [OF True] "2.prems"(2) True by (simp add: search_Cons)
  next
    case False
    have "\<forall>x \<in> set (y # seen). set (successors x) \<subseteq> set (y # seen) \<union> set (queue @ successors y)" using "2.prems"(1) by auto
    then show ?thesis using 2(2) [OF False] "2.prems"(2) False by (simp add: search_Cons)
  qed
qed (simp add: search_Nil)

theorem search_reaches: "set (search queue []) = step\<^sup>* `` set queue"
proof
  show "set (search queue []) \<subseteq> step\<^sup>* `` set queue" using search_within [of queue "[]"] by simp
  have "y \<in> set (search queue [])" if "(x, y) \<in> step\<^sup>*" "x \<in> set queue" for x y
    using that
  proof induction
    case base
    then show ?case using search_includes [of queue "[]"] by auto
  next
    case (step y z)
    then show ?case using search_closed [of "[]" queue y] by (auto simp: step_def)
  qed
  then show "step\<^sup>* `` set queue \<subseteq> set (search queue [])" by auto
qed

end

interpretation bfs: queue_search "neighbors edges" "bfs_loop edges"
proof unfold_locales
  fix P :: "'a list \<Rightarrow> 'a list \<Rightarrow> bool" and queue seen
  assume "\<And>seen. P [] seen"
    "\<And>x queue seen. (x \<in> set seen \<Longrightarrow> P queue seen) \<Longrightarrow> (x \<notin> set seen \<Longrightarrow> P (queue @ neighbors edges x) (x # seen)) \<Longrightarrow> P (x # queue) seen"
  then show "P queue seen" by (induction edges queue seen rule: bfs_loop.induct) blast+
qed simp_all

interpretation propagate: queue_search "\<lambda>(x, lock). map (\<lambda>n. (n, lock)) (neighbors edges x)" "propagate_loop edges"
proof unfold_locales
  fix P :: "('a \<times> 'b) list \<Rightarrow> ('a \<times> 'b) list \<Rightarrow> bool" and queue seen
  assume "\<And>seen. P [] seen"
    "\<And>x queue seen. (x \<in> set seen \<Longrightarrow> P queue seen) \<Longrightarrow>
      (x \<notin> set seen \<Longrightarrow> P (queue @ (case x of (x, lock) \<Rightarrow> map (\<lambda>n. (n, lock)) (neighbors edges x))) (x # seen)) \<Longrightarrow> P (x # queue) seen"
  then show "P queue seen" by (induction edges queue seen rule: propagate_loop.induct) auto
qed auto

subsection \<open>Building the collector\<close>

text \<open>The lock files behind each pinned object, passed on to what it reaches.\<close>

definition attribute_reached :: "(path, path list) btree_map \<Rightarrow> (path, path list) btree_map \<Rightarrow> (path, path list) btree_map" where
  "attribute_reached edges attribution =
     (let seeds = concat (map (\<lambda>(root, locks). map (\<lambda>lock. (root, lock)) locks) attribution);
          propagated = propagate_loop edges seeds []
      in foldl (\<lambda>m (node, lock). if node \<in> fst ` set seeds then m else bt_push node lock m) attribution propagated)"

definition build_graph ::
  "(string \<Rightarrow> 'p manifest option) \<Rightarrow> disk \<Rightarrow> file_structure \<Rightarrow> project_root_digests list \<Rightarrow>
   path list \<Rightarrow> path list \<Rightarrow> path list \<Rightarrow> path list \<Rightarrow> reachability_graph" where
  "build_graph parse_manifest d fs project_roots package_dirs layer_dirs blob_dirs shim_dirs =
     (let g = scan_shims d fs shim_dirs (scan_plain d TierBlob blob_dirs (scan_plain d TierLayer layer_dirs (scan_packages d fs package_dirs)));
          g = add_index_retention_edges parse_manifest d blob_dirs (extend_lock_pinned_roots d fs project_roots g)
      in g\<lparr>rg_roots_attribution := attribute_reached (rg_edges g) (rg_roots_attribution g)\<rparr>)"

text \<open>\<open>ReachabilityGraph::build\<close>\<close>

definition graph_build ::
  "(string \<Rightarrow> 'p manifest option) \<Rightarrow> file_structure \<Rightarrow> project_root_digests list \<Rightarrow> (disk, file_error, reachability_graph) op" where
  "graph_build parse_manifest fs project_roots =
     op_bind (list_packages fs) (\<lambda>package_dirs.
     op_bind (list_layers fs) (\<lambda>layer_dirs.
     op_bind (list_blobs fs) (\<lambda>blob_dirs.
     op_bind (list_shims fs) (\<lambda>shim_dirs d.
       Some (Inr (build_graph parse_manifest d fs project_roots package_dirs layer_dirs blob_dirs shim_dirs), d)))))"

definition graph_bfs :: "disk \<Rightarrow> reachability_graph \<Rightarrow> path list \<Rightarrow> path list" where
  "graph_bfs d g starts = bfs_loop (rg_edges g) (map (canonicalize_or_keep d) starts) []"

definition graph_reachable :: "disk \<Rightarrow> reachability_graph \<Rightarrow> path list" where
  "graph_reachable d g = graph_bfs d g (rg_roots g)"

record site_patch_roots =
  spr_companions :: "pinned_package_ref list"
  spr_descriptors :: "(string \<times> digest) list"
  spr_descriptor_pins :: "(string \<times> digest) list"

definition seed_root :: "disk \<Rightarrow> path \<Rightarrow> reachability_graph \<Rightarrow> reachability_graph" where
  "seed_root d raw_path g =
     (let canonical = canonicalize_or_keep d raw_path
      in if bt_get (rg_all_entries g) canonical \<noteq> None then g\<lparr>rg_roots := bs_insert canonical (rg_roots g)\<rparr> else g)"

text \<open>\<open>GarbageCollector::build\<close>\<close>

definition collector_build ::
  "(string \<Rightarrow> 'p manifest option) \<Rightarrow> file_structure \<Rightarrow> project_root_digests list \<Rightarrow> site_patch_roots \<Rightarrow>
   (disk, file_error, reachability_graph) op" where
  "collector_build parse_manifest fs project_roots patch_roots =
     op_bind (graph_build parse_manifest fs project_roots) (\<lambda>g d.
       Some (Inr (foldl (\<lambda>g raw_path. seed_root d raw_path g) g
         (map (package_path fs) (spr_companions patch_roots) @ map (\<lambda>(registry, dg). blob_path fs registry dg) (spr_descriptors patch_roots))), d))"

subsection \<open>Collecting\<close>

definition unreachable_objects :: "disk \<Rightarrow> reachability_graph \<Rightarrow> path btree_set" where
  "unreachable_objects d g =
     (let reachable = graph_reachable d g
      in bs_collect (filter (\<lambda>p. p \<notin> set reachable) (bt_keys (rg_all_entries g))))"

definition orphaned_by_seeds :: "disk \<Rightarrow> reachability_graph \<Rightarrow> path list \<Rightarrow> path btree_set" where
  "orphaned_by_seeds d g seeds =
     (let with_seeds = graph_bfs d g (rg_roots g @ seeds);
          without_seeds = graph_bfs d g (filter (\<lambda>r. r \<notin> set seeds) (rg_roots g))
      in bs_collect (filter (\<lambda>p. p \<notin> set without_seeds \<and> bt_get (rg_all_entries g) p \<noteq> None) with_seeds))"

fun delete_each :: "bool \<Rightarrow> path list \<Rightarrow> path list \<Rightarrow> (disk, file_error, path list) op" where
  "delete_each dry_run [] removed = op_return removed"
| "delete_each dry_run (target # targets) removed =
     (if dry_run then delete_each dry_run targets (removed @ [target])
      else op_match (syscall (remove_dir_all target))
        (\<lambda>_. delete_each dry_run targets (removed @ [target]))
        (\<lambda>e. case e of
               IoNotFound \<Rightarrow> delete_each dry_run targets (removed @ [target])
             | _ \<Rightarrow> op_fail (FileError target e)))"

definition delete_objects :: "path btree_set \<Rightarrow> bool \<Rightarrow> (disk, file_error, path list) op" where
  "delete_objects targets dry_run =
     (if targets = [] then op_return [] else delete_each dry_run (sort targets) [])"

definition purge_objects :: "reachability_graph \<Rightarrow> path list \<Rightarrow> (disk, file_error, path list) op" where
  "purge_objects g obj_dirs = (\<lambda>d. delete_objects (orphaned_by_seeds d g obj_dirs) False d)"

subsection \<open>What the graph holds\<close>

lemma bt_push_get: "bt_get (bt_push k v m) x = (if x = k then Some (neighbors m k @ [v]) else bt_get m x)"
  by (simp add: bt_push_def neighbors_def)

lemma neighbors_push: "neighbors (bt_push k v m) x = (if x = k then neighbors m k @ [v] else neighbors m x)"
  by (simp add: neighbors_def bt_push_get split: option.split)

lemma neighbors_pushes:
  "y \<in> set (neighbors (foldl (\<lambda>edges (c, i). bt_push c i edges) m pairs) x) \<longleftrightarrow> y \<in> set (neighbors m x) \<or> (x, y) \<in> set pairs"
proof (induction pairs arbitrary: m)
  case (Cons pair pairs)
  obtain c i where pair: "pair = (c, i)" by (cases pair)
  have "y \<in> set (neighbors (bt_push c i m) x) \<longleftrightarrow> y \<in> set (neighbors m x) \<or> (x, y) = (c, i)"
    by (auto simp: neighbors_push)
  then show ?case using Cons.IH [of "bt_push c i m"] unfolding pair by simp
qed simp

abbreviation canon :: "disk \<Rightarrow> path \<Rightarrow> path" where
  "canon \<equiv> canonicalize_or_keep"

lemma scan_packages_snoc:
  "scan_packages d fs (dirs @ [dir]) =
     (let g = scan_packages d fs dirs
      in g\<lparr>rg_roots := (if has_live_refs d (canon d dir) then bs_insert (canon d dir) (rg_roots g) else rg_roots g),
           rg_edges := bt_insert (canon d dir) (package_refs d fs dir) (rg_edges g),
           rg_all_entries := bt_insert (canon d dir) TierPackage (rg_all_entries g)\<rparr>)"
  by (simp add: scan_packages_def Let_def)

lemma scan_packages_facts:
  "set (bt_keys (rg_all_entries (scan_packages d fs dirs))) = canon d ` set dirs"
  "set (rg_roots (scan_packages d fs dirs)) = {x \<in> canon d ` set dirs. has_live_refs d x}"
  "rg_roots_attribution (scan_packages d fs dirs) = []"
  by (induction dirs rule: rev_induct, simp add: scan_packages_def, auto simp: scan_packages_snoc Let_def simp del: set_map)+

lemma scan_packages_edges:
  "inj_on (canon d) (set dirs) \<Longrightarrow>
   y \<in> set (neighbors (rg_edges (scan_packages d fs dirs)) x) \<longleftrightarrow> (\<exists>dir \<in> set dirs. canon d dir = x \<and> y \<in> set (package_refs d fs dir))"
proof (induction dirs rule: rev_induct)
  case Nil
  then show ?case by (simp add: scan_packages_def neighbors_def)
next
  case (snoc dir dirs)
  then have IH: "y \<in> set (neighbors (rg_edges (scan_packages d fs dirs)) x) \<longleftrightarrow> (\<exists>dir \<in> set dirs. canon d dir = x \<and> y \<in> set (package_refs d fs dir))"
    by (simp add: inj_on_def)
  have "rg_edges (scan_packages d fs (dirs @ [dir])) = bt_insert (canon d dir) (package_refs d fs dir) (rg_edges (scan_packages d fs dirs))"
    by (simp add: scan_packages_def Let_def)
  then have "neighbors (rg_edges (scan_packages d fs (dirs @ [dir]))) x =
      (if x = canon d dir then package_refs d fs dir else neighbors (rg_edges (scan_packages d fs dirs)) x)"
    by (simp add: neighbors_def)
  moreover have "dir' = dir" if "dir' \<in> set dirs" "canon d dir' = canon d dir" for dir'
    using snoc.prems that by (auto simp: inj_on_def)
  ultimately show ?case using IH by auto
qed

lemma scan_plain_snoc:
  "scan_plain d tier (dirs @ [dir]) g =
     scan_plain d tier dirs g\<lparr>rg_all_entries := bt_insert (canon d dir) tier (rg_all_entries (scan_plain d tier dirs g))\<rparr>"
  by (simp add: scan_plain_def)

lemma scan_plain_facts:
  "set (bt_keys (rg_all_entries (scan_plain d tier dirs g))) = set (bt_keys (rg_all_entries g)) \<union> canon d ` set dirs"
  "rg_roots (scan_plain d tier dirs g) = rg_roots g" "rg_edges (scan_plain d tier dirs g) = rg_edges g"
  "rg_roots_attribution (scan_plain d tier dirs g) = rg_roots_attribution g"
  by (induction dirs rule: rev_induct, simp add: scan_plain_def, auto simp: scan_plain_snoc simp del: set_map)+

lemma scan_shims_snoc:
  "scan_shims d fs (dirs @ [dir]) g =
     (let h = scan_shims d fs dirs g
      in h\<lparr>rg_edges := bt_insert (canon d dir) (shim_refs d fs dir) (rg_edges h),
           rg_all_entries := bt_insert (canon d dir) TierShim (rg_all_entries h)\<rparr>)"
  by (simp add: scan_shims_def Let_def)

lemma scan_shims_facts:
  "set (bt_keys (rg_all_entries (scan_shims d fs dirs g))) = set (bt_keys (rg_all_entries g)) \<union> canon d ` set dirs"
  "rg_roots (scan_shims d fs dirs g) = rg_roots g"
  "rg_roots_attribution (scan_shims d fs dirs g) = rg_roots_attribution g"
  by (induction dirs rule: rev_induct, simp add: scan_shims_def, auto simp: scan_shims_snoc Let_def simp del: set_map)+

lemma scan_shims_edges:
  "inj_on (canon d) (set dirs) \<Longrightarrow> (\<forall>dir \<in> set dirs. neighbors (rg_edges g) (canon d dir) = []) \<Longrightarrow>
   y \<in> set (neighbors (rg_edges (scan_shims d fs dirs g)) x) \<longleftrightarrow>
     y \<in> set (neighbors (rg_edges g) x) \<or> (\<exists>dir \<in> set dirs. canon d dir = x \<and> y \<in> set (shim_refs d fs dir))"
proof (induction dirs rule: rev_induct)
  case Nil
  then show ?case by (simp add: scan_shims_def)
next
  case (snoc dir dirs)
  then have IH: "y \<in> set (neighbors (rg_edges (scan_shims d fs dirs g)) x) \<longleftrightarrow>
     y \<in> set (neighbors (rg_edges g) x) \<or> (\<exists>dir \<in> set dirs. canon d dir = x \<and> y \<in> set (shim_refs d fs dir))"
    by (simp add: inj_on_def)
  have "rg_edges (scan_shims d fs (dirs @ [dir]) g) = bt_insert (canon d dir) (shim_refs d fs dir) (rg_edges (scan_shims d fs dirs g))"
    by (simp add: scan_shims_def Let_def)
  then have "neighbors (rg_edges (scan_shims d fs (dirs @ [dir]) g)) x =
      (if x = canon d dir then shim_refs d fs dir else neighbors (rg_edges (scan_shims d fs dirs g)) x)"
    by (simp add: neighbors_def)
  moreover have "dir' = dir" if "dir' \<in> set dirs" "canon d dir' = canon d dir" for dir'
    using snoc.prems(1) that by (auto simp: inj_on_def)
  moreover have "neighbors (rg_edges g) (canon d dir) = []" using snoc.prems(2) by simp
  ultimately show ?case using IH by auto
qed

lemma in_keys_iff: "x \<in> set (bt_keys m) \<longleftrightarrow> bt_get m x \<noteq> None"
  by (auto simp: bt_keys_dom simp del: set_map)

lemma root_tier_paths_same:
  "rg_all_entries (foldl (root_tier_path d) g pins) = rg_all_entries g"
  "rg_edges (foldl (root_tier_path d) g pins) = rg_edges g"
  by (induction pins arbitrary: g, auto simp: root_tier_path_def Let_def)+

lemma root_tier_paths_roots:
  "set (rg_roots (foldl (root_tier_path d) g pins)) =
     set (rg_roots g) \<union> {x. bt_get (rg_all_entries g) x \<noteq> None \<and> (\<exists>lock p. (lock, p) \<in> set pins \<and> canon d p = x)}"
proof (induction pins arbitrary: g)
  case (Cons pin pins)
  obtain lock p where pin: "pin = (lock, p)" by (cases pin)
  have "rg_all_entries (root_tier_path d g pin) = rg_all_entries g"
    "set (rg_roots (root_tier_path d g pin)) = set (rg_roots g) \<union> {x. x = canon d p \<and> bt_get (rg_all_entries g) x \<noteq> None}"
    by (auto simp: root_tier_path_def pin Let_def)
  then show ?case using Cons.IH [of "root_tier_path d g pin"] by (auto simp: pin)
qed simp

lemma root_tier_paths_attribution:
  "lock \<in> set (neighbors (rg_roots_attribution (foldl (root_tier_path d) g pins)) x) \<longleftrightarrow>
     lock \<in> set (neighbors (rg_roots_attribution g) x) \<or>
     bt_get (rg_all_entries g) x \<noteq> None \<and> (\<exists>p. (lock, p) \<in> set pins \<and> canon d p = x)"
proof (induction pins arbitrary: g)
  case (Cons pin pins)
  obtain l p where pin: "pin = (l, p)" by (cases pin)
  have "rg_all_entries (root_tier_path d g pin) = rg_all_entries g"
    "lock \<in> set (neighbors (rg_roots_attribution (root_tier_path d g pin)) x) \<longleftrightarrow>
       lock \<in> set (neighbors (rg_roots_attribution g) x) \<or> bt_get (rg_all_entries g) x \<noteq> None \<and> lock = l \<and> canon d p = x"
    by (auto simp: root_tier_path_def pin Let_def neighbors_push)
  then show ?case using Cons.IH [of "root_tier_path d g pin"] by (auto simp: pin)
qed simp

text \<open>The references an entry has, and which entries are roots, straight from the disk.\<close>

definition entry_refs ::
  "(string \<Rightarrow> 'p manifest option) \<Rightarrow> disk \<Rightarrow> file_structure \<Rightarrow> path list \<Rightarrow> path list \<Rightarrow> path list \<Rightarrow> path \<Rightarrow> path \<Rightarrow> bool" where
  "entry_refs parse_manifest d fs package_dirs blob_dirs shim_dirs x y \<longleftrightarrow>
     (\<exists>dir \<in> set package_dirs. canon d dir = x \<and> y \<in> set (package_refs d fs dir)) \<or>
     (\<exists>dir \<in> set shim_dirs. canon d dir = x \<and> y \<in> set (shim_refs d fs dir)) \<or>
     (x, y) \<in> set (index_retention_edges parse_manifest d blob_dirs)"

lemma build_graph_entries:
  "set (bt_keys (rg_all_entries (build_graph parse_manifest d fs project_roots package_dirs layer_dirs blob_dirs shim_dirs))) =
     canon d ` (set package_dirs \<union> set layer_dirs \<union> set blob_dirs \<union> set shim_dirs)"
  by (simp add: build_graph_def Let_def add_index_retention_edges_def extend_lock_pinned_roots_def root_tier_paths_same
      scan_packages_facts scan_plain_facts scan_shims_facts image_Un del: set_map)

lemma build_graph_roots:
  "set (rg_roots (build_graph parse_manifest d fs project_roots package_dirs layer_dirs blob_dirs shim_dirs)) =
     {x \<in> canon d ` set package_dirs. has_live_refs d x} \<union>
     {x \<in> canon d ` (set package_dirs \<union> set layer_dirs \<union> set blob_dirs \<union> set shim_dirs).
        \<exists>lock p. (lock, p) \<in> set (pinned_tier_paths fs project_roots) \<and> canon d p = x}"
proof -
  have "set (rg_roots (build_graph parse_manifest d fs project_roots package_dirs layer_dirs blob_dirs shim_dirs)) =
      {x \<in> canon d ` set package_dirs. has_live_refs d x} \<union>
      {x. x \<in> set (bt_keys (rg_all_entries (build_graph parse_manifest d fs project_roots package_dirs layer_dirs blob_dirs shim_dirs))) \<and>
        (\<exists>lock p. (lock, p) \<in> set (pinned_tier_paths fs project_roots) \<and> canon d p = x)}"
    unfolding in_keys_iff
    by (simp add: build_graph_def Let_def add_index_retention_edges_def extend_lock_pinned_roots_def root_tier_paths_same
        root_tier_paths_roots scan_packages_facts scan_plain_facts scan_shims_facts)
  then show ?thesis unfolding build_graph_entries by blast
qed

lemma build_graph_edges:
  assumes "inj_on (canon d) (set package_dirs \<union> set shim_dirs)" "set package_dirs \<inter> set shim_dirs = {}"
  shows "y \<in> set (neighbors (rg_edges (build_graph parse_manifest d fs project_roots package_dirs layer_dirs blob_dirs shim_dirs)) x)
    \<longleftrightarrow> entry_refs parse_manifest d fs package_dirs blob_dirs shim_dirs x y"
proof -
  let ?g = "scan_plain d TierBlob blob_dirs (scan_plain d TierLayer layer_dirs (scan_packages d fs package_dirs))"
  have inj: "inj_on (canon d) (set package_dirs)" "inj_on (canon d) (set shim_dirs)"
    using assms(1) by (auto intro: inj_on_subset)
  have pkgs: "y \<in> set (neighbors (rg_edges ?g) x) \<longleftrightarrow> (\<exists>dir \<in> set package_dirs. canon d dir = x \<and> y \<in> set (package_refs d fs dir))" for x y
    using scan_packages_edges [OF inj(1)] by (simp add: scan_plain_facts)
  have "neighbors (rg_edges ?g) (canon d dir) = []" if dir: "dir \<in> set shim_dirs" for dir
  proof -
    have "\<nexists>dir'. dir' \<in> set package_dirs \<and> canon d dir' = canon d dir"
      using assms dir by (fastforce simp: inj_on_def)
    then show ?thesis using pkgs [of _ "canon d dir"] by (metis last_in_set)
  qed
  then have "y \<in> set (neighbors (rg_edges (scan_shims d fs shim_dirs ?g)) x) \<longleftrightarrow>
      (\<exists>dir \<in> set package_dirs. canon d dir = x \<and> y \<in> set (package_refs d fs dir)) \<or>
      (\<exists>dir \<in> set shim_dirs. canon d dir = x \<and> y \<in> set (shim_refs d fs dir))"
    using scan_shims_edges [OF inj(2), of ?g] pkgs by simp
  then show ?thesis
    by (simp add: build_graph_def Let_def add_index_retention_edges_def extend_lock_pinned_roots_def root_tier_paths_same
        neighbors_pushes entry_refs_def)
qed

subsection \<open>Objects lie apart\<close>

fun tier_name :: "cas_tier \<Rightarrow> string" where
  "tier_name TierPackage = ''packages''"
| "tier_name TierLayer = ''layers''"
| "tier_name TierBlob = ''blobs''"
| "tier_name TierShim = ''shims''"

fun tier_listing :: "cas_tier \<Rightarrow> file_structure \<Rightarrow> (disk, file_error, path list) op" where
  "tier_listing TierPackage fs = list_packages fs"
| "tier_listing TierLayer fs = list_layers fs"
| "tier_listing TierBlob fs = list_blobs fs"
| "tier_listing TierShim fs = list_shims fs"

lemmas list_tier_defs = list_packages_def list_layers_def list_blobs_def list_shims_def

text \<open>
  \<open>$OCX_HOME\<close> may be reached through links, but the four stores in it are
  directories of it, not links.
\<close>

definition store_ok :: "disk \<Rightarrow> path \<Rightarrow> bool" where
  "store_ok d home \<longleftrightarrow>
     (\<forall>R tier target. canonicalize d home = Inr R \<longrightarrow> node_at d (R @ [tier_name tier]) \<noteq> Some (LinkNode target))"

lemma tier_listing_store:
  "\<exists>classify max_depth. tier_listing tier (with_root home) = list_store classify max_depth (home @ [tier_name tier]) \<and> yields_itself classify"
  by (cases tier) (auto simp: list_tier_defs with_root_def)

lemma tier_root_no_object: "\<not> is_valid_cas_path (home @ [tier_name tier])"
  by (cases tier) (simp_all add: store_root_no_object)

lemma tier_listing_returns: "\<exists>r. tier_listing tier (with_root home) d = Some (r, d)"
  using tier_listing_store [of tier home] list_store_returns by metis

lemma tier_entry:
  assumes "store_ok d home" "tier_listing tier (with_root home) d = Some (Inr dirs, d')"
  shows "d' = d"
    "dir \<in> set dirs \<Longrightarrow> \<exists>R below. canonicalize d home = Inr R \<and> dir = home @ [tier_name tier] @ below \<and> below \<noteq> [] \<and>
      canonicalize d dir = Inr (R @ [tier_name tier] @ below) \<and> real_path d (R @ [tier_name tier] @ below) \<and>
      node_at d (R @ [tier_name tier] @ below) = Some DirNode"
proof -
  obtain classify max_depth where list: "tier_listing tier (with_root home) = list_store classify max_depth (home @ [tier_name tier])"
    "yields_itself classify"
    using tier_listing_store by blast
  note facts = list_store_entry [OF assms(2) [unfolded list(1)] list(2) tier_root_no_object]
  show "d' = d" by (rule facts(1))
  assume "dir \<in> set dirs"
  from facts(2) [OF this] obtain Rt below where Rt: "canonicalize d (home @ [tier_name tier]) = Inr Rt" "below \<noteq> []"
    "dir = (home @ [tier_name tier]) @ below" "canonicalize d dir = Inr (Rt @ below)" "real_path d (Rt @ below)" "node_at d (Rt @ below) = Some DirNode"
    by blast
  from Rt(1) obtain R where "canonicalize d home = Inr R" "(\<forall>t. node_at d (R @ [tier_name tier]) \<noteq> Some (LinkNode t)) \<longrightarrow> Rt = R @ [tier_name tier]"
    by (blast elim: canonicalize_snoc)
  then have "canonicalize d home = Inr R" "Rt = R @ [tier_name tier]" using assms(1) by (auto simp: store_ok_def)
  then show "\<exists>R below. canonicalize d home = Inr R \<and> dir = home @ [tier_name tier] @ below \<and> below \<noteq> [] \<and>
      canonicalize d dir = Inr (R @ [tier_name tier] @ below) \<and> real_path d (R @ [tier_name tier] @ below) \<and>
      node_at d (R @ [tier_name tier] @ below) = Some DirNode"
    using Rt by auto
qed

lemma tier_name_inject: "tier_name a = tier_name b \<longleftrightarrow> a = b"
  by (cases a; cases b) simp_all

text \<open>An object: a directory some store lists, by its canonical path.\<close>

definition object_at :: "disk \<Rightarrow> path \<Rightarrow> cas_tier \<Rightarrow> path \<Rightarrow> bool" where
  "object_at d home tier x \<longleftrightarrow>
     (\<exists>dirs dir. tier_listing tier (with_root home) d = Some (Inr dirs, d) \<and> dir \<in> set dirs \<and> canonicalize d dir = Inr x)"

lemma object_real:
  assumes "store_ok d home" "object_at d home tier x"
  shows "real_path d x" "node_at d x = Some DirNode" "x \<noteq> []"
proof -
  obtain dirs dir where "tier_listing tier (with_root home) d = Some (Inr dirs, d)" "dir \<in> set dirs" "canonicalize d dir = Inr x"
    using assms(2) by (auto simp: object_at_def)
  with tier_entry(2) [OF assms(1) this(1,2)] show "real_path d x" "node_at d x = Some DirNode" "x \<noteq> []" by auto
qed

lemma objects_apart:
  assumes "store_ok d home" "object_at d home t x" "object_at d home u y" "prefix x y"
  shows "x = y" "t = u"
proof -
  obtain ds a where a: "tier_listing t (with_root home) d = Some (Inr ds, d)" "a \<in> set ds" "canonicalize d a = Inr x"
    using assms(2) by (auto simp: object_at_def)
  obtain es b where b: "tier_listing u (with_root home) d = Some (Inr es, d)" "b \<in> set es" "canonicalize d b = Inr y"
    using assms(3) by (auto simp: object_at_def)
  obtain R p where p: "canonicalize d home = Inr R" "x = R @ [tier_name t] @ p"
    using tier_entry(2) [OF assms(1) a(1,2)] a(3) by auto
  obtain q where q: "y = R @ [tier_name u] @ q"
    using tier_entry(2) [OF assms(1) b(1,2)] b(3) p(1) by auto
  have "tier_name t = tier_name u" using assms(4) p(2) q by simp
  then show "t = u" by (simp add: tier_name_inject)
  then have "b \<in> set ds" using a(1) b(1,2) by simp
  moreover obtain classify max_depth where list: "tier_listing t (with_root home) = list_store classify max_depth (home @ [tier_name t])"
    "yields_itself classify"
    using tier_listing_store by blast
  ultimately have "a = b"
    using list_store_apart [OF a(1) [unfolded list(1)] list(2) tier_root_no_object a(2) _ a(3) b(3) assms(4)] by blast
  then show "x = y" using a(3) b(3) by simp
qed

subsection \<open>Deleting\<close>

lemma place_real:
  assumes "real_path d t" "t \<noteq> []"
  shows "place d t = Inr t"
proof -
  have t: "t = butlast t @ [last t]" using assms(2) by simp
  then have "real_path d (butlast t)" "node_at d (butlast t) = Some DirNode" "butlast t \<notin> set (denied d)"
    using assms(1) real_path_snoc [of d "butlast t" "last t"] by auto
  then show ?thesis using assms(2) by (simp add: place_def)
qed

lemma real_path_drop:
  assumes "real_path d p" "\<forall>q. prefix q p \<longrightarrow> \<not> gone q"
  shows "real_path (drop_nodes gone d) p"
  using assms unfolding real_path_def by (auto simp: node_at_drop strict_prefix_def)

text \<open>Deleting objects that lie apart removes them with all they hold, and touches nothing else.\<close>

lemma delete_each_exact:
  assumes "delete_each False targets removed d = Some (Inr out, d')"
    "\<forall>t \<in> set targets. real_path d t \<and> node_at d t = Some DirNode \<and> t \<noteq> []"
    "\<forall>t \<in> set targets. \<forall>u \<in> set targets. prefix t u \<longrightarrow> t = u" "distinct targets"
  shows "out = removed @ targets \<and> denied d' = denied d \<and>
    (\<forall>k. node_at d' k = (if \<exists>t \<in> set targets. prefix t k then None else node_at d k))"
  using assms
proof (induction targets arbitrary: removed d)
  case Nil
  then show ?case by (simp add: op_return_def)
next
  case (Cons t ts)
  have real: "real_path d t" "node_at d t = Some DirNode" "t \<noteq> []" using Cons.prems(2) by auto
  have place: "place d t = Inr t" by (rule place_real [OF real(1,3)])
  show ?case
  proof (cases "list_ex (prefix t) (denied d)")
    case True
    then have "remove_dir_all t d = Inl IoDenied" using place real(2) by (simp add: remove_dir_all_def)
    then have "delete_each False (t # ts) removed d = Some (Inl (FileError t IoDenied), d)"
      by (simp add: op_match_def syscall_def op_fail_def)
    then show ?thesis using Cons.prems(1) by simp
  next
    case False
    let ?d = "drop_nodes (prefix t) d"
    have "remove_dir_all t d = Inr ?d" using place real(2) False by (simp add: remove_dir_all_def)
    then have rest: "delete_each False ts (removed @ [t]) ?d = Some (Inr out, d')"
      using Cons.prems(1) by (simp add: op_match_def syscall_def)
    have keep: "\<not> prefix t q" if "u \<in> set ts" "prefix q u" for q u
      using that Cons.prems(3,4) by (metis distinct.simps(2) list.set_intros(1,2) prefix_order.trans)
    have "\<forall>u \<in> set ts. real_path ?d u \<and> node_at ?d u = Some DirNode \<and> u \<noteq> []"
      using Cons.prems(2) keep by (auto simp: node_at_drop intro!: real_path_drop)
    then have "out = (removed @ [t]) @ ts \<and> denied d' = denied ?d \<and>
      (\<forall>k. node_at d' k = (if \<exists>u \<in> set ts. prefix u k then None else node_at ?d k))"
      using Cons.prems(3,4) by (intro Cons.IH [OF rest]) auto
    then show ?thesis using real(3) by (auto simp: node_at_drop)
  qed
qed

subsection \<open>The graph of a disk\<close>

lemma canon_Inr [simp]: "canonicalize d p = Inr q \<Longrightarrow> canon d p = q"
  by (simp add: canonicalize_or_keep_def)

lemma canon_real [simp]: "real_path d p \<Longrightarrow> canon d p = p"
  by simp

lemma tier_listing_objects:
  assumes "store_ok d home" "tier_listing tier (with_root home) d = Some (Inr dirs, d')"
  shows "d' = d" "canon d ` set dirs = {x. object_at d home tier x}" "inj_on (canon d) (set dirs)"
proof -
  show same: "d' = d" by (rule tier_entry(1) [OF assms])
  have ok: "\<exists>x. canonicalize d dir = Inr x" if "dir \<in> set dirs" for dir
    using tier_entry(2) [OF assms that] by auto
  then show "canon d ` set dirs = {x. object_at d home tier x}"
    using assms(2) same by (force simp: object_at_def)
  obtain classify max_depth where list: "tier_listing tier (with_root home) = list_store classify max_depth (home @ [tier_name tier])"
    "yields_itself classify"
    using tier_listing_store by blast
  show "inj_on (canon d) (set dirs)"
  proof (rule inj_onI)
    fix a b assume "a \<in> set dirs" "b \<in> set dirs" "canon d a = canon d b"
    moreover from this obtain x where "canonicalize d a = Inr x" "canonicalize d b = Inr x" using ok by (metis canon_Inr)
    ultimately show "a = b"
      using list_store_apart [OF assms(2) [unfolded list(1)] list(2) tier_root_no_object] by blast
  qed
qed

lemma seed_roots_same:
  "rg_all_entries (foldl (\<lambda>g raw_path. seed_root d raw_path g) h raws) = rg_all_entries h"
  "rg_edges (foldl (\<lambda>g raw_path. seed_root d raw_path g) h raws) = rg_edges h"
  by (induction raws arbitrary: h, auto simp: seed_root_def Let_def)+

lemma seed_roots_roots:
  "set (rg_roots (foldl (\<lambda>g raw_path. seed_root d raw_path g) h raws)) =
     set (rg_roots h) \<union> {x \<in> set (bt_keys (rg_all_entries h)). x \<in> canon d ` set raws}"
proof (induction raws arbitrary: h)
  case (Cons raw raws)
  have "rg_all_entries (seed_root d raw h) = rg_all_entries h"
    "set (rg_roots (seed_root d raw h)) = set (rg_roots h) \<union> {x \<in> set (bt_keys (rg_all_entries h)). x = canon d raw}"
    by (auto simp: seed_root_def Let_def in_keys_iff simp del: set_map)
  then show ?case using Cons.IH [of "seed_root d raw h"] by (auto simp del: set_map)
qed simp

lemma listing_bind:
  assumes "op_bind (tier_listing tier (with_root home)) f d = Some (Inr a, d')"
  obtains dirs where "tier_listing tier (with_root home) d = Some (Inr dirs, d)" "f dirs d = Some (Inr a, d')"
  using assms tier_listing_returns [of tier home d] by (auto simp: op_bind_def split: sum.splits)

lemma collector_build_cases:
  assumes "collector_build parse_manifest (with_root home) project_roots patch_roots d = Some (Inr g, d')"
  obtains ps ls bs ss where "tier_listing TierPackage (with_root home) d = Some (Inr ps, d)" "tier_listing TierLayer (with_root home) d = Some (Inr ls, d)"
    "tier_listing TierBlob (with_root home) d = Some (Inr bs, d)" "tier_listing TierShim (with_root home) d = Some (Inr ss, d)" "d' = d"
    "g = foldl (\<lambda>g raw_path. seed_root d raw_path g) (build_graph parse_manifest d (with_root home) project_roots ps ls bs ss)
      (map (package_path (with_root home)) (spr_companions patch_roots)
       @ map (\<lambda>(registry, dg). blob_path (with_root home) registry dg) (spr_descriptors patch_roots))"
proof (cases rule: op_bind_Some_cases [OF assms [unfolded collector_build_def]])
  case (1 e)
  then show ?thesis by simp
next
  case (2 b d1)
  note b = 2(1) and after = 2(2)
  note ops = tier_listing.simps [symmetric]
  from b obtain ps where ps: "tier_listing TierPackage (with_root home) d = Some (Inr ps, d)"
    and b1: "op_bind (list_layers (with_root home)) (\<lambda>layer_dirs. op_bind (list_blobs (with_root home)) (\<lambda>blob_dirs.
     op_bind (list_shims (with_root home)) (\<lambda>shim_dirs d.
       Some (Inr (build_graph parse_manifest d (with_root home) project_roots ps layer_dirs blob_dirs shim_dirs), d)))) d = Some (Inr b, d1)"
    unfolding graph_build_def ops(1) by (rule listing_bind)
  from b1 obtain ls where ls: "tier_listing TierLayer (with_root home) d = Some (Inr ls, d)"
    and b2: "op_bind (list_blobs (with_root home)) (\<lambda>blob_dirs. op_bind (list_shims (with_root home)) (\<lambda>shim_dirs d.
       Some (Inr (build_graph parse_manifest d (with_root home) project_roots ps ls blob_dirs shim_dirs), d))) d = Some (Inr b, d1)"
    unfolding ops(2) by (rule listing_bind)
  from b2 obtain bs where bs: "tier_listing TierBlob (with_root home) d = Some (Inr bs, d)"
    and b3: "op_bind (list_shims (with_root home)) (\<lambda>shim_dirs d.
       Some (Inr (build_graph parse_manifest d (with_root home) project_roots ps ls bs shim_dirs), d)) d = Some (Inr b, d1)"
    unfolding ops(3) by (rule listing_bind)
  from b3 obtain ss where ss: "tier_listing TierShim (with_root home) d = Some (Inr ss, d)"
    and b4: "Some (Inr (build_graph parse_manifest d (with_root home) project_roots ps ls bs ss), d) = Some (Inr b, d1)"
    unfolding ops(4) by (rule listing_bind) blast
  have eqs: "b = build_graph parse_manifest d (with_root home) project_roots ps ls bs ss" "d1 = d" using b4 by auto
  show ?thesis
  proof (rule that [OF ps ls bs ss])
    show "d' = d" using after eqs(2) by (simp only: option.inject prod.inject)
    show "g = foldl (\<lambda>g raw_path. seed_root d raw_path g) (build_graph parse_manifest d (with_root home) project_roots ps ls bs ss)
      (map (package_path (with_root home)) (spr_companions patch_roots)
       @ map (\<lambda>(registry, dg). blob_path (with_root home) registry dg) (spr_descriptors patch_roots))"
      using after unfolding eqs by (simp only: option.inject prod.inject sum.inject) blast
  qed
qed

lemma collector_build_facts:
  assumes "store_ok d home" "collector_build parse_manifest (with_root home) project_roots patch_roots d = Some (Inr g, d')"
  obtains package_dirs blob_dirs shim_dirs where "d' = d"
    "list_packages (with_root home) d = Some (Inr package_dirs, d)" "list_blobs (with_root home) d = Some (Inr blob_dirs, d)"
    "list_shims (with_root home) d = Some (Inr shim_dirs, d)"
    "set (bt_keys (rg_all_entries g)) = {x. \<exists>tier. object_at d home tier x}"
    "\<And>x y. y \<in> set (neighbors (rg_edges g) x) \<longleftrightarrow> entry_refs parse_manifest d (with_root home) package_dirs blob_dirs shim_dirs x y"
    "set (rg_roots g) = {x. object_at d home TierPackage x \<and> has_live_refs d x} \<union>
      {x. (\<exists>tier. object_at d home tier x) \<and>
        ((\<exists>lock p. (lock, p) \<in> set (pinned_tier_paths (with_root home) project_roots) \<and> canon d p = x) \<or>
         (\<exists>pinned \<in> set (spr_companions patch_roots). canon d (package_path (with_root home) pinned) = x) \<or>
         (\<exists>(registry, dg) \<in> set (spr_descriptors patch_roots). canon d (blob_path (with_root home) registry dg) = x))}"
proof -
  let ?fs = "with_root home"
  obtain ps ls bs ss where lists: "tier_listing TierPackage ?fs d = Some (Inr ps, d)" "tier_listing TierLayer ?fs d = Some (Inr ls, d)"
    "tier_listing TierBlob ?fs d = Some (Inr bs, d)" "tier_listing TierShim ?fs d = Some (Inr ss, d)" and same: "d' = d"
    and g: "g = foldl (\<lambda>g raw_path. seed_root d raw_path g) (build_graph parse_manifest d ?fs project_roots ps ls bs ss)
      (map (package_path ?fs) (spr_companions patch_roots) @ map (\<lambda>(registry, dg). blob_path ?fs registry dg) (spr_descriptors patch_roots))"
    using collector_build_cases [OF assms(2)] by metis
  note objects = tier_listing_objects(2) [OF assms(1) lists(1)] tier_listing_objects(2) [OF assms(1) lists(2)]
    tier_listing_objects(2) [OF assms(1) lists(3)] tier_listing_objects(2) [OF assms(1) lists(4)]
  note inj = tier_listing_objects(3) [OF assms(1) lists(1)] tier_listing_objects(3) [OF assms(1) lists(4)]
  have apart: "canon d a \<noteq> canon d b" if "a \<in> set ps" "b \<in> set ss" for a b
  proof
    assume eq: "canon d a = canon d b"
    have "object_at d home TierPackage (canon d a)" "object_at d home TierShim (canon d b)"
      using that objects(1,4) by blast+
    then show False using objects_apart(2) [OF assms(1)] eq by fastforce
  qed
  then have inj2: "inj_on (canon d) (set ps \<union> set ss)" "set ps \<inter> set ss = {}"
    using inj unfolding inj_on_def by (auto, metis+)
  have all: "canon d ` (set ps \<union> set ls \<union> set bs \<union> set ss) = {x. \<exists>tier. object_at d home tier x}"
    unfolding image_Un objects by (auto, metis cas_tier.exhaust)
  have keys: "set (bt_keys (rg_all_entries g)) = {x. \<exists>tier. object_at d home tier x}"
    unfolding g seed_roots_same build_graph_entries all ..
  show thesis
  proof (rule that [OF same _ _ _ keys])
    show "list_packages ?fs d = Some (Inr ps, d)" "list_blobs ?fs d = Some (Inr bs, d)" "list_shims ?fs d = Some (Inr ss, d)"
      using lists by simp_all
    show "y \<in> set (neighbors (rg_edges g) x) \<longleftrightarrow> entry_refs parse_manifest d ?fs ps bs ss x y" for x y
      unfolding g seed_roots_same by (rule build_graph_edges [OF inj2])
    show "set (rg_roots g) = {x. object_at d home TierPackage x \<and> has_live_refs d x} \<union>
      {x. (\<exists>tier. object_at d home tier x) \<and>
        ((\<exists>lock p. (lock, p) \<in> set (pinned_tier_paths ?fs project_roots) \<and> canon d p = x) \<or>
         (\<exists>pinned \<in> set (spr_companions patch_roots). canon d (package_path ?fs pinned) = x) \<or>
         (\<exists>(registry, dg) \<in> set (spr_descriptors patch_roots). canon d (blob_path ?fs registry dg) = x))}"
      unfolding g seed_roots_roots build_graph_entries build_graph_roots all objects(1) by (auto simp: image_iff)
  qed
qed

end
