(* ===== verification/Spec2Isabelle.thy ===== *)
theory Spec2Isabelle
  imports Ocx_Cascade_Equivalence Ocx_Prune Ocx_Garbage
begin

text \<open>
  A verification development for OCX, a package manager that distributes
  binaries through OCI registries.
\<close>

end
